(* ===== verification/Ace_Prelude.thy ===== *)
theory Ace_Prelude
  imports Main "HOL-Library.Word" "HOL-Library.AList" "HOL-Library.Multiset"
begin

text \<open>
  Shared vocabulary of the development: the Rust integer types as words, the explicit
  overflow disciplines of the Rust standard library (\<open>checked_*\<close>, \<open>saturating_*\<close>, plain
  \<open>+\<close> which wraps in a release build), fixed-size byte arrays, hash maps as association
  lists, and the lemmas on sums that the stake and balance arguments of the components rest
  on.

  A \<open>HashMap\<close> of the source is an association list with distinct keys: lookup is
  \<open>map_of\<close>, \<open>insert\<close> is \<open>AList.update\<close> (it replaces in place or appends), \<open>remove\<close> is
  \<open>AList.delete\<close>. The iteration order of a Rust \<open>HashMap\<close> is unspecified; where a result
  could depend on it the components prove that it does not.

  A 32-byte array is a 256-bit word. For identities and hashes the most significant byte is
  byte 0, so that the unsigned order of the words is the lexicographic order of the arrays.
\<close>

section \<open>Collections of facts\<close>

named_theorems arith_ops \<open>characterisations of checked and saturating arithmetic\<close>
named_theorems hmap_simps \<open>lookups after updates of hash maps\<close>

section \<open>Integer types\<close>

type_synonym u8 = "8 word"
type_synonym u16 = "16 word"
type_synonym u32 = "32 word"
type_synonym u64 = "64 word"
type_synonym u128 = "128 word"
type_synonym hash32 = "256 word"
type_synonym account_id = hash32
type_synonym bytes = "8 word list"

definition checked_add :: "'a::len word \<Rightarrow> 'a word \<Rightarrow> 'a word option" where
  "checked_add a b = (if unat a + unat b < 2 ^ LENGTH('a) then Some (a + b) else None)"

definition checked_sub :: "'a::len word \<Rightarrow> 'a word \<Rightarrow> 'a word option" where
  "checked_sub a b = (if b \<le> a then Some (a - b) else None)"

definition checked_mul :: "'a::len word \<Rightarrow> 'a word \<Rightarrow> 'a word option" where
  "checked_mul a b = (if unat a * unat b < 2 ^ LENGTH('a) then Some (a * b) else None)"

definition saturating_add :: "'a::len word \<Rightarrow> 'a word \<Rightarrow> 'a word" where
  "saturating_add a b = (if unat a + unat b < 2 ^ LENGTH('a) then a + b else - 1)"

definition saturating_sub :: "'a::len word \<Rightarrow> 'a word \<Rightarrow> 'a word" where
  "saturating_sub a b = (if b \<le> a then a - b else 0)"

definition saturating_mul :: "'a::len word \<Rightarrow> 'a word \<Rightarrow> 'a word" where
  "saturating_mul a b = (if unat a * unat b < 2 ^ LENGTH('a) then a * b else - 1)"

lemma unat_lt: "unat (a :: 'a::len word) < 2 ^ LENGTH('a)"
  by (rule unsigned_less)

lemma unat_add_le: "unat (a + b :: 'a::len word) \<le> unat a + unat b"
  by (simp add: unat_word_ariths)

lemma unat_add_no_wrap:
  "unat (a :: 'a::len word) + unat b < 2 ^ LENGTH('a) \<Longrightarrow> unat (a + b) = unat a + unat b"
  by (simp add: unat_word_ariths)

lemma unat_mult_no_wrap:
  "unat (a :: 'a::len word) * unat b < 2 ^ LENGTH('a) \<Longrightarrow> unat (a * b) = unat a * unat b"
  by (simp add: unat_word_ariths)

lemma unat_sub_le: "b \<le> (a :: 'a::len word) \<Longrightarrow> unat (a - b) = unat a - unat b"
  by (rule unat_sub)

lemma unat_max: "unat (- 1 :: 'a::len word) = 2 ^ LENGTH('a) - 1"
  by (simp add: unsigned_minus_1_eq_mask mask_eq_exp_minus_1)

lemma checked_add_Some [arith_ops]:
  "checked_add a b = Some c \<Longrightarrow> unat c = unat a + unat b"
  by (auto simp: checked_add_def unat_add_no_wrap split: if_splits)

lemma checked_add_None [arith_ops]:
  "checked_add (a :: 'a::len word) b = None \<longleftrightarrow> 2 ^ LENGTH('a) \<le> unat a + unat b"
  by (auto simp: checked_add_def)

lemma checked_sub_Some [arith_ops]:
  "checked_sub a b = Some c \<longleftrightarrow> unat b \<le> unat a \<and> c = a - b"
  by (auto simp: checked_sub_def word_le_nat_alt)

lemma checked_mul_Some [arith_ops]:
  "checked_mul a b = Some c \<Longrightarrow> unat c = unat a * unat b"
  by (auto simp: checked_mul_def unat_mult_no_wrap split: if_splits)

lemma unat_saturating_add [arith_ops]:
  "unat (saturating_add (a :: 'a::len word) b) = min (unat a + unat b) (2 ^ LENGTH('a) - 1)"
  by (auto simp: saturating_add_def unat_add_no_wrap unat_max min_def)

lemma unat_saturating_sub [arith_ops]:
  "unat (saturating_sub (a :: 'a::len word) b) = unat a - unat b"
  by (auto simp: saturating_sub_def unat_sub_le word_le_nat_alt)

lemma unat_saturating_mul [arith_ops]:
  "unat (saturating_mul (a :: 'a::len word) b) = min (unat a * unat b) (2 ^ LENGTH('a) - 1)"
proof (cases "unat a * unat b < 2 ^ LENGTH('a)")
  case True
  then have "unat a * unat b \<le> 2 ^ LENGTH('a) - 1" by linarith
  with True show ?thesis
    by (simp add: saturating_mul_def unat_mult_no_wrap min_absorb1)
next
  case False
  then show ?thesis
    by (simp add: saturating_mul_def unat_max min_absorb2)
qed

lemma saturating_add_0 [simp]: "saturating_add a 0 = a"
  using unat_lt [of a] by (simp add: saturating_add_def)

lemma unat_min: "unat (min a b) = min (unat a) (unat (b :: 'a::len word))"
  by (simp add: min_def word_le_nat_alt)

lemma unat_max_word: "unat (max a b) = max (unat a) (unat (b :: 'a::len word))"
  by (simp add: max_def word_le_nat_alt)

lemma unat_drop_bit: "unat (drop_bit n (a :: 'a::len word)) = unat a div 2 ^ n"
  unfolding unat_drop_bit_eq by (simp add: drop_bit_eq_div)

lemma unat_ucast_up:
  assumes "LENGTH('a::len) \<le> LENGTH('b::len)"
  shows "unat (ucast (x :: 'a word) :: 'b word) = unat x"
proof -
  have "unat x < 2 ^ LENGTH('b)"
    using unat_lt [of x] power_increasing [OF assms, of "2 :: nat"] by linarith
  then show ?thesis by (simp add: unsigned_ucast_eq take_bit_nat_eq_self)
qed

lemma unat_ucast_small:
  "unat (x :: 'a::len word) < 2 ^ LENGTH('b::len) \<Longrightarrow> unat (ucast x :: 'b word) = unat x"
  by (simp add: unsigned_ucast_eq take_bit_nat_eq_self)

text \<open>Evaluation compares integers, which have a binary representation.\<close>

lemma nat_bound_int: "(n :: nat) < 2 ^ k \<longleftrightarrow> int n < 2 ^ k"
  by simp

lemma checked_arith_code [code]:
  "checked_add (a :: 'a::len word) b
     = (if uint a + uint b < 2 ^ LENGTH('a) then Some (a + b) else None)"
  "checked_mul a b = (if uint a * uint b < 2 ^ LENGTH('a) then Some (a * b) else None)"
  "saturating_add a b = (if uint a + uint b < 2 ^ LENGTH('a) then a + b else - 1)"
  "saturating_mul a b = (if uint a * uint b < 2 ^ LENGTH('a) then a * b else - 1)"
  by (simp_all only: checked_add_def checked_mul_def saturating_add_def saturating_mul_def
      nat_bound_int of_nat_add of_nat_mult uint_nat)

section \<open>Hash maps\<close>

type_synonym ('k, 'v) hmap = "('k \<times> 'v) list"

definition hm_insert :: "'k \<Rightarrow> 'v \<Rightarrow> ('k, 'v) hmap \<Rightarrow> ('k, 'v) hmap" where
  "hm_insert = AList.update"

definition hm_remove :: "'k \<Rightarrow> ('k, 'v) hmap \<Rightarrow> ('k, 'v) hmap" where
  "hm_remove = AList.delete"

definition hm_wf :: "('k, 'v) hmap \<Rightarrow> bool" where
  "hm_wf m = distinct (map fst m)"

lemma map_of_hm_insert [hmap_simps, simp]:
  "map_of (hm_insert k v m) = (map_of m)(k \<mapsto> v)"
  by (simp add: hm_insert_def update_conv')

lemma map_of_hm_remove [hmap_simps, simp]:
  "map_of (hm_remove k m) = (map_of m)(k := None)"
  by (simp add: hm_remove_def delete_conv')

lemma hm_wf_Nil [simp]: "hm_wf []"
  by (simp add: hm_wf_def)

lemma hm_wf_insert [simp]: "hm_wf m \<Longrightarrow> hm_wf (hm_insert k v m)"
  by (simp add: hm_wf_def hm_insert_def distinct_update)

lemma hm_wf_remove [simp]: "hm_wf m \<Longrightarrow> hm_wf (hm_remove k m)"
  by (simp add: hm_wf_def hm_remove_def distinct_delete)

lemma hm_wf_filter [simp]: "hm_wf m \<Longrightarrow> hm_wf (filter P m)"
  by (simp add: hm_wf_def distinct_map_filter)

lemma keys_hm_insert: "fst ` set (hm_insert k v m) = insert k (fst ` set m)"
  by (simp add: hm_insert_def dom_update)

lemma hm_insert_absent: "map_of m k = None \<Longrightarrow> hm_insert k v m = m @ [(k, v)]"
  by (induction m) (auto simp: hm_insert_def)

lemma hm_insert_split:
  assumes "map_of m k = Some w" and "hm_wf m"
  obtains m1 m2 where "m = m1 @ (k, w) # m2" and "hm_insert k v m = m1 @ (k, v) # m2"
    and "k \<notin> fst ` set m1" and "k \<notin> fst ` set m2"
  using assms
proof (induction m arbitrary: thesis)
  case Nil
  then show ?case by simp
next
  case (Cons p m)
  obtain a b where p: "p = (a, b)" by (cases p)
  show ?case
  proof (cases "a = k")
    case True
    with Cons.prems(2,3) p have "b = w" and "k \<notin> fst ` set m"
      by (auto simp: hm_wf_def)
    with True p show ?thesis
      using Cons.prems(1) [of "[]" m] by (simp add: hm_insert_def)
  next
    case False
    with Cons.prems(2,3) p have m: "map_of m k = Some w" "hm_wf m"
      by (auto simp: hm_wf_def)
    obtain m1 m2 where m12: "m = m1 @ (k, w) # m2" "hm_insert k v m = m1 @ (k, v) # m2"
        "k \<notin> fst ` set m1" "k \<notin> fst ` set m2"
      using Cons.IH [OF _ m] by blast
    with False p show ?thesis
      using Cons.prems(1) [of "p # m1" m2] by (auto simp: hm_insert_def)
  qed
qed

text \<open>The total of a measure over the values of a map, before and after an insertion.\<close>

definition hm_total :: "('v \<Rightarrow> nat) \<Rightarrow> ('k, 'v) hmap \<Rightarrow> nat" where
  "hm_total f m = sum_list (map (\<lambda>(k, v). f v) m)"

lemma hm_total_Nil [simp]: "hm_total f [] = 0"
  by (simp add: hm_total_def)

lemma hm_total_insert_absent:
  "map_of m k = None \<Longrightarrow> hm_total f (hm_insert k v m) = hm_total f m + f v"
  by (simp add: hm_insert_absent hm_total_def)

lemma hm_total_insert_present:
  assumes "map_of m k = Some w" and "hm_wf m"
  shows "hm_total f (hm_insert k v m) + f w = hm_total f m + f v"
  using assms by (auto elim!: hm_insert_split [where v = v] simp: hm_total_def)

lemma hm_total_lookup_le:
  "map_of m k = Some v \<Longrightarrow> f v \<le> hm_total f m"
  by (induction m) (auto simp: hm_total_def split: if_splits)

section \<open>Sums of words\<close>

text \<open>The Rust \<open>Iterator::sum\<close> over \<open>u64\<close> adds with wrap-around in a release build.\<close>

definition word_sum :: "'a::len word list \<Rightarrow> 'a word" where
  "word_sum xs = foldl (+) 0 xs"

definition nat_sum :: "'a::len word list \<Rightarrow> nat" where
  "nat_sum xs = sum_list (map unat xs)"

lemma nat_sum_simps [simp]:
  "nat_sum [] = 0"
  "nat_sum (x # xs) = unat x + nat_sum xs"
  "nat_sum (xs @ ys) = nat_sum xs + nat_sum ys"
  by (simp_all add: nat_sum_def)

lemma unat_foldl_plus:
  "unat (a :: 'a::len word) + nat_sum xs < 2 ^ LENGTH('a) \<Longrightarrow>
   unat (foldl (+) a xs) = unat a + nat_sum xs"
proof (induction xs arbitrary: a)
  case Nil
  then show ?case by simp
next
  case (Cons x xs)
  then have "unat (a + x) = unat a + unat x"
    by (intro unat_add_no_wrap) simp
  with Cons show ?case by simp
qed

lemma unat_word_sum:
  "nat_sum (xs :: 'a::len word list) < 2 ^ LENGTH('a) \<Longrightarrow> unat (word_sum xs) = nat_sum xs"
  unfolding word_sum_def by (subst unat_foldl_plus) simp_all

lemma nat_sum_mset: "mset xs = mset ys \<Longrightarrow> nat_sum xs = nat_sum ys"
proof -
  assume "mset xs = mset ys"
  then have "mset (map unat xs) = mset (map unat ys)"
    by simp
  then show ?thesis
    unfolding nat_sum_def by (metis sum_mset_sum_list)
qed

section \<open>Integers as byte strings\<close>

text \<open>
  \<open>to_le_bytes\<close> and \<open>from_le_bytes\<close> of the Rust integer types, through the natural
  number the bytes denote; the big-endian forms are the reversals.
\<close>

fun le_bytes :: "nat \<Rightarrow> nat \<Rightarrow> bytes" where
  "le_bytes 0 x = []"
| "le_bytes (Suc n) x = word_of_nat (x mod 256) # le_bytes n (x div 256)"

fun nat_of_le :: "bytes \<Rightarrow> nat" where
  "nat_of_le [] = 0"
| "nat_of_le (b # bs) = unat b + 256 * nat_of_le bs"

definition u16_le :: "u16 \<Rightarrow> bytes" where "u16_le w = le_bytes 2 (unat w)"
definition u32_le :: "u32 \<Rightarrow> bytes" where "u32_le w = le_bytes 4 (unat w)"
definition u64_le :: "u64 \<Rightarrow> bytes" where "u64_le w = le_bytes 8 (unat w)"

definition u16_from_le :: "bytes \<Rightarrow> u16" where "u16_from_le bs = word_of_nat (nat_of_le bs)"
definition u64_from_le :: "bytes \<Rightarrow> u64" where "u64_from_le bs = word_of_nat (nat_of_le bs)"

text \<open>The 32 bytes of an identity or a hash, most significant byte first.\<close>

definition bytes32 :: "hash32 \<Rightarrow> bytes" where
  "bytes32 h = rev (le_bytes 32 (unat h))"

lemma length_le_bytes [simp]: "length (le_bytes n x) = n"
  by (induction n arbitrary: x) auto

lemma length_byte_forms [simp]:
  "length (u16_le a) = 2" "length (u32_le b) = 4" "length (u64_le c) = 8" "length (bytes32 h) = 32"
  by (simp_all add: u16_le_def u32_le_def u64_le_def bytes32_def)

lemma nat_of_le_bytes: "nat_of_le (le_bytes n x) = x mod 256 ^ n"
proof (induction n arbitrary: x)
  case 0
  then show ?case by simp
next
  case (Suc n)
  have "unat (word_of_nat (x mod 256) :: u8) = x mod 256"
    by (simp add: unat_of_nat)
  with Suc show ?case
    by (simp add: mod_mult2_eq)
qed

lemma nat_of_le_lt: "nat_of_le bs < 256 ^ length bs"
proof (induction bs)
  case Nil
  then show ?case by simp
next
  case (Cons b bs)
  have "unat b < 256"
    using unat_lt [of b] by simp
  with Cons show ?case by simp
qed

lemma le_bytes_inj:
  assumes "le_bytes n x = le_bytes n y" and "x < 256 ^ n" and "y < 256 ^ n"
  shows "x = y"
  using arg_cong [OF assms(1), of nat_of_le] assms(2,3) by (simp add: nat_of_le_bytes)

lemma u16_from_to_le [simp]: "u16_from_le (u16_le w) = w"
  using unat_lt [of w] by (simp add: u16_from_le_def u16_le_def nat_of_le_bytes)

lemma u64_from_to_le [simp]: "u64_from_le (u64_le w) = w"
  using unat_lt [of w] by (simp add: u64_from_le_def u64_le_def nat_of_le_bytes)

lemma u64_le_inj [simp]: "u64_le a = u64_le b \<longleftrightarrow> a = b"
  by (metis u64_from_to_le)

lemma bytes32_inj [simp]: "bytes32 a = bytes32 b \<longleftrightarrow> a = b"
proof
  assume "bytes32 a = bytes32 b"
  then have "le_bytes 32 (unat a) = le_bytes 32 (unat b)"
    by (simp add: bytes32_def)
  then have "unat a = unat b"
    by (rule le_bytes_inj) (use unat_lt [of a] unat_lt [of b] in simp_all)
  then show "a = b" by (rule unsigned_word_eqI)
qed simp

text \<open>Byte-string literals \<open>b"..."\<close> of the source.\<close>

definition ascii :: "string \<Rightarrow> bytes" where
  "ascii cs = map (\<lambda>c. word_of_nat (of_char c)) cs"

lemma length_ascii [simp]: "length (ascii cs) = length cs"
  by (simp add: ascii_def)

end
