(* ===== verification/Signatures.thy ===== *)
theory Signatures
  imports Ace_Prelude
begin

text \<open>
  Algorithm-tagged keys and signatures (\<open>ace-runtime/src/crypto/sig_algo.rs\<close>): the algorithm
  registry with its wire tags and sizes, the wire format of keys and signatures, and the
  verification dispatch. The cryptographic primitives are third-party crates; they are the
  fields of the record \<open>crypto\<close>, which every definition that reaches one takes as an argument.
\<close>

section \<open>The primitives\<close>

record crypto =
  sha256 :: "bytes \<Rightarrow> hash32"
  ed25519_key :: "bytes \<Rightarrow> bool"
  ed25519_verify_strict :: "bytes \<Rightarrow> bytes \<Rightarrow> bytes \<Rightarrow> bool"
  k256_key :: "bytes \<Rightarrow> bool"
  k256_sig :: "bytes \<Rightarrow> bool"
  k256_verify :: "bytes \<Rightarrow> bytes \<Rightarrow> bytes \<Rightarrow> bool"
  ml_dsa_key :: "bytes \<Rightarrow> bool"
  ml_dsa_verify :: "bytes \<Rightarrow> bytes \<Rightarrow> bytes \<Rightarrow> bool"
  hmac_key :: "bytes \<Rightarrow> bool"
  hmac_verify_slice :: "bytes \<Rightarrow> bytes \<Rightarrow> bytes \<Rightarrow> bool"

section \<open>The algorithm registry\<close>

datatype signature_algorithm = Ed25519 | Secp256k1 | MlDsa44 | HmacSha256

definition alg_from_tag :: "u8 \<Rightarrow> signature_algorithm option" where
  "alg_from_tag t =
     (if t = 0 then Some Ed25519
      else if t = 1 then Some Secp256k1
      else if t = 2 then Some MlDsa44
      else if t = 3 then Some HmacSha256
      else None)"

fun alg_tag :: "signature_algorithm \<Rightarrow> u8" where
  "alg_tag Ed25519 = 0"
| "alg_tag Secp256k1 = 1"
| "alg_tag MlDsa44 = 2"
| "alg_tag HmacSha256 = 3"

fun pubkey_len :: "signature_algorithm \<Rightarrow> nat" where
  "pubkey_len Ed25519 = 32"
| "pubkey_len Secp256k1 = 33"
| "pubkey_len MlDsa44 = 1312"
| "pubkey_len HmacSha256 = 32"

fun signature_len :: "signature_algorithm \<Rightarrow> nat" where
  "signature_len Ed25519 = 64"
| "signature_len Secp256k1 = 64"
| "signature_len MlDsa44 = 2420"
| "signature_len HmacSha256 = 32"

section \<open>Tagged keys and signatures\<close>

record tagged_pubkey =
  pk_alg :: signature_algorithm
  pk_bytes :: bytes

record tagged_signature =
  sig_alg :: signature_algorithm
  sig_bytes :: bytes

definition pk_well_formed :: "tagged_pubkey \<Rightarrow> bool" where
  "pk_well_formed k = (length (pk_bytes k) = pubkey_len (pk_alg k))"

definition pk_is_zero :: "tagged_pubkey \<Rightarrow> bool" where
  "pk_is_zero k = list_all (\<lambda>b. b = 0) (pk_bytes k)"

definition pk_fingerprint :: "crypto \<Rightarrow> tagged_pubkey \<Rightarrow> hash32" where
  "pk_fingerprint cr k = sha256 cr (alg_tag (pk_alg k) # pk_bytes k)"

definition sig_well_formed :: "tagged_signature \<Rightarrow> bool" where
  "sig_well_formed s = (length (sig_bytes s) = signature_len (sig_alg s))"

definition ml_dsa_44_stripped :: tagged_signature where
  "ml_dsa_44_stripped = \<lparr>sig_alg = MlDsa44, sig_bytes = []\<rparr>"

definition zero_ed25519_sig :: tagged_signature where
  "zero_ed25519_sig = \<lparr>sig_alg = Ed25519, sig_bytes = replicate 64 0\<rparr>"

section \<open>Wire format\<close>

datatype wire_error =
    WTooShort | WUnknownAlgorithm | WLengthMismatch | WTruncated

text \<open>\<open>to_wire_bytes\<close> asserts that the material fits a 16-bit length: \<open>None\<close> is the panic.\<close>

definition pk_to_wire :: "tagged_pubkey \<Rightarrow> bytes option" where
  "pk_to_wire k =
     (if length (pk_bytes k) \<le> 65535
      then Some (alg_tag (pk_alg k) # u16_le (word_of_nat (length (pk_bytes k))) @ pk_bytes k)
      else None)"

definition pk_from_wire :: "bytes \<Rightarrow> wire_error + tagged_pubkey \<times> nat" where
  "pk_from_wire d =
     (if length d < 3 then Inl WTooShort
      else case alg_from_tag (d ! 0) of
        None \<Rightarrow> Inl WUnknownAlgorithm
      | Some alg \<Rightarrow>
          (let key_len = unat (u16_from_le [d ! 1, d ! 2]) in
           if key_len \<noteq> pubkey_len alg then Inl WLengthMismatch
           else let total = 3 + key_len in
             if length d < total then Inl WTruncated
             else Inr (\<lparr>pk_alg = alg, pk_bytes = drop 3 (take total d)\<rparr>, total)))"

definition sig_to_wire :: "tagged_signature \<Rightarrow> bytes option" where
  "sig_to_wire s =
     (if length (sig_bytes s) \<le> 65535
      then Some (alg_tag (sig_alg s) # u16_le (word_of_nat (length (sig_bytes s))) @ sig_bytes s)
      else None)"

definition sig_from_wire :: "bytes \<Rightarrow> wire_error + tagged_signature \<times> nat" where
  "sig_from_wire d =
     (if length d < 3 then Inl WTooShort
      else case alg_from_tag (d ! 0) of
        None \<Rightarrow> Inl WUnknownAlgorithm
      | Some alg \<Rightarrow>
          (let sig_len = unat (u16_from_le [d ! 1, d ! 2]);
               is_ml_dsa_44_stripped = (alg = MlDsa44 \<and> sig_len = 0) in
           if \<not> is_ml_dsa_44_stripped \<and> sig_len \<noteq> signature_len alg then Inl WLengthMismatch
           else let total = 3 + sig_len in
             if length d < total then Inl WTruncated
             else Inr (\<lparr>sig_alg = alg, sig_bytes = drop 3 (take total d)\<rparr>, total)))"

section \<open>Verification dispatch\<close>

definition verify_hmac_sha256 :: "crypto \<Rightarrow> bytes \<Rightarrow> bytes \<Rightarrow> bytes \<Rightarrow> bool" where
  "verify_hmac_sha256 cr key msg mac = (hmac_key cr key \<and> hmac_verify_slice cr key msg mac)"

definition verify_ml_dsa_44 :: "crypto \<Rightarrow> bytes \<Rightarrow> bytes \<Rightarrow> bytes \<Rightarrow> bool" where
  "verify_ml_dsa_44 cr pk msg sig =
     (if length pk \<noteq> 1312 \<or> length sig \<noteq> 2420 then False
      else if \<not> ml_dsa_key cr pk then False
      else ml_dsa_verify cr pk msg sig)"

definition verify_secp256k1 :: "crypto \<Rightarrow> bytes \<Rightarrow> bytes \<Rightarrow> bytes \<Rightarrow> bool" where
  "verify_secp256k1 cr pk msg sig =
     (if \<not> k256_key cr pk then False
      else if length sig \<noteq> 64 then False
      else if \<not> k256_sig cr sig then False
      else k256_verify cr pk msg sig)"

definition verify_ed25519 :: "crypto \<Rightarrow> bytes \<Rightarrow> bytes \<Rightarrow> bytes \<Rightarrow> bool" where
  "verify_ed25519 cr pk msg sig =
     (if length pk \<noteq> 32 then False
      else if \<not> ed25519_key cr pk then False
      else if length sig \<noteq> 64 then False
      else ed25519_verify_strict cr pk msg sig)"

definition verify_signature :: "crypto \<Rightarrow> tagged_pubkey \<Rightarrow> bytes \<Rightarrow> tagged_signature \<Rightarrow> bool" where
  "verify_signature cr k msg s =
     (if pk_alg k \<noteq> sig_alg s then False
      else if \<not> pk_well_formed k \<or> \<not> sig_well_formed s then False
      else case pk_alg k of
        Ed25519 \<Rightarrow> verify_ed25519 cr (pk_bytes k) msg (sig_bytes s)
      | Secp256k1 \<Rightarrow> verify_secp256k1 cr (pk_bytes k) msg (sig_bytes s)
      | MlDsa44 \<Rightarrow> verify_ml_dsa_44 cr (pk_bytes k) msg (sig_bytes s)
      | HmacSha256 \<Rightarrow> verify_hmac_sha256 cr (pk_bytes k) msg (sig_bytes s))"

section \<open>Properties\<close>

lemma alg_from_tag_tag [simp]: "alg_from_tag (alg_tag a) = Some a"
  by (cases a) (simp_all add: alg_from_tag_def)

lemma alg_from_tag_SomeD: "alg_from_tag t = Some a \<Longrightarrow> alg_tag a = t"
  by (auto simp: alg_from_tag_def split: if_splits)

lemma pubkey_len_le: "pubkey_len a \<le> 65535"
  by (cases a) simp_all

lemma signature_len_le: "signature_len a \<le> 65535"
  by (cases a) simp_all

lemma u16_le_length_roundtrip:
  assumes "n \<le> 65535" and "u16_le (word_of_nat n) = [a, b]"
  shows "unat (u16_from_le [a, b]) = n"
proof -
  have "u16_from_le [a, b] = word_of_nat n"
    using u16_from_to_le [of "word_of_nat n"] assms(2) by simp
  then show ?thesis
    using assms(1) by (simp add: unat_of_nat)
qed

lemma u16_le_two: obtains a b where "u16_le w = [a, b]"
  using length_byte_forms(1) [of w]
  by (metis (no_types, opaque_lifting) length_0_conv length_Suc_conv numeral_2_eq_2)

lemma wire_body: "length xs = n \<Longrightarrow> drop 3 (take (3 + n) (t # a # b # xs @ ys)) = xs"
  by (simp add: numeral_3_eq_3)

text \<open>Both decoders return exactly what the encoders wrote and say how much they consumed.\<close>

lemma pk_wire_decode:
  assumes wf: "pk_well_formed k" and w: "pk_to_wire k = Some w"
  shows "pk_from_wire (w @ rest) = Inr (k, length w)"
proof -
  obtain a b where ab: "u16_le (word_of_nat (length (pk_bytes k))) = [a, b]"
    by (rule u16_le_two)
  have w': "w = alg_tag (pk_alg k) # a # b # pk_bytes k"
    using w by (auto simp: pk_to_wire_def ab split: if_splits)
  have len: "unat (u16_from_le [a, b]) = length (pk_bytes k)"
    using u16_le_length_roundtrip [OF _ ab] pubkey_len_le wf by (simp add: pk_well_formed_def)
  show ?thesis
    using wf by (simp add: pk_from_wire_def w' len pk_well_formed_def Let_def wire_body)
qed

lemma pk_wire_total: "pk_well_formed k \<Longrightarrow> \<exists>w. pk_to_wire k = Some w"
  using pubkey_len_le [of "pk_alg k"] by (simp add: pk_to_wire_def pk_well_formed_def)

definition sig_wire_form :: "tagged_signature \<Rightarrow> bool" where
  "sig_wire_form s = (sig_well_formed s \<or> s = ml_dsa_44_stripped)"

lemma sig_wire_decode:
  assumes wf: "sig_wire_form s" and w: "sig_to_wire s = Some w"
  shows "sig_from_wire (w @ rest) = Inr (s, length w)"
proof -
  obtain a b where ab: "u16_le (word_of_nat (length (sig_bytes s))) = [a, b]"
    by (rule u16_le_two)
  have w': "w = alg_tag (sig_alg s) # a # b # sig_bytes s"
    using w by (auto simp: sig_to_wire_def ab split: if_splits)
  have "length (sig_bytes s) \<le> 65535"
    using wf signature_len_le by (auto simp: sig_wire_form_def sig_well_formed_def ml_dsa_44_stripped_def)
  then have len: "unat (u16_from_le [a, b]) = length (sig_bytes s)"
    using u16_le_length_roundtrip [OF _ ab] by simp
  show ?thesis
    using wf by (auto simp: sig_from_wire_def w' len sig_wire_form_def sig_well_formed_def
        ml_dsa_44_stripped_def Let_def wire_body)
qed

lemma sig_wire_total: "sig_wire_form s \<Longrightarrow> \<exists>w. sig_to_wire s = Some w"
  using signature_len_le [of "sig_alg s"]
  by (auto simp: sig_to_wire_def sig_wire_form_def sig_well_formed_def ml_dsa_44_stripped_def)

lemma sig_from_wire_form:
  assumes "sig_from_wire d = Inr (s, n)"
  shows "sig_wire_form s \<and> n \<le> length d \<and> n = 3 + length (sig_bytes s)"
  using assms
  by (auto simp: sig_from_wire_def sig_wire_form_def sig_well_formed_def ml_dsa_44_stripped_def
      Let_def split: if_splits option.splits)

section \<open>Properties\<close>

text \<open>
  Tagged signatures survive the wire: every well-formed signature, and the empty
  placeholder for a stripped ML-DSA-44 signature, has an encoding, and decoding any input that
  starts with it returns the signature and the number of bytes read.
\<close>

theorem signature_wire_roundtrip:
  assumes "sig_well_formed s \<or> s = ml_dsa_44_stripped"
  shows "\<exists>w. sig_to_wire s = Some w \<and> sig_from_wire (w @ rest) = Inr (s, length w)"
  using sig_wire_total sig_wire_decode assms by (metis sig_wire_form_def)

theorem signature_wire_roundtrip_witness:
  "\<exists>w. sig_to_wire ml_dsa_44_stripped = Some w \<and>
     sig_from_wire (w @ [1, 2]) = Inr (ml_dsa_44_stripped, length w)"
  using signature_wire_roundtrip [of ml_dsa_44_stripped "[1, 2]"] by simp

text \<open>
  C37: Tagged public keys survive the wire, and no two well-formed keys share an encoding even
  when other data follows.
\<close>

theorem pubkey_wire_roundtrip:
  assumes "pk_well_formed k"
  shows "\<exists>w. pk_to_wire k = Some w \<and> pk_from_wire (w @ rest) = Inr (k, length w)"
  using pk_wire_total [OF assms] pk_wire_decode [OF assms] by blast

theorem pubkey_wire_roundtrip_witness:
  "\<exists>w. pk_to_wire \<lparr>pk_alg = Ed25519, pk_bytes = replicate 32 9\<rparr> = Some w \<and>
     pk_from_wire (w @ [5]) = Inr (\<lparr>pk_alg = Ed25519, pk_bytes = replicate 32 9\<rparr>, length w)"
  using pubkey_wire_roundtrip [of "\<lparr>pk_alg = Ed25519, pk_bytes = replicate 32 9\<rparr>" "[5]"]
  by (simp add: pk_well_formed_def)

text \<open>
  C36: Signature decoding never reads past its input, accepts nothing but well-formed
  signatures and the stripped placeholder, and what it accepts as a placeholder never passes
  verification, whatever the key and the message.
\<close>

theorem decoded_signature_safe:
  assumes "sig_from_wire d = Inr (s, n)"
  shows "n \<le> length d \<and> (sig_well_formed s \<or> s = ml_dsa_44_stripped) \<and>
    (verify_signature cr k msg s \<longrightarrow> sig_well_formed s \<and> sig_alg s = pk_alg k)"
  using sig_from_wire_form [OF assms]
  by (auto simp: sig_wire_form_def verify_signature_def split: if_splits)

theorem decoded_signature_safe_witness:
  "\<forall>cr k msg. \<not> verify_signature cr k msg ml_dsa_44_stripped"
proof (intro allI)
  fix cr k msg
  have "sig_from_wire [2, 0, 0] = Inr (ml_dsa_44_stripped, 3)" by code_simp
  from decoded_signature_safe [OF this, of cr k msg] show "\<not> verify_signature cr k msg ml_dsa_44_stripped"
    by (simp add: sig_well_formed_def ml_dsa_44_stripped_def)
qed

end
