(* ===== verification/Validator_Set.thy ===== *)
theory Validator_Set
  imports Signatures
begin

text \<open>
  The stake-weighted validator set (\<open>ace-consensus/src/validator_set.rs\<close>) and the two-thirds
  quorum test (\<open>has_quorum\<close> of \<open>ace-runtime/src/config.rs\<close>). The invariant \<open>vs_inv\<close> says what
  every operation keeps: identities are strictly sorted, every stake is at least the minimum,
  and \<open>total_stake\<close> is the exact sum of the stakes (no wrap-around has happened).
\<close>

section \<open>Quorum\<close>

definition has_quorum :: "u64 \<Rightarrow> u64 \<Rightarrow> bool" where
  "has_quorum votes total_stake =
     (if total_stake = 0 then False
      else (ucast votes :: u128) * 3 \<ge> 2 * (ucast total_stake :: u128))"

lemma unat_ucast_u128: "unat (ucast (x :: u64) :: u128) = unat x"
  using unat_lt [of x] by (simp add: unsigned_ucast_eq take_bit_nat_eq_self)

text \<open>The 128-bit products never wrap, so the test is the exact rational comparison.\<close>

lemma has_quorum_iff:
  "has_quorum v t \<longleftrightarrow> 0 < unat t \<and> 2 * unat t \<le> 3 * unat v"
proof -
  have v: "unat ((ucast v :: u128) * 3) = unat v * 3"
    using unat_lt [of v] by (subst unat_mult_no_wrap) (simp_all add: unat_ucast_u128)
  have t: "unat (2 * (ucast t :: u128)) = 2 * unat t"
    using unat_lt [of t] by (subst unat_mult_no_wrap) (simp_all add: unat_ucast_u128)
  show ?thesis
    unfolding has_quorum_def word_le_nat_alt v t by (auto simp: unat_gt_0)
qed

section \<open>Validators\<close>

record validator_capabilities =
  evm_core :: bool
  btc_payments :: bool
  solana_light :: bool

definition default_capabilities :: validator_capabilities where
  "default_capabilities = \<lparr>evm_core = True, btc_payments = False, solana_light = False\<rparr>"

datatype committee_domain = BtcPayments | SolanaLight

record validator =
  v_id_com :: account_id
  v_stake :: u64
  v_index :: u32
  v_signing_pubkey :: tagged_pubkey
  v_capabilities :: validator_capabilities

definition MIN_VALIDATOR_STAKE :: u64 where
  "MIN_VALIDATOR_STAKE = 1"

record validator_set =
  vs_validators :: "validator list"
  vs_total_stake :: u64
  vs_generation :: u64

datatype vset_error =
    InsufficientStake account_id u64
  | DuplicateIdCom account_id
  | DuplicateIndex u32 account_id

definition vs_new :: "validator list \<Rightarrow> validator_set" where
  "vs_new vals =
     (let validators = sort_key v_id_com (filter (\<lambda>v. v_stake v \<ge> MIN_VALIDATOR_STAKE) vals)
      in \<lparr>vs_validators = validators,
          vs_total_stake = word_sum (map v_stake validators),
          vs_generation = 0\<rparr>)"

definition set_generation :: "validator_set \<Rightarrow> u64 \<Rightarrow> validator_set" where
  "set_generation vs g = vs\<lparr>vs_generation := g\<rparr>"

definition vs_len :: "validator_set \<Rightarrow> nat" where
  "vs_len vs = length (vs_validators vs)"

definition vs_is_empty :: "validator_set \<Rightarrow> bool" where
  "vs_is_empty vs = (vs_validators vs = [])"

definition get_by_index :: "validator_set \<Rightarrow> u32 \<Rightarrow> validator option" where
  "get_by_index vs i = find (\<lambda>v. v_index v = i) (vs_validators vs)"

definition get_by_id :: "validator_set \<Rightarrow> account_id \<Rightarrow> validator option" where
  "get_by_id vs i = find (\<lambda>v. v_id_com v = i) (vs_validators vs)"

definition validators_for_domain :: "validator_set \<Rightarrow> committee_domain \<Rightarrow> validator list" where
  "validators_for_domain vs d =
     filter (\<lambda>v. case d of BtcPayments \<Rightarrow> btc_payments (v_capabilities v)
                        | SolanaLight \<Rightarrow> solana_light (v_capabilities v)) (vs_validators vs)"

definition vs_filtered :: "validator_set \<Rightarrow> account_id set \<Rightarrow> validator_set" where
  "vs_filtered vs allowed = vs_new (filter (\<lambda>v. v_id_com v \<in> allowed) (vs_validators vs))"

definition add_validator :: "validator_set \<Rightarrow> validator \<Rightarrow> vset_error + validator_set" where
  "add_validator vs v =
     (if v_stake v < MIN_VALIDATOR_STAKE then Inl (InsufficientStake (v_id_com v) (v_stake v))
      else if \<exists>e \<in> set (vs_validators vs). v_id_com e = v_id_com v
        then Inl (DuplicateIdCom (v_id_com v))
      else if \<exists>e \<in> set (vs_validators vs). v_index e = v_index v
        then Inl (DuplicateIndex (v_index v) (v_id_com v))
      else Inr (vs\<lparr>vs_total_stake := vs_total_stake vs + v_stake v,
                   vs_validators := sort_key v_id_com (vs_validators vs @ [v])\<rparr>))"

fun remove_first :: "account_id \<Rightarrow> validator list \<Rightarrow> (validator \<times> validator list) option" where
  "remove_first i [] = None"
| "remove_first i (v # vs) =
     (if v_id_com v = i then Some (v, vs)
      else map_option (\<lambda>(r, ws). (r, v # ws)) (remove_first i vs))"

definition remove_validator ::
  "validator_set \<Rightarrow> account_id \<Rightarrow> validator_set \<times> validator option" where
  "remove_validator vs i =
     (case remove_first i (vs_validators vs) of
        None \<Rightarrow> (vs, None)
      | Some (removed, rest) \<Rightarrow>
          (vs\<lparr>vs_validators := rest,
              vs_total_stake := saturating_sub (vs_total_stake vs) (v_stake removed)\<rparr>,
           Some removed))"

fun set_first_stake :: "account_id \<Rightarrow> u64 \<Rightarrow> validator list \<Rightarrow> validator list" where
  "set_first_stake i s [] = []"
| "set_first_stake i s (v # vs) =
     (if v_id_com v = i then v\<lparr>v_stake := s\<rparr> # vs else v # set_first_stake i s vs)"

definition update_stake :: "validator_set \<Rightarrow> account_id \<Rightarrow> u64 \<Rightarrow> validator_set" where
  "update_stake vs i new_stake =
     (if new_stake < MIN_VALIDATOR_STAKE then fst (remove_validator vs i)
      else case get_by_id vs i of
        None \<Rightarrow> vs
      | Some v \<Rightarrow>
          vs\<lparr>vs_total_stake := saturating_sub (vs_total_stake vs) (v_stake v) + new_stake,
             vs_validators := set_first_stake i new_stake (vs_validators vs)\<rparr>)"

section \<open>The accounting invariant\<close>

definition stakes :: "validator list \<Rightarrow> u64 list" where
  "stakes vals = map v_stake vals"

definition vs_inv :: "validator_set \<Rightarrow> bool" where
  "vs_inv vs \<longleftrightarrow>
     sorted_wrt (\<lambda>a b. v_id_com a < v_id_com b) (vs_validators vs) \<and>
     (\<forall>v \<in> set (vs_validators vs). 1 \<le> unat (v_stake v)) \<and>
     unat (vs_total_stake vs) = nat_sum (stakes (vs_validators vs))"

lemma stakes_simps [simp]:
  "stakes [] = []"
  "stakes (v # vs) = v_stake v # stakes vs"
  "stakes (vs @ ws) = stakes vs @ stakes ws"
  by (simp_all add: stakes_def)

lemma min_stake_iff [simp]: "v_stake v < MIN_VALIDATOR_STAKE \<longleftrightarrow> v_stake v = 0"
  by (simp add: MIN_VALIDATOR_STAKE_def word_less_1)

lemma min_stake_le_iff: "MIN_VALIDATOR_STAKE \<le> s \<longleftrightarrow> 1 \<le> unat s"
  by (simp add: MIN_VALIDATOR_STAKE_def word_le_nat_alt)

lemma sorted_wrt_ids:
  "sorted_wrt (\<lambda>a b. v_id_com a < v_id_com b) vs \<longleftrightarrow>
   sorted (map v_id_com vs) \<and> distinct (map v_id_com vs)"
  using strict_sorted_iff [of "map v_id_com vs"] by (simp add: sorted_wrt_map)

lemma nat_sum_stakes_sort [simp]: "nat_sum (stakes (sort_key f vs)) = nat_sum (stakes vs)"
  unfolding stakes_def by (rule nat_sum_mset) simp

lemma nat_sum_stakes_filter: "nat_sum (stakes (filter P vs)) \<le> nat_sum (stakes vs)"
  by (induction vs) auto

lemma distinct_ids_sort:
  "distinct (map v_id_com (sort_key v_id_com vs)) \<longleftrightarrow> distinct (map v_id_com vs)"
  by (rule mset_eq_imp_distinct_iff) (simp add: mset_map)

lemma sorted_ids_filter:
  assumes "sorted_wrt (\<lambda>a b. v_id_com a < v_id_com b) vs"
  shows "sorted_wrt (\<lambda>a b. v_id_com a < v_id_com b) (filter P vs)"
  using assms by (rule sorted_wrt_filter)

text \<open>Every constructed set meets the invariant when the input names no identity twice.\<close>

lemma vs_new_inv:
  assumes "distinct (map v_id_com vals)" and "nat_sum (stakes vals) < 2 ^ 64"
  shows "vs_inv (vs_new vals)"
proof -
  let ?f = "filter (\<lambda>v. v_stake v \<ge> MIN_VALIDATOR_STAKE) vals"
  have d: "distinct (map v_id_com ?f)"
    using assms(1) by (rule distinct_map_filter)
  have "nat_sum (stakes ?f) \<le> nat_sum (stakes vals)"
    by (rule nat_sum_stakes_filter)
  then have "nat_sum (map v_stake (sort_key v_id_com ?f)) < 2 ^ LENGTH(64)"
    using assms(2) nat_sum_stakes_sort [of v_id_com ?f] by (simp add: stakes_def)
  then show ?thesis
    using d unat_word_sum [of "map v_stake (sort_key v_id_com ?f)"]
    by (simp add: vs_inv_def vs_new_def Let_def sorted_wrt_ids distinct_ids_sort
        min_stake_le_iff stakes_def)
qed

lemma vs_inv_distinct: "vs_inv vs \<Longrightarrow> distinct (map v_id_com (vs_validators vs))"
  by (simp add: vs_inv_def sorted_wrt_ids)

lemma get_by_id_Some:
  "get_by_id vs i = Some v \<Longrightarrow> v \<in> set (vs_validators vs) \<and> v_id_com v = i"
  by (auto simp: get_by_id_def find_Some_iff)

lemma get_by_id_None:
  "get_by_id vs i = None \<longleftrightarrow> i \<notin> v_id_com ` set (vs_validators vs)"
  by (auto simp: get_by_id_def find_None_iff)

lemma find_distinct:
  "distinct (map f xs) \<Longrightarrow> x \<in> set xs \<Longrightarrow> find (\<lambda>y. f y = f x) xs = Some x"
  by (induction xs) (auto simp: rev_image_eqI)

lemma get_by_id_member:
  "vs_inv vs \<Longrightarrow> v \<in> set (vs_validators vs) \<Longrightarrow> get_by_id vs (v_id_com v) = Some v"
  using find_distinct [OF vs_inv_distinct] by (simp add: get_by_id_def)

lemma add_validator_inv:
  assumes inv: "vs_inv vs" and ok: "add_validator vs v = Inr vs'"
    and room: "unat (vs_total_stake vs) + unat (v_stake v) < 2 ^ 64"
  shows "vs_inv vs'"
proof -
  have d: "distinct (map v_id_com (vs_validators vs @ [v]))" and s: "v_stake v \<noteq> 0"
    and vs': "vs' = vs\<lparr>vs_total_stake := vs_total_stake vs + v_stake v,
                   vs_validators := sort_key v_id_com (vs_validators vs @ [v])\<rparr>"
    using ok vs_inv_distinct [OF inv] by (auto simp: add_validator_def split: if_splits)
  have t: "unat (vs_total_stake vs + v_stake v) = unat (vs_total_stake vs) + unat (v_stake v)"
    using room by (intro unat_add_no_wrap) simp
  have "distinct (map v_id_com (vs_validators vs'))"
    using d distinct_ids_sort [of "vs_validators vs @ [v]"] by (simp add: vs')
  then show ?thesis
    using inv s t nat_sum_stakes_sort [of v_id_com "vs_validators vs @ [v]"]
    by (auto simp: vs_inv_def vs' sorted_wrt_ids Suc_le_eq unat_gt_0)
qed

lemma add_validator_members:
  "add_validator vs v = Inr vs' \<Longrightarrow> set (vs_validators vs') = insert v (set (vs_validators vs))"
  by (auto simp: add_validator_def split: if_splits)

lemma remove_first_Some:
  "remove_first i vs = Some (r, ws) \<Longrightarrow>
   \<exists>us. vs = us @ r # drop (length us) ws \<and> ws = us @ drop (length us) ws \<and> v_id_com r = i"
proof (induction vs arbitrary: r ws)
  case Nil
  then show ?case by simp
next
  case (Cons v vs)
  show ?case
  proof (cases "v_id_com v = i")
    case True
    with Cons.prems show ?thesis by (intro exI [of _ "[]"]) simp
  next
    case False
    with Cons.prems obtain ws' where ws': "remove_first i vs = Some (r, ws')" "ws = v # ws'"
      by auto
    then obtain us where "vs = us @ r # drop (length us) ws'" "ws' = us @ drop (length us) ws'"
        "v_id_com r = i"
      using Cons.IH by blast
    with ws' show ?thesis by (intro exI [of _ "v # us"]) simp
  qed
qed

lemma remove_first_None:
  "remove_first i vs = None \<longleftrightarrow> i \<notin> v_id_com ` set vs"
  by (induction vs) auto

lemma remove_validator_inv:
  assumes inv: "vs_inv vs"
  shows "vs_inv (fst (remove_validator vs i))"
proof (cases "remove_first i (vs_validators vs)")
  case None
  then show ?thesis using inv by (simp add: remove_validator_def)
next
  case (Some p)
  obtain r ws where p: "p = (r, ws)" by (cases p)
  obtain us xs where vs: "vs_validators vs = us @ r # xs" and ws: "ws = us @ xs"
    using remove_first_Some Some p by blast
  have "nat_sum (stakes (us @ xs)) =
      unat (saturating_sub (vs_total_stake vs) (v_stake r))"
    using inv by (simp add: vs_inv_def vs unat_saturating_sub)
  then show ?thesis
    using inv Some p by (auto simp: remove_validator_def vs_inv_def vs ws sorted_wrt_append)
qed

lemma remove_validator_gone:
  assumes "vs_inv vs"
  shows "get_by_id (fst (remove_validator vs i)) i = None"
proof (cases "remove_first i (vs_validators vs)")
  case None
  then have "i \<notin> v_id_com ` set (vs_validators vs)"
    by (simp add: remove_first_None)
  with None show ?thesis by (simp add: remove_validator_def get_by_id_None)
next
  case (Some p)
  obtain r ws where p: "p = (r, ws)" by (cases p)
  obtain us xs where vs: "vs_validators vs = us @ r # xs" and ws: "ws = us @ xs"
      and r: "v_id_com r = i"
    using remove_first_Some Some p by blast
  have "i \<notin> v_id_com ` set ws"
    using vs_inv_distinct [OF assms] by (auto simp: vs ws r)
  then show ?thesis
    using Some p by (auto simp: remove_validator_def get_by_id_None)
qed

lemma set_first_stake_ids [simp]: "map v_id_com (set_first_stake i s vs) = map v_id_com vs"
  by (induction vs) auto

lemma nat_sum_set_first_stake:
  "find (\<lambda>v. v_id_com v = i) vs = Some v \<Longrightarrow>
   nat_sum (stakes (set_first_stake i s vs)) + unat (v_stake v) = nat_sum (stakes vs) + unat s"
  by (induction vs) (auto split: if_splits)

lemma set_first_stake_members:
  "x \<in> set (set_first_stake i s vs) \<Longrightarrow> x \<in> set vs \<or> v_stake x = s"
  by (induction vs) (auto split: if_splits)

lemma update_stake_inv:
  assumes inv: "vs_inv vs"
    and room: "unat (vs_total_stake vs) + unat new_stake < 2 ^ 64"
  shows "vs_inv (update_stake vs i new_stake)"
proof (cases "new_stake < MIN_VALIDATOR_STAKE")
  case True
  then show ?thesis using remove_validator_inv [OF inv] by (simp add: update_stake_def)
next
  case ge: False
  show ?thesis
  proof (cases "get_by_id vs i")
    case None
    with ge inv show ?thesis by (simp add: update_stake_def)
  next
    case (Some v)
    let ?ws = "set_first_stake i new_stake (vs_validators vs)"
    let ?t = "saturating_sub (vs_total_stake vs) (v_stake v) + new_stake"
    have sum: "nat_sum (stakes ?ws) + unat (v_stake v) = nat_sum (stakes (vs_validators vs)) + unat new_stake"
      using Some by (simp add: get_by_id_def nat_sum_set_first_stake)
    have "unat (v_stake v) \<le> nat_sum (stakes (vs_validators vs))"
      using get_by_id_Some [OF Some] by (auto simp: nat_sum_def stakes_def member_le_sum_list)
    moreover have "unat ?t = unat (vs_total_stake vs) - unat (v_stake v) + unat new_stake"
      using room by (subst unat_add_no_wrap) (simp_all add: unat_saturating_sub)
    ultimately have t: "unat ?t = nat_sum (stakes ?ws)"
      using sum inv by (simp add: vs_inv_def)
    have pos: "\<forall>x \<in> set ?ws. 1 \<le> unat (v_stake x)"
    proof
      fix x assume "x \<in> set ?ws"
      then consider "x \<in> set (vs_validators vs)" | "v_stake x = new_stake"
        using set_first_stake_members by blast
      then show "1 \<le> unat (v_stake x)"
        using inv ge by cases (auto simp: vs_inv_def not_less min_stake_le_iff)
    qed
    show ?thesis
      using ge Some t pos inv by (simp add: update_stake_def vs_inv_def sorted_wrt_ids)
  qed
qed

section \<open>Sequences of operations\<close>

datatype vs_op =
    OpAdd validator
  | OpRemove account_id
  | OpUpdateStake account_id u64
  | OpSetGeneration u64

fun vs_apply :: "validator_set \<Rightarrow> vs_op \<Rightarrow> validator_set" where
  "vs_apply vs (OpAdd v) = (case add_validator vs v of Inl e \<Rightarrow> vs | Inr vs' \<Rightarrow> vs')"
| "vs_apply vs (OpRemove i) = fst (remove_validator vs i)"
| "vs_apply vs (OpUpdateStake i s) = update_stake vs i s"
| "vs_apply vs (OpSetGeneration g) = set_generation vs g"

fun op_stake :: "vs_op \<Rightarrow> nat" where
  "op_stake (OpAdd v) = unat (v_stake v)"
| "op_stake (OpUpdateStake i s) = unat s"
| "op_stake op = 0"

definition ops_stake :: "vs_op list \<Rightarrow> nat" where
  "ops_stake ops = sum_list (map op_stake ops)"

lemma remove_validator_total:
  "unat (vs_total_stake (fst (remove_validator vs i))) \<le> unat (vs_total_stake vs)"
  by (auto simp: remove_validator_def unat_saturating_sub split: option.splits)

lemma vs_apply_inv:
  assumes inv: "vs_inv vs" and room: "unat (vs_total_stake vs) + op_stake op < 2 ^ 64"
  shows "vs_inv (vs_apply vs op) \<and> unat (vs_total_stake (vs_apply vs op)) \<le> unat (vs_total_stake vs) + op_stake op"
proof (cases op)
  case (OpAdd v)
  show ?thesis
  proof (cases "add_validator vs v")
    case (Inl e)
    with OpAdd inv show ?thesis by simp
  next
    case (Inr vs')
    then have "vs_total_stake vs' = vs_total_stake vs + v_stake v"
      by (auto simp: add_validator_def split: if_splits)
    with Inr OpAdd room add_validator_inv [OF inv Inr] show ?thesis
      by (simp add: unat_add_no_wrap)
  qed
next
  case (OpRemove i)
  then show ?thesis using remove_validator_inv [OF inv] remove_validator_total [of vs i] by simp
next
  case (OpUpdateStake i s)
  have "unat (saturating_sub (vs_total_stake vs) x + s) \<le> unat (vs_total_stake vs) + unat s" for x
    using unat_add_le [of "saturating_sub (vs_total_stake vs) x" s] by (simp add: unat_saturating_sub)
  then have "unat (vs_total_stake (update_stake vs i s)) \<le> unat (vs_total_stake vs) + unat s"
    using remove_validator_total [of vs i]
    by (simp add: update_stake_def split: option.split)
  with OpUpdateStake room update_stake_inv [OF inv] show ?thesis by simp
next
  case (OpSetGeneration g)
  with inv show ?thesis by (simp add: set_generation_def vs_inv_def)
qed

lemma vs_apply_all_inv:
  "vs_inv vs \<Longrightarrow> unat (vs_total_stake vs) + ops_stake ops < 2 ^ 64 \<Longrightarrow> vs_inv (foldl vs_apply vs ops)"
proof (induction ops arbitrary: vs)
  case (Cons op ops)
  then show ?case using vs_apply_inv [of vs op] by (simp add: ops_stake_def)
qed simp

section \<open>Properties\<close>

text \<open>
  C22: Whatever sequence of additions, removals, stake changes and generation stamps is applied
  to a set built from distinct validators, the validators stay sorted without duplicates, no
  validator has zero stake, and the recorded total is exactly the sum of the stakes, as long as
  all stake ever added fits 64 bits.
\<close>

theorem validator_set_accounting:
  assumes "distinct (map v_id_com vals)" and "nat_sum (stakes vals) + ops_stake ops < 2 ^ 64"
  shows "vs_inv (foldl vs_apply (vs_new vals) ops)"
proof (rule vs_apply_all_inv)
  show inv: "vs_inv (vs_new vals)" using vs_new_inv assms by simp
  have "unat (vs_total_stake (vs_new vals)) \<le> nat_sum (stakes vals)"
    using inv nat_sum_stakes_filter [of "\<lambda>v. v_stake v \<ge> MIN_VALIDATOR_STAKE" vals]
    by (simp add: vs_inv_def vs_new_def Let_def)
  with assms(2) show "unat (vs_total_stake (vs_new vals)) + ops_stake ops < 2 ^ 64" by simp
qed

definition sample_validator :: "account_id \<Rightarrow> u64 \<Rightarrow> validator" where
  "sample_validator p s =
     \<lparr>v_id_com = p, v_stake = s, v_index = ucast p,
      v_signing_pubkey = \<lparr>pk_alg = Ed25519, pk_bytes = replicate 32 (ucast p)\<rparr>,
      v_capabilities = default_capabilities\<rparr>"

theorem validator_set_accounting_witness:
  "vs_inv (foldl vs_apply (vs_new [sample_validator 5 10, sample_validator 2 0, sample_validator 3 7])
     [OpAdd (sample_validator 1 4), OpRemove 5, OpUpdateStake 3 9])"
  by (rule validator_set_accounting) (simp_all add: sample_validator_def ops_stake_def)

text \<open>
  The exact outcome of adding a validator: it is refused for zero stake, a known identity
  or a known index, in this order, and otherwise becomes visible under its identity while
  every other identity reads as before.
\<close>

theorem add_validator_lookup:
  assumes "vs_inv vs" and "add_validator vs v = Inr vs'"
  shows "get_by_id vs' i = (if i = v_id_com v then Some v else get_by_id vs i)"
proof -
  have "distinct (map v_id_com (v # vs_validators vs))"
    using assms vs_inv_distinct by (fastforce simp: add_validator_def split: if_splits)
  moreover have "mset (vs_validators vs') = mset (v # vs_validators vs)"
    using assms(2) by (auto simp: add_validator_def split: if_splits)
  ultimately have d: "distinct (map v_id_com (vs_validators vs'))"
    and m: "set (vs_validators vs') = insert v (set (vs_validators vs))"
    using mset_eq_imp_distinct_iff [of "map v_id_com (vs_validators vs')" "map v_id_com (v # vs_validators vs)"]
      mset_eq_setD [of "vs_validators vs'" "v # vs_validators vs"] by (simp_all add: mset_map)
  show ?thesis
  proof (cases "get_by_id vs' i")
    case None
    then have "i \<notin> v_id_com ` set (vs_validators vs')" by (simp add: get_by_id_None)
    then have "i \<noteq> v_id_com v" "get_by_id vs i = None" by (auto simp: get_by_id_None m)
    with None show ?thesis by simp
  next
    case (Some w)
    then have "w = v \<or> w \<in> set (vs_validators vs)" "v_id_com w = i" using get_by_id_Some m by blast+
    moreover have "v_id_com x = v_id_com v \<Longrightarrow> x \<in> set (vs_validators vs) \<Longrightarrow> False" for x
      using assms(2) by (auto simp: add_validator_def split: if_splits)
    ultimately show ?thesis using Some get_by_id_member [OF assms(1)] by auto
  qed
qed

theorem add_validator_lookup_witness:
  "get_by_id (projr (add_validator (vs_new [sample_validator 5 10]) (sample_validator 2 3))) 5
     = get_by_id (vs_new [sample_validator 5 10]) 5"
proof -
  have "vs_inv (vs_new [sample_validator 5 10])" by code_simp
  moreover have "add_validator (vs_new [sample_validator 5 10]) (sample_validator 2 3) =
      Inr (projr (add_validator (vs_new [sample_validator 5 10]) (sample_validator 2 3)))"
    by (simp add: add_validator_def vs_new_def sample_validator_def MIN_VALIDATOR_STAKE_def)
  ultimately show ?thesis
    using add_validator_lookup [of _ "sample_validator 2 3" _ 5] by (simp add: sample_validator_def)
qed

end
