(* ===== verification/Votes.thy ===== *)
theory Votes
  imports Validator_Set
begin

text \<open>
  Votes and their collection (\<open>ace-consensus/src/vote.rs\<close>). A collector groups the votes of
  one height by block hash, counts a validator once, and records equivocators. The invariant
  \<open>vc_inv\<close> ties the stake of every bucket to the set of validators whose first vote it holds;
  from it follow that a validator never counts twice, that at most one hash reaches a quorum,
  and that the quorum test does not depend on the iteration order of the hash map.
\<close>

section \<open>Votes\<close>

datatype vote_type = Prevote | Precommit

record vote =
  vo_slot :: u64
  vo_block_hash :: hash32
  vo_voter :: account_id
  vo_voter_stake :: u64
  vo_signature :: tagged_signature
  vo_chain_id :: u32
  vo_round :: u32
  vo_vote_type :: vote_type

definition sign_message :: "crypto \<Rightarrow> u64 \<Rightarrow> hash32 \<Rightarrow> account_id \<Rightarrow> u32 \<Rightarrow> hash32" where
  "sign_message cr slot block_hash voter chain_id =
     sha256 cr (ascii ''ACE-VOTE-V1'' @ u32_le chain_id @ u64_le slot
                @ bytes32 block_hash @ bytes32 voter)"

definition sign_message_tendermint ::
  "crypto \<Rightarrow> u64 \<Rightarrow> u32 \<Rightarrow> vote_type \<Rightarrow> hash32 \<Rightarrow> account_id \<Rightarrow> u32 \<Rightarrow> hash32" where
  "sign_message_tendermint cr slot rnd ty block_hash voter chain_id =
     sha256 cr ((case ty of Prevote \<Rightarrow> ascii ''ACE-PREVOTE-V1''
                          | Precommit \<Rightarrow> ascii ''ACE-PRECOMMIT-V1'')
                @ u32_le chain_id @ u64_le slot @ u32_le rnd
                @ bytes32 block_hash @ bytes32 voter)"

definition vote_verify_signature :: "crypto \<Rightarrow> vote \<Rightarrow> tagged_pubkey \<Rightarrow> bool" where
  "vote_verify_signature cr v pk =
     (if \<not> sig_well_formed (vo_signature v) then False
      else if sig_alg (vo_signature v) \<noteq> pk_alg pk then False
      else let msg =
          (if vo_round v = 0 \<and> vo_vote_type v = Prevote
           then sign_message cr (vo_slot v) (vo_block_hash v) (vo_voter v) (vo_chain_id v)
           else sign_message_tendermint cr (vo_slot v) (vo_round v) (vo_vote_type v)
                  (vo_block_hash v) (vo_voter v) (vo_chain_id v))
        in verify_signature cr pk (bytes32 msg) (vo_signature v))"

section \<open>The collector\<close>

record vote_bucket =
  vb_votes :: "vote list"
  vb_voted_stake :: u64

definition bucket_new :: vote_bucket where
  "bucket_new = \<lparr>vb_votes = [], vb_voted_stake = 0\<rparr>"

record vote_collector =
  vc_slot :: u64
  vc_buckets :: "(hash32, vote_bucket) hmap"
  vc_total_stake :: u64
  vc_voter_first_hash :: "(account_id, hash32) hmap"
  vc_equivocators :: "(account_id, hash32 \<times> hash32) hmap"
  vc_validator_set_generation :: u64

definition vc_new :: "u64 \<Rightarrow> u64 \<Rightarrow> vote_collector" where
  "vc_new slot total_stake =
     \<lparr>vc_slot = slot, vc_buckets = [], vc_total_stake = total_stake,
      vc_voter_first_hash = [], vc_equivocators = [], vc_validator_set_generation = 0\<rparr>"

definition add_vote_internal :: "vote_collector \<Rightarrow> vote \<Rightarrow> u64 \<Rightarrow> vote_collector \<times> bool" where
  "add_vote_internal vc vote0 canonical_stake =
     (let vote = vote0\<lparr>vo_voter_stake := canonical_stake\<rparr> in
      case map_of (vc_voter_first_hash vc) (vo_voter vote) of
        Some first_hash \<Rightarrow>
          (if first_hash \<noteq> vo_block_hash vote
           then (vc\<lparr>vc_equivocators := hm_insert (vo_voter vote)
                        (first_hash, vo_block_hash vote) (vc_equivocators vc)\<rparr>, False)
           else (vc, False))
      | None \<Rightarrow>
          (let bucket = (case map_of (vc_buckets vc) (vo_block_hash vote) of
                           Some b \<Rightarrow> b | None \<Rightarrow> bucket_new);
               bucket' = \<lparr>vb_votes = vb_votes bucket @ [vote],
                          vb_voted_stake = vb_voted_stake bucket + vo_voter_stake vote\<rparr>
           in (vc\<lparr>vc_buckets := hm_insert (vo_block_hash vote) bucket' (vc_buckets vc),
                  vc_voter_first_hash := hm_insert (vo_voter vote) (vo_block_hash vote)
                                           (vc_voter_first_hash vc)\<rparr>, True)))"

definition add_vote_verified ::
  "crypto \<Rightarrow> vote_collector \<Rightarrow> vote \<Rightarrow> validator_set \<Rightarrow> vote_collector \<times> bool" where
  "add_vote_verified cr vc vote vs =
     (if vo_slot vote \<noteq> vc_slot vc then (vc, False)
      else case get_by_id vs (vo_voter vote) of
        None \<Rightarrow> (vc, False)
      | Some validator \<Rightarrow>
          (if \<not> vote_verify_signature cr vote (v_signing_pubkey validator) then (vc, False)
           else add_vote_internal vc vote (v_stake validator)))"

definition add_vote_raw ::
  "vote_collector \<Rightarrow> account_id \<Rightarrow> hash32 \<Rightarrow> u64 \<Rightarrow> vote_collector \<times> bool" where
  "add_vote_raw vc voter block_hash stake =
     add_vote_internal vc
       \<lparr>vo_slot = vc_slot vc, vo_block_hash = block_hash, vo_voter = voter,
        vo_voter_stake = stake, vo_signature = zero_ed25519_sig, vo_chain_id = 0,
        vo_round = 0, vo_vote_type = Prevote\<rparr> stake"

definition vc_votes :: "vote_collector \<Rightarrow> vote list" where
  "vc_votes vc = concat (map (\<lambda>(h, b). vb_votes b) (vc_buckets vc))"

fun add_all_verified ::
  "crypto \<Rightarrow> vote_collector \<Rightarrow> vote list \<Rightarrow> validator_set \<Rightarrow> vote_collector" where
  "add_all_verified cr vc [] vs = vc"
| "add_all_verified cr vc (v # rest) vs =
     add_all_verified cr (fst (add_vote_verified cr vc v vs)) rest vs"

definition reconcile_validator_set ::
  "crypto \<Rightarrow> vote_collector \<Rightarrow> validator_set \<Rightarrow> vote_collector" where
  "reconcile_validator_set cr vc vs =
     (if vc_validator_set_generation vc = vs_generation vs then vc
      else add_all_verified cr
             (vc\<lparr>vc_buckets := [], vc_voter_first_hash := [], vc_equivocators := [],
                 vc_total_stake := vs_total_stake vs,
                 vc_validator_set_generation := vs_generation vs\<rparr>)
             (vc_votes vc) vs)"

definition voted_stake_for :: "vote_collector \<Rightarrow> hash32 \<Rightarrow> u64" where
  "voted_stake_for vc h =
     (case map_of (vc_buckets vc) h of None \<Rightarrow> 0 | Some b \<Rightarrow> vb_voted_stake b)"

fun first_quorum_key :: "vote_collector \<Rightarrow> hash32 list \<Rightarrow> hash32 option" where
  "first_quorum_key vc [] = None"
| "first_quorum_key vc (h # hs) =
     (if has_quorum (voted_stake_for vc h) (vc_total_stake vc) then Some h
      else first_quorum_key vc hs)"

definition quorum_block_hash :: "vote_collector \<Rightarrow> hash32 option" where
  "quorum_block_hash vc =
     (if length (vc_buckets vc) \<le> 1
      then map_option fst (find (\<lambda>(h, b). has_quorum (vb_voted_stake b) (vc_total_stake vc))
                             (vc_buckets vc))
      else first_quorum_key vc (sort (map fst (vc_buckets vc))))"

definition vc_has_quorum :: "vote_collector \<Rightarrow> bool" where
  "vc_has_quorum vc = (quorum_block_hash vc \<noteq> None)"

text \<open>\<open>max_by\<close> with the comparison "more stake, then the lower hash".\<close>

definition leads :: "hash32 \<times> u64 \<Rightarrow> hash32 \<times> u64 \<Rightarrow> bool" where
  "leads p q = (snd q < snd p \<or> snd q = snd p \<and> fst p < fst q)"

fun max_by_stake :: "hash32 \<times> u64 \<Rightarrow> (hash32 \<times> u64) list \<Rightarrow> hash32 \<times> u64" where
  "max_by_stake best [] = best"
| "max_by_stake best (p # ps) = max_by_stake (if leads best p then best else p) ps"

definition leading_block_hash :: "vote_collector \<Rightarrow> hash32 option" where
  "leading_block_hash vc =
     (case map (\<lambda>(h, b). (h, vb_voted_stake b)) (vc_buckets vc) of
        [] \<Rightarrow> None
      | p # ps \<Rightarrow> Some (fst (max_by_stake p ps)))"

definition voted_stake :: "vote_collector \<Rightarrow> u64" where
  "voted_stake vc = word_sum (map (\<lambda>(h, b). vb_voted_stake b) (vc_buckets vc))"

definition voter_block_hash :: "vote_collector \<Rightarrow> account_id \<Rightarrow> hash32 option" where
  "voter_block_hash vc voter = map_of (vc_voter_first_hash vc) voter"

definition vote_count :: "vote_collector \<Rightarrow> nat" where
  "vote_count vc = sum_list (map (\<lambda>(h, b). length (vb_votes b)) (vc_buckets vc))"

section \<open>Invariant\<close>

text \<open>
  \<open>bucket_ok h vc b\<close>: bucket \<open>b\<close> of hash \<open>h\<close> holds exactly one vote, for \<open>h\<close> and for the
  collector's slot, of each validator whose first vote was for \<open>h\<close>, and its stake is the
  (wrapping) sum of the stakes of those votes.
\<close>

definition bucket_ok :: "(account_id \<Rightarrow> u64) \<Rightarrow> vote_collector \<Rightarrow> hash32 \<Rightarrow> vote_bucket \<Rightarrow> bool" where
  "bucket_ok st vc h b \<longleftrightarrow>
     distinct (map vo_voter (vb_votes b)) \<and>
     (\<forall>v \<in> set (vb_votes b).
        vo_block_hash v = h \<and> vo_slot v = vc_slot vc \<and> vo_voter_stake v = st (vo_voter v)) \<and>
     vo_voter ` set (vb_votes b) = {p. map_of (vc_voter_first_hash vc) p = Some h} \<and>
     vb_voted_stake b = word_sum (map vo_voter_stake (vb_votes b))"

definition vc_inv :: "(account_id \<Rightarrow> u64) \<Rightarrow> vote_collector \<Rightarrow> bool" where
  "vc_inv st vc \<longleftrightarrow>
     hm_wf (vc_buckets vc) \<and> hm_wf (vc_voter_first_hash vc) \<and> hm_wf (vc_equivocators vc) \<and>
     (\<forall>h b. map_of (vc_buckets vc) h = Some b \<longrightarrow> bucket_ok st vc h b) \<and>
     (\<forall>p h. map_of (vc_voter_first_hash vc) p = Some h \<longrightarrow> map_of (vc_buckets vc) h \<noteq> None) \<and>
     (\<forall>p h h'. map_of (vc_equivocators vc) p = Some (h, h') \<longrightarrow>
        h \<noteq> h' \<and> map_of (vc_voter_first_hash vc) p = Some h)"

lemma vc_inv_bucketD:
  "vc_inv st vc \<Longrightarrow> map_of (vc_buckets vc) h = Some b \<Longrightarrow> bucket_ok st vc h b"
  by (simp add: vc_inv_def)

lemma vc_inv_firstD:
  "vc_inv st vc \<Longrightarrow> map_of (vc_voter_first_hash vc) p = Some h \<Longrightarrow>
   map_of (vc_buckets vc) h \<noteq> None"
  unfolding vc_inv_def by blast

lemma vc_inv_equivocatorD:
  "vc_inv st vc \<Longrightarrow> map_of (vc_equivocators vc) p = Some (h, h') \<Longrightarrow>
   h \<noteq> h' \<and> map_of (vc_voter_first_hash vc) p = Some h"
  unfolding vc_inv_def by blast

lemma vc_inv_wfD:
  "vc_inv st vc \<Longrightarrow> hm_wf (vc_buckets vc) \<and> hm_wf (vc_voter_first_hash vc) \<and> hm_wf (vc_equivocators vc)"
  by (simp add: vc_inv_def)

lemma vc_invI:
  assumes "hm_wf (vc_buckets vc)" "hm_wf (vc_voter_first_hash vc)" "hm_wf (vc_equivocators vc)"
    and "\<And>h b. map_of (vc_buckets vc) h = Some b \<Longrightarrow> bucket_ok st vc h b"
    and "\<And>p h. map_of (vc_voter_first_hash vc) p = Some h \<Longrightarrow> map_of (vc_buckets vc) h \<noteq> None"
    and "\<And>p h h'. map_of (vc_equivocators vc) p = Some (h, h') \<Longrightarrow>
      h \<noteq> h' \<and> map_of (vc_voter_first_hash vc) p = Some h"
  shows "vc_inv st vc"
  using assms unfolding vc_inv_def by blast

definition voters_for :: "vote_collector \<Rightarrow> hash32 \<Rightarrow> account_id set" where
  "voters_for vc h = {p. map_of (vc_voter_first_hash vc) p = Some h}"

lemma vc_new_inv [simp]: "vc_inv st (vc_new slot tot)"
  by (simp add: vc_inv_def vc_new_def)

lemma voters_for_new [simp]: "voters_for (vc_new slot tot) h = {}"
  by (simp add: voters_for_def vc_new_def)

lemma vc_new_fields [simp]:
  "vc_slot (vc_new slot tot) = slot" "vc_total_stake (vc_new slot tot) = tot"
  "vc_buckets (vc_new slot tot) = []" "vc_voter_first_hash (vc_new slot tot) = []"
  by (simp_all add: vc_new_def)

lemma add_vote_internal_frame [simp]:
  "vc_slot (fst (add_vote_internal vc v s)) = vc_slot vc"
  "vc_total_stake (fst (add_vote_internal vc v s)) = vc_total_stake vc"
  by (auto simp: add_vote_internal_def Let_def split: option.splits)

lemma add_vote_raw_frame [simp]:
  "vc_slot (fst (add_vote_raw vc p h s)) = vc_slot vc"
  "vc_total_stake (fst (add_vote_raw vc p h s)) = vc_total_stake vc"
  by (simp_all add: add_vote_raw_def)

text \<open>What a vote does to the record of first votes.\<close>

lemma first_hash_add_vote_internal:
  "map_of (vc_voter_first_hash (fst (add_vote_internal vc v s))) =
   (if map_of (vc_voter_first_hash vc) (vo_voter v) = None
    then (map_of (vc_voter_first_hash vc))(vo_voter v \<mapsto> vo_block_hash v)
    else map_of (vc_voter_first_hash vc))"
  by (auto simp: add_vote_internal_def Let_def split: option.splits)

lemma voters_for_add_vote_raw:
  "voters_for (fst (add_vote_raw vc p h s)) h' =
   (if map_of (vc_voter_first_hash vc) p = None \<and> h' = h then insert p (voters_for vc h')
    else voters_for vc h')"
  by (auto simp: voters_for_def add_vote_raw_def first_hash_add_vote_internal)

lemma bucket_ok_frame:
  assumes "bucket_ok st vc h b"
    and "vc_slot vc' = vc_slot vc"
    and "{p. map_of (vc_voter_first_hash vc') p = Some h} =
         {p. map_of (vc_voter_first_hash vc) p = Some h}"
  shows "bucket_ok st vc' h b"
  using assms by (simp add: bucket_ok_def)

lemma bucket_ok_new:
  assumes "\<forall>p. map_of (vc_voter_first_hash vc) p \<noteq> Some h"
  shows "bucket_ok st vc h bucket_new"
  using assms by (simp add: bucket_ok_def bucket_new_def word_sum_def)

lemma word_sum_snoc: "word_sum (xs @ [x]) = word_sum xs + x"
  by (simp add: word_sum_def)

lemma bucket_ok_extend:
  assumes ok: "bucket_ok st vc h b"
    and fresh: "map_of (vc_voter_first_hash vc) (vo_voter v) = None"
    and v: "vo_block_hash v = h" "vo_slot v = vc_slot vc" "vo_voter_stake v = st (vo_voter v)"
    and vc': "vc_slot vc' = vc_slot vc"
      "map_of (vc_voter_first_hash vc') = (map_of (vc_voter_first_hash vc))(vo_voter v \<mapsto> h)"
  shows "bucket_ok st vc' h
    \<lparr>vb_votes = vb_votes b @ [v], vb_voted_stake = vb_voted_stake b + vo_voter_stake v\<rparr>"
proof -
  have "vo_voter v \<notin> vo_voter ` set (vb_votes b)"
    using ok fresh by (simp add: bucket_ok_def)
  then show ?thesis
    using ok v vc' by (auto simp: bucket_ok_def word_sum_snoc)
qed

lemma add_vote_internal_inv:
  assumes inv: "vc_inv st vc" and slot: "vo_slot v = vc_slot vc" and s: "s = st (vo_voter v)"
  shows "vc_inv st (fst (add_vote_internal vc v s))"
proof (cases "map_of (vc_voter_first_hash vc) (vo_voter v)")
  case (Some fh)
  show ?thesis
  proof (cases "fh = vo_block_hash v")
    case True
    with Some inv show ?thesis by (simp add: add_vote_internal_def Let_def)
  next
    case False
    let ?vc = "vc\<lparr>vc_equivocators := hm_insert (vo_voter v) (fh, vo_block_hash v) (vc_equivocators vc)\<rparr>"
    have "vc_inv st ?vc"
    proof (rule vc_invI)
      fix h b assume "map_of (vc_buckets ?vc) h = Some b"
      then show "bucket_ok st ?vc h b"
        using vc_inv_bucketD [OF inv] by (simp add: bucket_ok_def)
    next
      fix p h h' assume "map_of (vc_equivocators ?vc) p = Some (h, h')"
      then show "h \<noteq> h' \<and> map_of (vc_voter_first_hash ?vc) p = Some h"
        using Some False vc_inv_equivocatorD [OF inv] by (simp split: if_splits)
    qed (use vc_inv_wfD [OF inv] vc_inv_firstD [OF inv] in auto)
    then show ?thesis
      using Some False by (simp add: add_vote_internal_def Let_def)
  qed
next
  case None
  let ?h = "vo_block_hash v"
  let ?v = "v\<lparr>vo_voter_stake := s\<rparr>"
  define b where "b = (case map_of (vc_buckets vc) ?h of Some b \<Rightarrow> b | None \<Rightarrow> bucket_new)"
  let ?b = "\<lparr>vb_votes = vb_votes b @ [?v], vb_voted_stake = vb_voted_stake b + vo_voter_stake ?v\<rparr>"
  let ?vc = "vc\<lparr>vc_buckets := hm_insert ?h ?b (vc_buckets vc),
                vc_voter_first_hash := hm_insert (vo_voter v) ?h (vc_voter_first_hash vc)\<rparr>"
  have "bucket_ok st vc ?h b"
  proof (cases "map_of (vc_buckets vc) ?h")
    case None
    then have "\<forall>p. map_of (vc_voter_first_hash vc) p \<noteq> Some ?h"
      using vc_inv_firstD [OF inv] by blast
    then show ?thesis
      using None by (simp add: b_def bucket_ok_new)
  next
    case (Some c)
    then show ?thesis
      using vc_inv_bucketD [OF inv] by (simp add: b_def)
  qed
  then have new: "bucket_ok st ?vc ?h ?b"
    by (rule bucket_ok_extend) (simp_all add: None slot s)
  have "vc_inv st ?vc"
  proof (rule vc_invI)
    fix h c assume c: "map_of (vc_buckets ?vc) h = Some c"
    show "bucket_ok st ?vc h c"
    proof (cases "h = ?h")
      case True
      with c new show ?thesis by simp
    next
      case False
      with c have "bucket_ok st vc h c"
        using vc_inv_bucketD [OF inv] by simp
      then show ?thesis
        by (rule bucket_ok_frame) (use False None in auto)
    qed
  next
    fix p h assume "map_of (vc_voter_first_hash ?vc) p = Some h"
    then show "map_of (vc_buckets ?vc) h \<noteq> None"
      using vc_inv_firstD [OF inv, of p h] by (auto split: if_splits)
  next
    fix p h h' assume "map_of (vc_equivocators ?vc) p = Some (h, h')"
    then show "h \<noteq> h' \<and> map_of (vc_voter_first_hash ?vc) p = Some h"
      using vc_inv_equivocatorD [OF inv, of p h h'] None by auto
  qed (use vc_inv_wfD [OF inv] in simp_all)
  then show ?thesis
    using None by (simp add: add_vote_internal_def Let_def b_def split: option.split)
qed

lemma add_vote_raw_inv:
  "vc_inv st vc \<Longrightarrow> vc_inv st (fst (add_vote_raw vc p h (st p)))"
  by (simp add: add_vote_raw_def add_vote_internal_inv)

section \<open>Stake of a bucket\<close>

lemma finite_voters_for: "finite (voters_for vc h)"
proof -
  have "voters_for vc h \<subseteq> fst ` set (vc_voter_first_hash vc)"
    by (auto simp: voters_for_def dest: map_of_SomeD intro: rev_image_eqI)
  then show ?thesis by (rule finite_subset) simp
qed

lemma nat_sum_map_distinct:
  "distinct (map f xs) \<Longrightarrow> (\<And>x. x \<in> set xs \<Longrightarrow> g x = st (f x)) \<Longrightarrow>
   nat_sum (map g xs) = (\<Sum>p \<in> f ` set xs. unat (st p))"
  by (induction xs) auto

text \<open>
  With a total that fits 64 bits, a bucket's stake is exactly the stake of the distinct
  validators whose first vote it holds.
\<close>

lemma voted_stake_for_sum:
  assumes inv: "vc_inv st vc"
    and room: "(\<Sum>p \<in> voters_for vc h. unat (st p)) < 2 ^ 64"
  shows "unat (voted_stake_for vc h) = (\<Sum>p \<in> voters_for vc h. unat (st p))"
proof (cases "map_of (vc_buckets vc) h")
  case None
  then have "voters_for vc h = {}"
    using vc_inv_firstD [OF inv] unfolding voters_for_def by blast
  with None show ?thesis by (simp add: voted_stake_for_def)
next
  case (Some b)
  then have ok: "bucket_ok st vc h b"
    by (rule vc_inv_bucketD [OF inv])
  have "nat_sum (map vo_voter_stake (vb_votes b)) = (\<Sum>p \<in> voters_for vc h. unat (st p))"
    using ok nat_sum_map_distinct [of vo_voter "vb_votes b" vo_voter_stake st]
    by (simp add: bucket_ok_def voters_for_def)
  moreover from this have "unat (vb_voted_stake b) = nat_sum (map vo_voter_stake (vb_votes b))"
    using ok room by (simp add: bucket_ok_def unat_word_sum)
  ultimately show ?thesis using Some by (simp add: voted_stake_for_def)
qed

section \<open>Quorum detection\<close>

lemma first_quorum_key_Some:
  "first_quorum_key vc hs = Some h \<Longrightarrow>
   h \<in> set hs \<and> has_quorum (voted_stake_for vc h) (vc_total_stake vc)"
  by (induction hs) (auto split: if_splits)

lemma first_quorum_key_None:
  "first_quorum_key vc hs = None \<longleftrightarrow>
   (\<forall>h \<in> set hs. \<not> has_quorum (voted_stake_for vc h) (vc_total_stake vc))"
  by (induction hs) auto

lemma first_quorum_key_least:
  "sorted hs \<Longrightarrow> first_quorum_key vc hs = Some h \<Longrightarrow> h' \<in> set hs \<Longrightarrow>
   has_quorum (voted_stake_for vc h') (vc_total_stake vc) \<Longrightarrow> h \<le> h'"
  by (induction hs) (auto split: if_splits)

lemma has_quorum_0 [simp]: "\<not> has_quorum 0 t"
  by (auto simp: has_quorum_iff)

lemma quorum_key_member:
  "has_quorum (voted_stake_for vc h) (vc_total_stake vc) \<Longrightarrow> h \<in> fst ` set (vc_buckets vc)"
  by (auto simp: voted_stake_for_def map_of_eq_None_iff split: option.splits
      dest: map_of_SomeD intro: rev_image_eqI)

lemma quorum_block_hash_single:
  "length (vc_buckets vc) \<le> 1 \<Longrightarrow>
   quorum_block_hash vc = first_quorum_key vc (sort (map fst (vc_buckets vc)))"
  by (cases "vc_buckets vc") (auto simp: quorum_block_hash_def voted_stake_for_def)

lemma quorum_block_hash_sorted:
  "quorum_block_hash vc = first_quorum_key vc (sort (map fst (vc_buckets vc)))"
proof (cases "length (vc_buckets vc) \<le> 1")
  case True
  then show ?thesis by (rule quorum_block_hash_single)
next
  case False
  then show ?thesis by (simp add: quorum_block_hash_def)
qed

lemma quorum_keys_sorted:
  "h \<in> set (sort (map fst (vc_buckets vc))) \<longleftrightarrow> h \<in> fst ` set (vc_buckets vc)"
  by simp

lemma quorum_block_hashD:
  "quorum_block_hash vc = Some h \<Longrightarrow> has_quorum (voted_stake_for vc h) (vc_total_stake vc)"
  unfolding quorum_block_hash_sorted using first_quorum_key_Some by blast

lemma quorum_block_hash_least:
  assumes "quorum_block_hash vc = Some h"
    and q: "has_quorum (voted_stake_for vc h') (vc_total_stake vc)"
  shows "h \<le> h'"
proof (rule first_quorum_key_least)
  show "first_quorum_key vc (sort (map fst (vc_buckets vc))) = Some h"
    using assms(1) by (simp only: quorum_block_hash_sorted)
  show "h' \<in> set (sort (map fst (vc_buckets vc)))"
    using quorum_key_member [OF q] by (simp only: quorum_keys_sorted)
qed (use q in simp_all)

lemma quorum_block_hash_None_iff:
  "quorum_block_hash vc = None \<longleftrightarrow>
     (\<forall>h. \<not> has_quorum (voted_stake_for vc h) (vc_total_stake vc))"
proof
  assume "quorum_block_hash vc = None"
  then have "\<forall>h \<in> fst ` set (vc_buckets vc). \<not> has_quorum (voted_stake_for vc h) (vc_total_stake vc)"
    unfolding quorum_block_hash_sorted first_quorum_key_None by simp
  then show "\<forall>h. \<not> has_quorum (voted_stake_for vc h) (vc_total_stake vc)"
    using quorum_key_member by blast
next
  assume "\<forall>h. \<not> has_quorum (voted_stake_for vc h) (vc_total_stake vc)"
  then show "quorum_block_hash vc = None"
    unfolding quorum_block_hash_sorted first_quorum_key_None by blast
qed

lemma quorum_block_hash_Some_iff:
  "quorum_block_hash vc = Some h \<longleftrightarrow>
     has_quorum (voted_stake_for vc h) (vc_total_stake vc) \<and>
     (\<forall>h'. has_quorum (voted_stake_for vc h') (vc_total_stake vc) \<longrightarrow> h \<le> h')"
proof
  assume "quorum_block_hash vc = Some h"
  then show "has_quorum (voted_stake_for vc h) (vc_total_stake vc) \<and>
      (\<forall>h'. has_quorum (voted_stake_for vc h') (vc_total_stake vc) \<longrightarrow> h \<le> h')"
    using quorum_block_hashD quorum_block_hash_least by blast
next
  assume h: "has_quorum (voted_stake_for vc h) (vc_total_stake vc) \<and>
      (\<forall>h'. has_quorum (voted_stake_for vc h') (vc_total_stake vc) \<longrightarrow> h \<le> h')"
  then obtain h' where h': "quorum_block_hash vc = Some h'"
    using quorum_block_hash_None_iff by blast
  have "h' = h"
    using h quorum_block_hashD [OF h'] quorum_block_hash_least [OF h'] by (blast intro: order.antisym)
  with h' show "quorum_block_hash vc = Some h" by simp
qed

text \<open>
  The result is a function of the bucket contents alone: two collectors that hold the same
  buckets in any order of the underlying hash map agree.
\<close>

lemma voted_stake_for_cong:
  "map_of (vc_buckets vc) = map_of (vc_buckets vc') \<Longrightarrow> voted_stake_for vc h = voted_stake_for vc' h"
  by (simp add: voted_stake_for_def)

lemma quorum_block_hash_order_independent:
  assumes "map_of (vc_buckets vc) = map_of (vc_buckets vc')"
    and "vc_total_stake vc = vc_total_stake vc'"
  shows "quorum_block_hash vc = quorum_block_hash vc'"
proof -
  have q: "has_quorum (voted_stake_for vc h) (vc_total_stake vc) \<longleftrightarrow>
      has_quorum (voted_stake_for vc' h) (vc_total_stake vc')" for h
    using assms(2) voted_stake_for_cong [OF assms(1)] by simp
  show ?thesis
  proof (cases "quorum_block_hash vc'")
    case None
    then have "quorum_block_hash vc = None"
      unfolding quorum_block_hash_None_iff q .
    with None show ?thesis by simp
  next
    case (Some h)
    then have "quorum_block_hash vc = Some h"
      unfolding quorum_block_hash_Some_iff q .
    with Some show ?thesis by simp
  qed
qed

section \<open>At most one quorum\<close>

lemma voters_for_disjoint: "h \<noteq> h' \<Longrightarrow> voters_for vc h \<inter> voters_for vc h' = {}"
  by (auto simp: voters_for_def)

lemma unique_quorum:
  assumes inv: "vc_inv st vc" and fin: "finite V"
    and sub: "\<And>h. voters_for vc h \<subseteq> V"
    and tot: "(\<Sum>p \<in> V. unat (st p)) = unat (vc_total_stake vc)"
    and q: "has_quorum (voted_stake_for vc h) (vc_total_stake vc)"
    and q': "has_quorum (voted_stake_for vc h') (vc_total_stake vc)"
  shows "h = h'"
proof (rule ccontr)
  assume "h \<noteq> h'"
  let ?s = "\<lambda>A. \<Sum>p \<in> A. unat (st p)"
  have le: "?s A \<le> unat (vc_total_stake vc)" if "A \<subseteq> V" for A
    unfolding tot [symmetric] using fin that by (intro sum_mono2) auto
  have lt: "unat (vc_total_stake vc) < 2 ^ 64"
    using unat_lt [of "vc_total_stake vc"] by simp
  have s: "unat (voted_stake_for vc k) = ?s (voters_for vc k)" for k
    by (rule voted_stake_for_sum [OF inv]) (use le [OF sub] lt in \<open>rule le_less_trans\<close>)
  have "?s (voters_for vc h) + ?s (voters_for vc h') = ?s (voters_for vc h \<union> voters_for vc h')"
    using voters_for_disjoint [OF \<open>h \<noteq> h'\<close>] by (simp add: sum.union_disjoint finite_voters_for)
  also have "\<dots> \<le> unat (vc_total_stake vc)"
    by (rule le) (use sub in blast)
  finally show False
    using q q' by (simp add: has_quorum_iff s)
qed

section \<open>Votes verified against a validator set\<close>

definition stake_of :: "validator_set \<Rightarrow> account_id \<Rightarrow> u64" where
  "stake_of vs p = (case get_by_id vs p of None \<Rightarrow> 0 | Some v \<Rightarrow> v_stake v)"

definition vs_ids :: "validator_set \<Rightarrow> account_id set" where
  "vs_ids vs = v_id_com ` set (vs_validators vs)"

lemma finite_vs_ids [simp]: "finite (vs_ids vs)"
  by (simp add: vs_ids_def)

lemma total_stake_sum:
  assumes "vs_inv vs"
  shows "(\<Sum>p \<in> vs_ids vs. unat (stake_of vs p)) = unat (vs_total_stake vs)"
proof -
  have "v_stake v = stake_of vs (v_id_com v)" if "v \<in> set (vs_validators vs)" for v
    using get_by_id_member [OF assms that] by (simp add: stake_of_def)
  then have "nat_sum (map v_stake (vs_validators vs)) = (\<Sum>p \<in> vs_ids vs. unat (stake_of vs p))"
    unfolding vs_ids_def using vs_inv_distinct [OF assms] by (intro nat_sum_map_distinct) auto
  with assms show ?thesis by (simp add: vs_inv_def stakes_def)
qed

text \<open>What a collector fed through \<open>add_vote_verified\<close> counts.\<close>

definition vote_accepted :: "crypto \<Rightarrow> validator_set \<Rightarrow> vote \<Rightarrow> bool" where
  "vote_accepted cr vs v =
     (case get_by_id vs (vo_voter v) of
        None \<Rightarrow> False
      | Some val \<Rightarrow> vote_verify_signature cr v (v_signing_pubkey val))"

definition vc_counts :: "crypto \<Rightarrow> validator_set \<Rightarrow> vote_collector \<Rightarrow> bool" where
  "vc_counts cr vs vc \<longleftrightarrow>
     vc_inv (stake_of vs) vc \<and> (\<forall>h. voters_for vc h \<subseteq> vs_ids vs) \<and>
     (\<forall>v \<in> set (vc_votes vc). vote_accepted cr vs v)"

lemma vote_verify_signature_stake [simp]:
  "vote_verify_signature cr (v\<lparr>vo_voter_stake := s\<rparr>) pk = vote_verify_signature cr v pk"
  by (simp add: vote_verify_signature_def)

lemma vote_accepted_stake [simp]:
  "vote_accepted cr vs (v\<lparr>vo_voter_stake := s\<rparr>) = vote_accepted cr vs v"
  by (simp add: vote_accepted_def split: option.split)

lemma set_vc_votes:
  "hm_wf (vc_buckets vc) \<Longrightarrow>
   set (vc_votes vc) = {v. \<exists>h b. map_of (vc_buckets vc) h = Some b \<and> v \<in> set (vb_votes b)}"
  by (fastforce simp: vc_votes_def hm_wf_def dest: map_of_SomeD)

lemma vc_votes_add_internal:
  assumes "hm_wf (vc_buckets vc)"
  shows "set (vc_votes (fst (add_vote_internal vc v s))) \<subseteq>
    insert (v\<lparr>vo_voter_stake := s\<rparr>) (set (vc_votes vc))"
proof (cases "map_of (vc_voter_first_hash vc) (vo_voter v)")
  case (Some h)
  then have "vc_buckets (fst (add_vote_internal vc v s)) = vc_buckets vc"
    by (simp add: add_vote_internal_def Let_def)
  then show ?thesis by (auto simp: vc_votes_def)
next
  case None
  let ?b = "case map_of (vc_buckets vc) (vo_block_hash v) of Some b \<Rightarrow> b | None \<Rightarrow> bucket_new"
  let ?m = "hm_insert (vo_block_hash v)
      \<lparr>vb_votes = vb_votes ?b @ [v\<lparr>vo_voter_stake := s\<rparr>], vb_voted_stake = vb_voted_stake ?b + s\<rparr>
      (vc_buckets vc)"
  have m: "vc_buckets (fst (add_vote_internal vc v s)) = ?m"
    using None by (simp add: add_vote_internal_def Let_def)
  have "set (vb_votes ?b) \<subseteq> set (vc_votes vc)"
    using set_vc_votes [OF assms] by (auto simp: bucket_new_def split: option.split)
  then show ?thesis
    using assms by (auto simp: set_vc_votes m split: if_splits)
qed

lemma add_vote_verified_counts:
  assumes "vc_counts cr vs vc"
  shows "vc_counts cr vs (fst (add_vote_verified cr vc v vs))"
proof (cases "vo_slot v = vc_slot vc \<and> vote_accepted cr vs v")
  case False
  then have "fst (add_vote_verified cr vc v vs) = vc"
    by (auto simp: add_vote_verified_def vote_accepted_def split: option.splits)
  with assms show ?thesis by simp
next
  case True
  then obtain val where val: "get_by_id vs (vo_voter v) = Some val"
    and sig: "vote_verify_signature cr v (v_signing_pubkey val)"
    by (auto simp: vote_accepted_def split: option.splits)
  let ?vc = "fst (add_vote_internal vc v (v_stake val))"
  have step: "fst (add_vote_verified cr vc v vs) = ?vc"
    using True val sig by (simp add: add_vote_verified_def)
  have "v_stake val = stake_of vs (vo_voter v)"
    using val by (simp add: stake_of_def)
  then have "vc_inv (stake_of vs) ?vc"
    using assms True by (intro add_vote_internal_inv) (auto simp: vc_counts_def)
  moreover have "vo_voter v \<in> vs_ids vs"
    using val get_by_id_None [of vs "vo_voter v"] by (simp add: vs_ids_def)
  then have "voters_for ?vc h \<subseteq> vs_ids vs" for h
    using assms by (auto simp: vc_counts_def voters_for_def first_hash_add_vote_internal split: if_splits)
  moreover have "hm_wf (vc_buckets vc)"
    using assms vc_inv_wfD by (auto simp: vc_counts_def)
  then have "\<forall>w \<in> set (vc_votes ?vc). vote_accepted cr vs w"
    using vc_votes_add_internal [of vc v "v_stake val"] assms True by (auto simp: vc_counts_def)
  ultimately show ?thesis by (simp add: step vc_counts_def)
qed

lemma add_all_verified_counts:
  "vc_counts cr vs vc \<Longrightarrow> vc_counts cr vs (add_all_verified cr vc votes vs)"
  by (induction votes arbitrary: vc) (simp_all add: add_vote_verified_counts)

lemma add_vote_verified_frame [simp]:
  "vc_total_stake (fst (add_vote_verified cr vc v vs)) = vc_total_stake vc"
  "vc_slot (fst (add_vote_verified cr vc v vs)) = vc_slot vc"
  by (auto simp: add_vote_verified_def split: option.splits)

lemma add_all_verified_frame [simp]:
  "vc_total_stake (add_all_verified cr vc votes vs) = vc_total_stake vc"
  "vc_slot (add_all_verified cr vc votes vs) = vc_slot vc"
  by (induction votes arbitrary: vc) simp_all

lemma vc_counts_empty:
  assumes "vc_buckets vc = []" "vc_voter_first_hash vc = []" "vc_equivocators vc = []"
  shows "vc_counts cr vs vc"
  using assms by (simp add: vc_counts_def vc_inv_def voters_for_def vc_votes_def)

lemma reconcile_counts:
  assumes "vc_validator_set_generation vc \<noteq> vs_generation vs"
  shows "vc_counts cr vs (reconcile_validator_set cr vc vs)"
    and "vc_total_stake (reconcile_validator_set cr vc vs) = vs_total_stake vs"
  using assms
  by (auto simp: reconcile_validator_set_def intro!: add_all_verified_counts vc_counts_empty)

lemma vc_counts_unique_quorum:
  assumes "vs_inv vs" and "vc_counts cr vs vc" and "vc_total_stake vc = vs_total_stake vs"
    and "has_quorum (voted_stake_for vc h) (vc_total_stake vc)"
    and "has_quorum (voted_stake_for vc h') (vc_total_stake vc)"
  shows "h = h'"
proof (rule unique_quorum)
  show "(\<Sum>p \<in> vs_ids vs. unat (stake_of vs p)) = unat (vc_total_stake vc)"
    using total_stake_sum assms(1,3) by simp
qed (use assms in \<open>auto simp: vc_counts_def\<close>)

section \<open>Properties\<close>

text \<open>
  C20: After a collector has been rebuilt for a validator set, and after any further votes that
  pass \<open>add_vote_verified\<close>, a hash has a quorum exactly when it is the one that
  \<open>quorum_block_hash\<close> returns. Two different hashes never both have one, because a validator
  is counted for its first vote only.
\<close>

theorem one_quorum_after_reconcile:
  assumes "vs_inv vs" and "vc_validator_set_generation vc \<noteq> vs_generation vs"
    and vc': "vc' = add_all_verified cr (reconcile_validator_set cr vc vs) votes vs"
  shows "quorum_block_hash vc' = Some h \<longleftrightarrow> has_quorum (voted_stake_for vc' h) (vs_total_stake vs)"
proof -
  have counts: "vc_counts cr vs vc'" and tot: "vc_total_stake vc' = vs_total_stake vs"
    using reconcile_counts [OF assms(2)] by (auto simp: vc' intro: add_all_verified_counts)
  show ?thesis
    unfolding quorum_block_hash_Some_iff tot
    using vc_counts_unique_quorum [OF assms(1) counts tot] tot by fastforce
qed

definition sample_crypto :: crypto where
  "sample_crypto =
     \<lparr>sha256 = (\<lambda>m. 0), ed25519_key = (\<lambda>k. True), ed25519_verify_strict = (\<lambda>k m s. True),
      k256_key = (\<lambda>k. True), k256_sig = (\<lambda>s. True), k256_verify = (\<lambda>k m s. True),
      ml_dsa_key = (\<lambda>k. True), ml_dsa_verify = (\<lambda>k m s. True),
      hmac_key = (\<lambda>k. True), hmac_verify_slice = (\<lambda>k m s. True)\<rparr>"

definition sample_vote :: "account_id \<Rightarrow> hash32 \<Rightarrow> vote" where
  "sample_vote p h =
     \<lparr>vo_slot = 9, vo_block_hash = h, vo_voter = p, vo_voter_stake = 1000,
      vo_signature = zero_ed25519_sig, vo_chain_id = 1, vo_round = 0, vo_vote_type = Prevote\<rparr>"

definition sample_vset :: validator_set where
  "sample_vset = set_generation (vs_new (map (\<lambda>p. sample_validator p 10) [1, 2, 3])) 4"

text \<open>Voter 2 equivocates; its second vote and the stakes the votes claim are not counted.\<close>

definition sample_collector :: vote_collector where
  "sample_collector =
     add_all_verified sample_crypto (reconcile_validator_set sample_crypto (vc_new 9 30) sample_vset)
       [sample_vote 1 7, sample_vote 2 7, sample_vote 2 8, sample_vote 3 8] sample_vset"

theorem one_quorum_after_reconcile_witness: "quorum_block_hash sample_collector = Some 7"
proof -
  have "vs_inv sample_vset" by code_simp
  moreover have "vc_validator_set_generation (vc_new 9 30) \<noteq> vs_generation sample_vset" by code_simp
  moreover have "has_quorum (voted_stake_for sample_collector 7) (vs_total_stake sample_vset)" by code_simp
  ultimately show ?thesis
    using one_quorum_after_reconcile [OF _ _ sample_collector_def] by blast
qed

text \<open>
  C7: The stake counted for a hash is exactly the stake, in the current validator set, of the
  distinct validators whose first accepted vote is for this hash; the stake a vote claims and
  repeated votes have no influence, and the sum does not wrap.
\<close>

theorem counted_stake_exact:
  assumes "vs_inv vs" and "vc_validator_set_generation vc \<noteq> vs_generation vs"
    and vc': "vc' = add_all_verified cr (reconcile_validator_set cr vc vs) votes vs"
  shows "unat (voted_stake_for vc' h) =
    (\<Sum>p \<in> {p. voter_block_hash vc' p = Some h}. unat (stake_of vs p))"
proof -
  have counts: "vc_counts cr vs vc'"
    using reconcile_counts [OF assms(2)] by (auto simp: vc' intro: add_all_verified_counts)
  have "(\<Sum>p \<in> voters_for vc' h. unat (stake_of vs p)) \<le> (\<Sum>p \<in> vs_ids vs. unat (stake_of vs p))"
    using counts by (intro sum_mono2) (auto simp: vc_counts_def)
  then have "(\<Sum>p \<in> voters_for vc' h. unat (stake_of vs p)) < 2 ^ 64"
    using total_stake_sum [OF assms(1)] le_less_trans [OF _ unat_lt [of "vs_total_stake vs"]] by simp
  moreover have "voters_for vc' h = {p. voter_block_hash vc' p = Some h}"
    by (simp add: voters_for_def voter_block_hash_def)
  ultimately show ?thesis
    using voted_stake_for_sum [of "stake_of vs" vc' h] counts by (simp add: vc_counts_def)
qed

theorem counted_stake_exact_witness:
  "unat (voted_stake_for sample_collector 7) =
    (\<Sum>p \<in> {p. voter_block_hash sample_collector p = Some 7}. unat (stake_of sample_vset p))"
proof -
  have "vs_inv sample_vset" by code_simp
  moreover have "vc_validator_set_generation (vc_new 9 30) \<noteq> vs_generation sample_vset" by code_simp
  ultimately show ?thesis
    using counted_stake_exact [OF _ _ sample_collector_def] by blast
qed



end
