(* ===== verification/Tendermint.thy ===== *)
theory Tendermint
  imports Votes
begin

text \<open>
  The Tendermint round machine (\<open>ace-consensus/src/tendermint.rs\<close>): one record for
  \<open>TendermintState\<close>, one function per method. A method that takes \<open>&mut self\<close> and returns an
  action is a function from the state to the new state paired with the action; every early
  return of the source is a branch. Rounds are 32-bit words, heights and stakes 64-bit words.
\<close>

section \<open>State\<close>

datatype round_step = StepPropose | StepPrevote | StepPrecommit | StepCommitWait | StepCommitted

definition NIL_BLOCK_HASH :: hash32 where
  "NIL_BLOCK_HASH = 0"

datatype tm_action =
    NoAction
  | ScheduleProposal u64 u32
  | BroadcastPrevote u64 u32 hash32
  | BroadcastPrecommit u64 u32 hash32
  | Commit u64 u32 hash32

type_synonym buffered_vote = "account_id \<times> hash32 \<times> u64 \<times> bool"

record tendermint_state =
  tm_height :: u64
  tm_round :: u32
  tm_step :: round_step
  tm_proposal_hash :: "hash32 option"
  tm_proposal_received :: bool
  tm_locked_round :: "u32 option"
  tm_locked_hash :: "hash32 option"
  tm_valid_round :: "u32 option"
  tm_valid_hash :: "hash32 option"
  tm_prevotes :: vote_collector
  tm_precommits :: vote_collector
  tm_total_stake :: u64
  tm_prevoted :: bool
  tm_precommitted :: bool
  tm_committed_hash :: "hash32 option"
  tm_future_votes :: "(u32, buffered_vote list) hmap"
  tm_past_quorums :: "(u32 \<times> hash32, bool) hmap"

definition tm_new :: "u64 \<Rightarrow> u64 \<Rightarrow> tendermint_state" where
  "tm_new height total_stake =
     \<lparr>tm_height = height, tm_round = 0, tm_step = StepPropose,
      tm_proposal_hash = None, tm_proposal_received = False,
      tm_locked_round = None, tm_locked_hash = None,
      tm_valid_round = None, tm_valid_hash = None,
      tm_prevotes = vc_new height total_stake, tm_precommits = vc_new height total_stake,
      tm_total_stake = total_stake, tm_prevoted = False, tm_precommitted = False,
      tm_committed_hash = None, tm_future_votes = [], tm_past_quorums = []\<rparr>"

definition new_height :: "tendermint_state \<Rightarrow> u64 \<Rightarrow> u64 \<Rightarrow> tendermint_state" where
  "new_height s height total_stake =
     s\<lparr>tm_height := height, tm_round := 0, tm_step := StepPropose,
       tm_proposal_hash := None, tm_proposal_received := False,
       tm_locked_round := None, tm_locked_hash := None,
       tm_valid_round := None, tm_valid_hash := None,
       tm_prevotes := vc_new height total_stake, tm_precommits := vc_new height total_stake,
       tm_total_stake := total_stake, tm_prevoted := False, tm_precommitted := False,
       tm_committed_hash := None, tm_future_votes := [], tm_past_quorums := []\<rparr>"

definition new_round :: "tendermint_state \<Rightarrow> u32 \<Rightarrow> tendermint_state" where
  "new_round s rnd =
     s\<lparr>tm_round := rnd, tm_step := StepPropose,
       tm_proposal_hash := None, tm_proposal_received := False,
       tm_prevotes := vc_new (tm_height s) (tm_total_stake s),
       tm_precommits := vc_new (tm_height s) (tm_total_stake s),
       tm_prevoted := False, tm_precommitted := False\<rparr>"

section \<open>Casting votes\<close>

definition do_prevote :: "tendermint_state \<Rightarrow> hash32 \<Rightarrow> tendermint_state \<times> tm_action" where
  "do_prevote s block_hash =
     (if tm_prevoted s then (s, NoAction)
      else let s1 = s\<lparr>tm_prevoted := True\<rparr>;
               s2 = (if tm_step s1 = StepPropose then s1\<lparr>tm_step := StepPrevote\<rparr> else s1)
           in (s2, BroadcastPrevote (tm_height s) (tm_round s) block_hash))"

definition do_precommit :: "tendermint_state \<Rightarrow> hash32 \<Rightarrow> tendermint_state \<times> tm_action" where
  "do_precommit s block_hash =
     (if tm_precommitted s then (s, NoAction)
      else (s\<lparr>tm_precommitted := True\<rparr>,
            BroadcastPrecommit (tm_height s) (tm_round s) block_hash))"

section \<open>Messages\<close>

definition on_proposal ::
  "tendermint_state \<Rightarrow> u64 \<Rightarrow> u32 \<Rightarrow> hash32 \<Rightarrow> u32 option \<Rightarrow> tendermint_state \<times> tm_action" where
  "on_proposal s height rnd block_hash valid_round =
     (if height \<noteq> tm_height s \<or> rnd \<noteq> tm_round s then (s, NoAction)
      else if tm_proposal_received s then (s, NoAction)
      else if tm_step s \<noteq> StepPropose then (s, NoAction)
      else
        let s1 = s\<lparr>tm_proposal_hash := Some block_hash, tm_proposal_received := True\<rparr> in
        case tm_locked_hash s1 of
          Some locked_hash \<Rightarrow>
            (if block_hash = locked_hash then do_prevote s1 block_hash
             else case (valid_round, tm_locked_round s1) of
               (Some vr, Some lr) \<Rightarrow>
                 (if vr \<ge> lr
                  then (if map_of (tm_past_quorums s1) (vr, block_hash) \<noteq> None
                        then do_prevote s1 block_hash
                        else do_prevote s1 NIL_BLOCK_HASH)
                  else do_prevote s1 NIL_BLOCK_HASH)
             | _ \<Rightarrow> do_prevote s1 NIL_BLOCK_HASH)
        | None \<Rightarrow>
            (case valid_round of
               Some vr \<Rightarrow>
                 (if map_of (tm_past_quorums s1) (vr, block_hash) = None
                  then do_prevote s1 NIL_BLOCK_HASH
                  else do_prevote s1 block_hash)
             | None \<Rightarrow> do_prevote s1 block_hash))"

definition buffer_vote ::
  "tendermint_state \<Rightarrow> u32 \<Rightarrow> buffered_vote \<Rightarrow> tendermint_state" where
  "buffer_vote s rnd v =
     s\<lparr>tm_future_votes := hm_insert rnd
         ((case map_of (tm_future_votes s) rnd of None \<Rightarrow> [] | Some vs \<Rightarrow> vs) @ [v])
         (tm_future_votes s)\<rparr>"

text \<open>The tail of \<open>on_prevote\<close>: prevote late for a proposal that has already arrived.\<close>

definition late_prevote :: "tendermint_state \<Rightarrow> tendermint_state \<times> tm_action" where
  "late_prevote s =
     (if tm_step s = StepPropose \<and> tm_proposal_received s \<and> \<not> tm_prevoted s
      then let hash = (case tm_proposal_hash s of None \<Rightarrow> NIL_BLOCK_HASH | Some h \<Rightarrow> h) in
        (case tm_locked_hash s of
           Some locked_hash \<Rightarrow>
             (if hash \<noteq> locked_hash then do_prevote s NIL_BLOCK_HASH else do_prevote s hash)
         | None \<Rightarrow> do_prevote s hash)
      else (s, NoAction))"

definition on_prevote ::
  "tendermint_state \<Rightarrow> u64 \<Rightarrow> u32 \<Rightarrow> hash32 \<Rightarrow> account_id \<Rightarrow> u64 \<Rightarrow> tendermint_state \<times> tm_action" where
  "on_prevote s height rnd block_hash voter stake =
     (if height \<noteq> tm_height s then (s, NoAction)
      else if rnd > tm_round s
        then (buffer_vote s rnd (voter, block_hash, stake, False), NoAction)
      else if rnd \<noteq> tm_round s then (s, NoAction)
      else if tm_step s = StepCommitted \<or> tm_step s = StepCommitWait then (s, NoAction)
      else
        let s1 = s\<lparr>tm_prevotes := fst (add_vote_raw (tm_prevotes s) voter block_hash stake)\<rparr> in
        case quorum_block_hash (tm_prevotes s1) of
          Some quorum_hash \<Rightarrow>
            (if quorum_hash \<noteq> NIL_BLOCK_HASH
             then let s2 = s1\<lparr>tm_past_quorums :=
                                hm_insert (tm_round s1, quorum_hash) True (tm_past_quorums s1),
                              tm_valid_round := Some (tm_round s1),
                              tm_valid_hash := Some quorum_hash\<rparr> in
               (if tm_step s2 = StepPrevote
                then do_precommit
                       (s2\<lparr>tm_locked_round := Some (tm_round s2),
                           tm_locked_hash := Some quorum_hash,
                           tm_step := StepPrecommit\<rparr>) quorum_hash
                else late_prevote s2)
             else
               (if tm_step s1 = StepPrevote
                then do_precommit (s1\<lparr>tm_step := StepPrecommit\<rparr>) NIL_BLOCK_HASH
                else late_prevote s1))
        | None \<Rightarrow> late_prevote s1)"

definition on_precommit ::
  "tendermint_state \<Rightarrow> u64 \<Rightarrow> u32 \<Rightarrow> hash32 \<Rightarrow> account_id \<Rightarrow> u64 \<Rightarrow> tendermint_state \<times> tm_action" where
  "on_precommit s height rnd block_hash voter stake =
     (if height \<noteq> tm_height s then (s, NoAction)
      else if rnd > tm_round s
        then (buffer_vote s rnd (voter, block_hash, stake, True), NoAction)
      else if rnd \<noteq> tm_round s then (s, NoAction)
      else if tm_step s = StepCommitted \<or> tm_step s = StepCommitWait
        then ((if tm_step s = StepCommitWait
               then s\<lparr>tm_precommits := fst (add_vote_raw (tm_precommits s) voter block_hash stake)\<rparr>
               else s), NoAction)
      else
        let s1 = s\<lparr>tm_precommits := fst (add_vote_raw (tm_precommits s) voter block_hash stake)\<rparr> in
        case quorum_block_hash (tm_precommits s1) of
          Some quorum_hash \<Rightarrow>
            (if quorum_hash \<noteq> NIL_BLOCK_HASH
             then (s1\<lparr>tm_step := StepCommitWait, tm_committed_hash := Some quorum_hash\<rparr>,
                   Commit (tm_height s1) (tm_round s1) quorum_hash)
             else (s1, NoAction))
        | None \<Rightarrow> (s1, NoAction))"

section \<open>Timeouts\<close>

definition on_propose_timeout :: "tendermint_state \<Rightarrow> tendermint_state \<times> tm_action" where
  "on_propose_timeout s =
     (if tm_step s \<noteq> StepPropose then (s, NoAction) else do_prevote s NIL_BLOCK_HASH)"

definition on_prevote_timeout :: "tendermint_state \<Rightarrow> tendermint_state \<times> tm_action" where
  "on_prevote_timeout s =
     (if tm_step s \<noteq> StepPrevote then (s, NoAction)
      else do_precommit (s\<lparr>tm_step := StepPrecommit\<rparr>) NIL_BLOCK_HASH)"

definition on_precommit_timeout :: "tendermint_state \<Rightarrow> tendermint_state \<times> tm_action" where
  "on_precommit_timeout s =
     (if tm_step s = StepCommitted \<or> tm_step s = StepCommitWait then (s, NoAction)
      else let new_rnd = tm_round s + 1 in
        (new_round s new_rnd, ScheduleProposal (tm_height s) new_rnd))"

definition on_commit_wait_timeout :: "tendermint_state \<Rightarrow> tendermint_state \<times> tm_action" where
  "on_commit_wait_timeout s =
     (if tm_step s = StepCommitWait then (s\<lparr>tm_step := StepCommitted\<rparr>, NoAction)
      else (s, NoAction))"

text \<open>The dispatch of \<open>ConsensusEngine::on_timeout\<close>.\<close>

definition on_timeout :: "tendermint_state \<Rightarrow> tendermint_state \<times> tm_action" where
  "on_timeout s =
     (case tm_step s of
        StepPropose \<Rightarrow> on_propose_timeout s
      | StepPrevote \<Rightarrow> on_prevote_timeout s
      | StepPrecommit \<Rightarrow> on_precommit_timeout s
      | StepCommitWait \<Rightarrow> on_commit_wait_timeout s
      | StepCommitted \<Rightarrow> (s, NoAction))"

section \<open>Certificates, recovery, equivocators, buffered votes\<close>

definition force_commit :: "tendermint_state \<Rightarrow> u64 \<Rightarrow> u32 \<Rightarrow> hash32 \<Rightarrow> tendermint_state" where
  "force_commit s height rnd block_hash =
     (if height \<noteq> tm_height s then s
      else s\<lparr>tm_round := rnd, tm_step := StepCommitWait, tm_committed_hash := Some block_hash\<rparr>)"

definition restore_lock :: "tendermint_state \<Rightarrow> u32 \<Rightarrow> hash32 \<Rightarrow> tendermint_state" where
  "restore_lock s rnd hash = s\<lparr>tm_locked_round := Some rnd, tm_locked_hash := Some hash\<rparr>"

fun hm_extend :: "('k, 'v) hmap \<Rightarrow> ('k, 'v) hmap \<Rightarrow> ('k, 'v) hmap" where
  "hm_extend m [] = m"
| "hm_extend m ((k, v) # rest) = hm_extend (hm_insert k v m) rest"

definition tm_equivocators :: "tendermint_state \<Rightarrow> (account_id, hash32 \<times> hash32) hmap" where
  "tm_equivocators s =
     hm_extend (vc_equivocators (tm_prevotes s)) (vc_equivocators (tm_precommits s))"

fun replay_votes ::
  "tendermint_state \<Rightarrow> buffered_vote list \<Rightarrow> tendermint_state \<times> tm_action list" where
  "replay_votes s [] = (s, [])"
| "replay_votes s ((voter, block_hash, stake, is_precommit) # votes) =
     (let (s1, action) =
            (if is_precommit
             then on_precommit s (tm_height s) (tm_round s) block_hash voter stake
             else on_prevote s (tm_height s) (tm_round s) block_hash voter stake);
          (s2, actions) = replay_votes s1 votes
      in (s2, if action \<noteq> NoAction then action # actions else actions))"

definition drain_buffered_votes :: "tendermint_state \<Rightarrow> tendermint_state \<times> tm_action list" where
  "drain_buffered_votes s =
     (case map_of (tm_future_votes s) (tm_round s) of
        None \<Rightarrow> (s, [])
      | Some votes \<Rightarrow>
          (let s1 = s\<lparr>tm_future_votes := hm_remove (tm_round s) (tm_future_votes s)\<rparr>;
               s2 = (if tm_round s1 > 0
                     then s1\<lparr>tm_future_votes :=
                               filter (\<lambda>(r, vs). r \<ge> tm_round s1) (tm_future_votes s1)\<rparr>
                     else s1)
           in replay_votes s2 votes))"

section \<open>Shape of the machine\<close>

text \<open>
  \<open>tm_active\<close>: no block has been committed at this height. \<open>tm_shape\<close> relates the step to the
  vote flags; every operation keeps it, and it makes the late prevote of \<open>on_prevote\<close>
  unreachable.
\<close>

definition tm_active :: "tendermint_state \<Rightarrow> bool" where
  "tm_active s = (tm_step s \<noteq> StepCommitWait \<and> tm_step s \<noteq> StepCommitted)"

definition tm_shape :: "tendermint_state \<Rightarrow> bool" where
  "tm_shape s \<longleftrightarrow>
     (tm_step s = StepPropose \<longrightarrow>
        \<not> tm_proposal_received s \<and> \<not> tm_prevoted s \<and> \<not> tm_precommitted s) \<and>
     (tm_step s = StepPrevote \<longrightarrow> tm_prevoted s \<and> \<not> tm_precommitted s) \<and>
     (tm_step s = StepPrecommit \<longrightarrow> tm_prevoted s \<and> tm_precommitted s)"

lemmas tm_op_defs =
  do_prevote_def do_precommit_def on_proposal_def buffer_vote_def on_precommit_def
  on_propose_timeout_def on_prevote_timeout_def on_precommit_timeout_def
  on_commit_wait_timeout_def force_commit_def new_round_def Let_def

lemma late_prevote_shape [simp]: "tm_shape s \<Longrightarrow> late_prevote s = (s, NoAction)"
  by (auto simp: late_prevote_def tm_shape_def)

lemma tm_new_shape [simp]: "tm_shape (tm_new h t)"
  by (simp add: tm_shape_def tm_new_def)

lemma new_height_shape [simp]: "tm_shape (new_height s h t)"
  by (simp add: tm_shape_def new_height_def)

lemma new_round_shape [simp]: "tm_shape (new_round s r)"
  by (simp add: tm_shape_def new_round_def)

text \<open>
  A proposal is either ignored, or answered by the one prevote of the round: for the
  proposed block or for nil, and for a block other than the locked one only with recorded
  evidence of two thirds of the prevotes at a round no older than the lock.
\<close>

definition prevote_allowed :: "tendermint_state \<Rightarrow> hash32 \<Rightarrow> bool" where
  "prevote_allowed s h \<longleftrightarrow>
     h = NIL_BLOCK_HASH \<or> tm_locked_hash s = None \<or> tm_locked_hash s = Some h \<or>
     (\<exists>lr vr. tm_locked_round s = Some lr \<and> lr \<le> vr \<and> map_of (tm_past_quorums s) (vr, h) \<noteq> None)"

lemma on_proposal_cases:
  assumes shape: "tm_shape s"
  obtains (ignored) "on_proposal s height rnd bh vr = (s, NoAction)"
  | (prevoted) h where
      "tm_step s = StepPropose" "height = tm_height s" "rnd = tm_round s"
      "h = bh \<or> h = NIL_BLOCK_HASH" "prevote_allowed s h"
      "on_proposal s height rnd bh vr =
         (s\<lparr>tm_proposal_hash := Some bh, tm_proposal_received := True, tm_prevoted := True,
            tm_step := StepPrevote\<rparr>, BroadcastPrevote (tm_height s) (tm_round s) h)"
proof (cases "height = tm_height s \<and> rnd = tm_round s \<and> tm_step s = StepPropose")
  case False
  then have "on_proposal s height rnd bh vr = (s, NoAction)"
    by (auto simp: on_proposal_def)
  then show thesis by (rule ignored)
next
  case True
  then have flags: "\<not> tm_proposal_received s" "\<not> tm_prevoted s"
    using shape by (auto simp: tm_shape_def)
  let ?s = "s\<lparr>tm_proposal_hash := Some bh, tm_proposal_received := True\<rparr>"
  have dp: "do_prevote ?s h =
      (s\<lparr>tm_proposal_hash := Some bh, tm_proposal_received := True, tm_prevoted := True,
         tm_step := StepPrevote\<rparr>, BroadcastPrevote (tm_height s) (tm_round s) h)" for h
    using True flags by (simp add: do_prevote_def)
  have "\<exists>h. (h = bh \<or> h = NIL_BLOCK_HASH) \<and> prevote_allowed s h \<and>
      on_proposal s height rnd bh vr = do_prevote ?s h"
    using True flags
    by (auto simp: on_proposal_def prevote_allowed_def Let_def split: option.splits)
  then obtain h where h: "h = bh \<or> h = NIL_BLOCK_HASH" "prevote_allowed s h"
      "on_proposal s height rnd bh vr = do_prevote ?s h"
    by blast
  show thesis
    by (rule prevoted [of h]) (use True h in \<open>simp_all add: dp\<close>)
qed

lemma on_proposal_shape: "tm_shape s \<Longrightarrow> tm_shape (fst (on_proposal s height rnd bh vr))"
  by (rule on_proposal_cases [of s height rnd bh vr]) (auto simp: tm_shape_def)

lemma tm_shape_cong:
  "tm_step s' = tm_step s \<Longrightarrow> tm_proposal_received s' = tm_proposal_received s \<Longrightarrow>
   tm_prevoted s' = tm_prevoted s \<Longrightarrow> tm_precommitted s' = tm_precommitted s \<Longrightarrow>
   tm_shape s \<Longrightarrow> tm_shape s'"
  by (simp add: tm_shape_def)

text \<open>
  A prevote of the current round is counted; it moves the machine only when it completes two
  thirds for one hash while the machine is in its prevote step.
\<close>

lemma on_prevote_cases:
  assumes shape: "tm_shape s"
  obtains (ignored) "on_prevote s height rnd bh voter stake = (s, NoAction)"
  | (buffered) "height = tm_height s" "tm_round s < rnd"
      "on_prevote s height rnd bh voter stake =
         (buffer_vote s rnd (voter, bh, stake, False), NoAction)"
  | (counted) s1 where "height = tm_height s" "rnd = tm_round s" "tm_active s"
      "s1 = s\<lparr>tm_prevotes := fst (add_vote_raw (tm_prevotes s) voter bh stake)\<rparr>"
      "on_prevote s height rnd bh voter stake = (s1, NoAction)"
  | (observed) s1 h where "height = tm_height s" "rnd = tm_round s" "tm_active s"
      "s1 = s\<lparr>tm_prevotes := fst (add_vote_raw (tm_prevotes s) voter bh stake)\<rparr>"
      "quorum_block_hash (tm_prevotes s1) = Some h" "h \<noteq> NIL_BLOCK_HASH"
      "on_prevote s height rnd bh voter stake =
         (s1\<lparr>tm_past_quorums := hm_insert (tm_round s, h) True (tm_past_quorums s),
             tm_valid_round := Some (tm_round s), tm_valid_hash := Some h\<rparr>, NoAction)"
  | (locked) s1 h where "height = tm_height s" "rnd = tm_round s" "tm_step s = StepPrevote"
      "s1 = s\<lparr>tm_prevotes := fst (add_vote_raw (tm_prevotes s) voter bh stake)\<rparr>"
      "quorum_block_hash (tm_prevotes s1) = Some h" "h \<noteq> NIL_BLOCK_HASH"
      "on_prevote s height rnd bh voter stake =
         (s1\<lparr>tm_past_quorums := hm_insert (tm_round s, h) True (tm_past_quorums s),
             tm_valid_round := Some (tm_round s), tm_valid_hash := Some h,
             tm_locked_round := Some (tm_round s), tm_locked_hash := Some h,
             tm_step := StepPrecommit, tm_precommitted := True\<rparr>,
          BroadcastPrecommit (tm_height s) (tm_round s) h)"
  | (nil_quorum) s1 where "height = tm_height s" "rnd = tm_round s" "tm_step s = StepPrevote"
      "s1 = s\<lparr>tm_prevotes := fst (add_vote_raw (tm_prevotes s) voter bh stake)\<rparr>"
      "on_prevote s height rnd bh voter stake =
         (s1\<lparr>tm_step := StepPrecommit, tm_precommitted := True\<rparr>,
          BroadcastPrecommit (tm_height s) (tm_round s) NIL_BLOCK_HASH)"
proof (cases "height = tm_height s \<and> rnd = tm_round s \<and> tm_active s")
  case False
  show thesis
  proof (cases "height = tm_height s \<and> tm_round s < rnd")
    case True
    then show thesis by (intro buffered) (simp_all add: on_prevote_def)
  next
    case other: False
    have "on_prevote s height rnd bh voter stake = (s, NoAction)"
      using False other by (auto simp: on_prevote_def tm_active_def)
    then show thesis by (rule ignored)
  qed
next
  case True
  let ?s1 = "s\<lparr>tm_prevotes := fst (add_vote_raw (tm_prevotes s) voter bh stake)\<rparr>"
  have sh1: "tm_shape ?s1"
    using shape by (rule tm_shape_cong [rotated -1]) simp_all
  have run: "on_prevote s height rnd bh voter stake =
      (case quorum_block_hash (tm_prevotes ?s1) of
          Some h \<Rightarrow>
            (if h \<noteq> NIL_BLOCK_HASH
             then let s2 = ?s1\<lparr>tm_past_quorums := hm_insert (tm_round s, h) True (tm_past_quorums s),
                              tm_valid_round := Some (tm_round s), tm_valid_hash := Some h\<rparr> in
               (if tm_step s = StepPrevote
                then do_precommit (s2\<lparr>tm_locked_round := Some (tm_round s), tm_locked_hash := Some h,
                           tm_step := StepPrecommit\<rparr>) h
                else late_prevote s2)
             else (if tm_step s = StepPrevote
                then do_precommit (?s1\<lparr>tm_step := StepPrecommit\<rparr>) NIL_BLOCK_HASH
                else late_prevote ?s1))
        | None \<Rightarrow> late_prevote ?s1)"
    using True by (simp add: on_prevote_def tm_active_def Let_def split: option.split)
  have late: "late_prevote ?s1 = (?s1, NoAction)"
    using sh1 by simp
  have late2: "late_prevote (?s1\<lparr>tm_past_quorums := q, tm_valid_round := v, tm_valid_hash := vh\<rparr>) =
      (?s1\<lparr>tm_past_quorums := q, tm_valid_round := v, tm_valid_hash := vh\<rparr>, NoAction)" for q v vh
    by (rule late_prevote_shape) (rule tm_shape_cong [rotated -1, OF shape], simp_all)
  have np: "tm_step s = StepPrevote \<Longrightarrow> \<not> tm_precommitted s"
    using shape by (simp add: tm_shape_def)
  show thesis
  proof (cases "quorum_block_hash (tm_prevotes ?s1)")
    case None
    then show thesis
      using counted [of ?s1] True run late by simp
  next
    case q: (Some h)
    show thesis
    proof (cases "tm_step s = StepPrevote")
      case step: True
      show thesis
      proof (cases "h = NIL_BLOCK_HASH")
        case True
        then show thesis
          using nil_quorum [of ?s1] q step np run \<open>height = _ \<and> _\<close> by (simp add: do_precommit_def)
      next
        case False
        then show thesis
          using locked [of ?s1 h] q step np run \<open>height = _ \<and> _\<close> by (simp add: do_precommit_def Let_def)
      qed
    next
      case step: False
      show thesis
      proof (cases "h = NIL_BLOCK_HASH")
        case True
        then show thesis
          using counted [of ?s1] q step late run \<open>height = _ \<and> _\<close> by simp
      next
        case False
        then show thesis
          using observed [of ?s1 h] q step late2 run \<open>height = _ \<and> _\<close> by (simp add: Let_def)
      qed
    qed
  qed
qed

lemma buffer_vote_shape [simp]: "tm_shape (buffer_vote s r v) = tm_shape s"
  by (simp add: buffer_vote_def tm_shape_def)

lemma on_prevote_shape:
  assumes "tm_shape s"
  shows "tm_shape (fst (on_prevote s height rnd bh voter stake))"
  by (rule on_prevote_cases [OF assms, of height rnd bh voter stake])
    (use assms in \<open>auto simp: tm_shape_def buffer_vote_def\<close>)

lemma on_precommit_cases:
  obtains (ignored) "on_precommit s height rnd bh voter stake = (s, NoAction)"
  | (buffered) "height = tm_height s" "tm_round s < rnd"
      "on_precommit s height rnd bh voter stake =
         (buffer_vote s rnd (voter, bh, stake, True), NoAction)"
  | (counted) s1 where "height = tm_height s" "rnd = tm_round s"
      "s1 = s\<lparr>tm_precommits := fst (add_vote_raw (tm_precommits s) voter bh stake)\<rparr>"
      "on_precommit s height rnd bh voter stake = (s1, NoAction)"
  | (committed) s1 h where "height = tm_height s" "rnd = tm_round s" "tm_active s"
      "s1 = s\<lparr>tm_precommits := fst (add_vote_raw (tm_precommits s) voter bh stake)\<rparr>"
      "quorum_block_hash (tm_precommits s1) = Some h" "h \<noteq> NIL_BLOCK_HASH"
      "on_precommit s height rnd bh voter stake =
         (s1\<lparr>tm_step := StepCommitWait, tm_committed_hash := Some h\<rparr>,
          Commit (tm_height s) (tm_round s) h)"
proof (cases "height = tm_height s \<and> rnd = tm_round s")
  case False
  show thesis
  proof (cases "height = tm_height s \<and> tm_round s < rnd")
    case True
    then show thesis by (intro buffered) (simp_all add: on_precommit_def)
  next
    case other: False
    have "on_precommit s height rnd bh voter stake = (s, NoAction)"
      using False other by (auto simp: on_precommit_def)
    then show thesis by (rule ignored)
  qed
next
  case True
  let ?s1 = "s\<lparr>tm_precommits := fst (add_vote_raw (tm_precommits s) voter bh stake)\<rparr>"
  show thesis
  proof (cases "tm_active s")
    case inactive: False
    show thesis
    proof (cases "tm_step s = StepCommitWait")
      case wait: True
      then show thesis
        using True by (intro counted [of ?s1]) (simp_all add: on_precommit_def)
    next
      case False
      then have "on_precommit s height rnd bh voter stake = (s, NoAction)"
        using True inactive by (auto simp: on_precommit_def tm_active_def)
      then show thesis by (rule ignored)
    qed
  next
    case act: True
    show thesis
    proof (cases "\<exists>h. quorum_block_hash (tm_precommits ?s1) = Some h \<and> h \<noteq> NIL_BLOCK_HASH")
      case True
      then obtain h where h: "quorum_block_hash (tm_precommits ?s1) = Some h" "h \<noteq> NIL_BLOCK_HASH"
        by blast
      show thesis
        by (rule committed [of ?s1 h])
          (use \<open>height = _ \<and> _\<close> act h in \<open>simp_all add: on_precommit_def tm_active_def\<close>)
    next
      case False
      then have "on_precommit s height rnd bh voter stake = (?s1, NoAction)"
        using \<open>height = _ \<and> _\<close> act
        by (auto simp: on_precommit_def tm_active_def Let_def split: option.splits)
      then show thesis
        using \<open>height = _ \<and> _\<close> by (intro counted [of ?s1]) simp_all
    qed
  qed
qed

lemma on_precommit_shape:
  assumes "tm_shape s"
  shows "tm_shape (fst (on_precommit s height rnd bh voter stake))"
  by (rule on_precommit_cases [of s height rnd bh voter stake])
    (use assms in \<open>auto simp: tm_shape_def buffer_vote_def\<close>)

lemma on_timeout_shape: "tm_shape s \<Longrightarrow> tm_shape (fst (on_timeout s))"
  by (cases "tm_step s") (auto simp: on_timeout_def tm_op_defs tm_shape_def)

section \<open>Properties\<close>

text \<open>
  C14: A machine answers a proposal with a vote for a block other than its locked one only if
  the proposal names a round that is not older than the lock and the machine itself has seen two
  thirds of the prevotes for that very block at the named round.
\<close>

theorem proposal_respects_lock:
  assumes "on_proposal s height rnd block_hash valid_round = (s', BroadcastPrevote n r h)"
    and "tm_locked_hash s = Some lh" and "tm_locked_round s = Some lr"
    and "h \<noteq> NIL_BLOCK_HASH" and "h \<noteq> lh"
  shows "\<exists>vr. valid_round = Some vr \<and> lr \<le> vr \<and> h = block_hash \<and>
    map_of (tm_past_quorums s) (vr, h) \<noteq> None"
  using assms
  by (auto simp: on_proposal_def do_prevote_def Let_def split: if_splits option.splits)

definition sample_locked :: tendermint_state where
  "sample_locked = (tm_new 1 30)\<lparr>tm_round := 3, tm_locked_round := Some 1, tm_locked_hash := Some 7,
     tm_past_quorums := [((2, 8), True)]\<rparr>"

theorem proposal_respects_lock_witness:
  "\<exists>vr. Some (2 :: u32) = Some vr \<and> 1 \<le> vr \<and> (8 :: hash32) = 8 \<and>
    map_of (tm_past_quorums sample_locked) (vr, 8) \<noteq> None"
proof -
  have "snd (on_proposal sample_locked 1 3 8 (Some 2)) = BroadcastPrevote 1 3 8" by code_simp
  then have run: "on_proposal sample_locked 1 3 8 (Some 2) =
      (fst (on_proposal sample_locked 1 3 8 (Some 2)), BroadcastPrevote 1 3 8)"
    by (simp add: prod_eq_iff)
  show ?thesis
    by (rule proposal_respects_lock [OF run, of 7 1]) (simp_all add: sample_locked_def NIL_BLOCK_HASH_def)
qed

text \<open>
  C40: A machine that holds a lock answers every proposal of another block that carries no
  round of validity with a vote for nil, whatever it has seen. The node always proposes a
  fresh block without such a round, so a lock is never released by the node's own proposals.
\<close>

theorem locked_machine_votes_nil:
  assumes "tm_shape s" and "tm_step s = StepPropose" and "tm_locked_hash s = Some lh" and "block_hash \<noteq> lh"
  shows "snd (on_proposal s (tm_height s) (tm_round s) block_hash None) =
    BroadcastPrevote (tm_height s) (tm_round s) NIL_BLOCK_HASH"
  using assms by (auto simp: on_proposal_def tm_shape_def do_prevote_def Let_def split: option.split)

theorem locked_machine_votes_nil_witness:
  "snd (on_proposal sample_locked 1 3 8 None) = BroadcastPrevote 1 3 NIL_BLOCK_HASH"
  using locked_machine_votes_nil [of sample_locked 7 8]
  by (simp add: sample_locked_def tm_new_def tm_shape_def)

end
