(* ===== verification/Lock_Voting.thy ===== *)
theory Lock_Voting
  imports Main
begin

text \<open>
  The abstract safety argument of lock-based two-phase voting, independent of any machine. A
  history is the list of votes and commits that the participants made public, newest first.
  The interface \<open>lock_voting\<close> asks one thing of the voting weights: any two quorums of a
  height share a correct participant. From the four history laws \<open>hist_ok\<close> it follows that no
  two correct participants commit different blocks at one height.
\<close>

section \<open>Histories\<close>

datatype ('p, 'n, 'r, 'b) ev =
    EvPrevote 'p 'n 'r 'b
  | EvPrecommit 'p 'n 'r 'b
  | EvCommit 'p 'n 'r 'b

text \<open>
  Two thirds of the prevotes (or precommits) of a round: a quorum whose correct members all
  cast the vote. Members that are not correct may have cast any vote.
\<close>

definition polka ::
  "('p \<Rightarrow> bool) \<Rightarrow> ('n \<Rightarrow> 'p set \<Rightarrow> bool) \<Rightarrow> ('p, 'n, 'r, 'b) ev list \<Rightarrow> 'n \<Rightarrow> 'r \<Rightarrow> 'b \<Rightarrow> bool" where
  "polka cor quo log n r b \<longleftrightarrow>
     (\<exists>Q. quo n Q \<and> (\<forall>p \<in> Q. cor p \<longrightarrow> EvPrevote p n r b \<in> set log))"

definition precommit_quorum ::
  "('p \<Rightarrow> bool) \<Rightarrow> ('n \<Rightarrow> 'p set \<Rightarrow> bool) \<Rightarrow> ('p, 'n, 'r, 'b) ev list \<Rightarrow> 'n \<Rightarrow> 'r \<Rightarrow> 'b \<Rightarrow> bool" where
  "precommit_quorum cor quo log n r b \<longleftrightarrow>
     (\<exists>Q. quo n Q \<and> (\<forall>p \<in> Q. cor p \<longrightarrow> EvPrecommit p n r b \<in> set log))"

text \<open>
  A participant that has committed a block may sign a precommit for it afterwards, for use in
  a certificate. Such a signature counts like a precommit, but is not one for the lock law.
\<close>

definition signed_precommit :: "('p, 'n, 'r, 'b) ev list \<Rightarrow> 'p \<Rightarrow> 'n \<Rightarrow> 'r \<Rightarrow> 'b \<Rightarrow> bool" where
  "signed_precommit log p n r b \<longleftrightarrow> EvPrecommit p n r b \<in> set log \<or> EvCommit p n r b \<in> set log"

definition signature_quorum ::
  "('p \<Rightarrow> bool) \<Rightarrow> ('n \<Rightarrow> 'p set \<Rightarrow> bool) \<Rightarrow> ('p, 'n, 'r, 'b) ev list \<Rightarrow> 'n \<Rightarrow> 'r \<Rightarrow> 'b \<Rightarrow> bool" where
  "signature_quorum cor quo log n r b \<longleftrightarrow>
     (\<exists>Q. quo n Q \<and> (\<forall>p \<in> Q. cor p \<longrightarrow> signed_precommit log p n r b))"

definition one_prevote :: "('p \<Rightarrow> bool) \<Rightarrow> ('p, 'n, 'r, 'b) ev list \<Rightarrow> bool" where
  "one_prevote cor log \<longleftrightarrow>
     (\<forall>p n r b b'. cor p \<longrightarrow> EvPrevote p n r b \<in> set log \<longrightarrow> EvPrevote p n r b' \<in> set log \<longrightarrow> b = b')"

definition precommit_justified ::
  "('p \<Rightarrow> bool) \<Rightarrow> ('n \<Rightarrow> 'p set \<Rightarrow> bool) \<Rightarrow> 'b \<Rightarrow> ('p, 'n, 'r, 'b) ev list \<Rightarrow> bool" where
  "precommit_justified cor quo nil log \<longleftrightarrow>
     (\<forall>p n r b. cor p \<longrightarrow> EvPrecommit p n r b \<in> set log \<longrightarrow> b \<noteq> nil \<longrightarrow> polka cor quo log n r b)"

text \<open>
  The lock law: after precommitting \<open>b\<close>, a later prevote for another block needs two thirds of
  the prevotes for that block, at a round no older than the precommit, already in the history.
\<close>

definition lock_respected ::
  "('p \<Rightarrow> bool) \<Rightarrow> ('n \<Rightarrow> 'p set \<Rightarrow> bool) \<Rightarrow> 'b \<Rightarrow> ('p, 'n, 'r::linorder, 'b) ev list \<Rightarrow> bool" where
  "lock_respected cor quo nil log \<longleftrightarrow>
     (\<forall>p n r b r' b' newer older.
        cor p \<longrightarrow> EvPrecommit p n r b \<in> set log \<longrightarrow> b \<noteq> nil \<longrightarrow>
        log = newer @ EvPrevote p n r' b' # older \<longrightarrow> r < r' \<longrightarrow> b' \<noteq> nil \<longrightarrow> b' \<noteq> b \<longrightarrow>
        (\<exists>vr \<ge> r. polka cor quo older n vr b'))"

definition commit_justified ::
  "('p \<Rightarrow> bool) \<Rightarrow> ('n \<Rightarrow> 'p set \<Rightarrow> bool) \<Rightarrow> 'b \<Rightarrow> ('p, 'n, 'r, 'b) ev list \<Rightarrow> bool" where
  "commit_justified cor quo nil log \<longleftrightarrow>
     (\<forall>p n r b. cor p \<longrightarrow> EvCommit p n r b \<in> set log \<longrightarrow>
        b \<noteq> nil \<and> precommit_quorum cor quo log n r b)"

definition hist_ok ::
  "('p \<Rightarrow> bool) \<Rightarrow> ('n \<Rightarrow> 'p set \<Rightarrow> bool) \<Rightarrow> 'b \<Rightarrow> ('p, 'n, 'r::linorder, 'b) ev list \<Rightarrow> bool" where
  "hist_ok cor quo nil log \<longleftrightarrow>
     one_prevote cor log \<and> precommit_justified cor quo nil log \<and>
     lock_respected cor quo nil log \<and> commit_justified cor quo nil log"

lemmas hist_defs =
  hist_ok_def one_prevote_def precommit_justified_def lock_respected_def commit_justified_def

lemma polka_mono: "polka cor quo log n r b \<Longrightarrow> set log \<subseteq> set log' \<Longrightarrow> polka cor quo log' n r b"
  unfolding polka_def by blast

lemma precommit_quorum_mono:
  "precommit_quorum cor quo log n r b \<Longrightarrow> set log \<subseteq> set log' \<Longrightarrow> precommit_quorum cor quo log' n r b"
  unfolding precommit_quorum_def by blast

lemma polka_Cons: "polka cor quo log n r b \<Longrightarrow> polka cor quo (e # log) n r b"
  by (rule polka_mono) auto

lemma precommit_quorum_Cons:
  "precommit_quorum cor quo log n r b \<Longrightarrow> precommit_quorum cor quo (e # log) n r b"
  by (rule precommit_quorum_mono) auto

lemma signed_precommit_mono:
  "signed_precommit log p n r b \<Longrightarrow> set log \<subseteq> set log' \<Longrightarrow> signed_precommit log' p n r b"
  unfolding signed_precommit_def by blast

text \<open>Late signatures add nothing: behind the first commit stands a quorum of precommits.\<close>

lemma signature_quorum_precommits:
  assumes ok: "hist_ok cor quo nil log" and q: "signature_quorum cor quo log n r b"
  shows "precommit_quorum cor quo log n r b"
proof (cases "\<exists>p. cor p \<and> EvCommit p n r b \<in> set log")
  case True
  then show ?thesis using ok unfolding hist_ok_def commit_justified_def by blast
next
  case False
  then show ?thesis
    using q unfolding signature_quorum_def precommit_quorum_def signed_precommit_def by blast
qed

lemma hist_ok_Nil [simp]: "hist_ok cor quo nil []"
  by (simp add: hist_defs)

section \<open>Extending a history\<close>

lemma hist_ok_prevote:
  assumes ok: "hist_ok cor quo nil log"
    and fresh: "\<And>b'. EvPrevote p n r b' \<notin> set log"
    and lock: "\<And>r0 b0. EvPrecommit p n r0 b0 \<in> set log \<Longrightarrow> b0 \<noteq> nil \<Longrightarrow> b \<noteq> nil \<Longrightarrow> b \<noteq> b0 \<Longrightarrow>
      \<exists>vr \<ge> r0. polka cor quo log n vr b"
  shows "hist_ok cor quo nil (EvPrevote p n r b # log)"
  unfolding hist_ok_def
proof (intro conjI)
  show "one_prevote cor (EvPrevote p n r b # log)"
    using ok fresh by (auto simp: hist_ok_def one_prevote_def)
  show "precommit_justified cor quo nil (EvPrevote p n r b # log)"
    using ok polka_Cons by (fastforce simp: hist_ok_def precommit_justified_def)
  show "commit_justified cor quo nil (EvPrevote p n r b # log)"
    using ok precommit_quorum_Cons by (fastforce simp: hist_ok_def commit_justified_def)
  show "lock_respected cor quo nil (EvPrevote p n r b # log)"
    unfolding lock_respected_def
  proof (intro allI impI)
    fix p' n' r0 b0 r' b' newer older
    assume a: "cor p'" "EvPrecommit p' n' r0 b0 \<in> set (EvPrevote p n r b # log)" "b0 \<noteq> nil"
      "EvPrevote p n r b # log = newer @ EvPrevote p' n' r' b' # older" "r0 < r'" "b' \<noteq> nil" "b' \<noteq> b0"
    show "\<exists>vr \<ge> r0. polka cor quo older n' vr b'"
    proof (cases newer)
      case Nil
      with a lock show ?thesis by simp
    next
      case (Cons e newer')
      with a have "log = newer' @ EvPrevote p' n' r' b' # older" "EvPrecommit p' n' r0 b0 \<in> set log"
        by auto
      with a ok show ?thesis
        unfolding hist_ok_def lock_respected_def by blast
    qed
  qed
qed

lemma hist_ok_precommit:
  assumes ok: "hist_ok cor quo nil log"
    and just: "b \<noteq> nil \<Longrightarrow> polka cor quo log n r b"
    and late: "\<And>r' b'. EvPrevote p n r' b' \<in> set log \<Longrightarrow> r' \<le> r"
  shows "hist_ok cor quo nil (EvPrecommit p n r b # log)"
  unfolding hist_ok_def
proof (intro conjI)
  show "one_prevote cor (EvPrecommit p n r b # log)"
    using ok by (simp add: hist_ok_def one_prevote_def)
  show "precommit_justified cor quo nil (EvPrecommit p n r b # log)"
    using ok just polka_Cons by (fastforce simp: hist_ok_def precommit_justified_def)
  show "commit_justified cor quo nil (EvPrecommit p n r b # log)"
    using ok precommit_quorum_Cons by (fastforce simp: hist_ok_def commit_justified_def)
  show "lock_respected cor quo nil (EvPrecommit p n r b # log)"
    unfolding lock_respected_def
  proof (intro allI impI)
    fix p' n' r0 b0 r' b' newer older
    assume a: "cor p'" "EvPrecommit p' n' r0 b0 \<in> set (EvPrecommit p n r b # log)" "b0 \<noteq> nil"
      "EvPrecommit p n r b # log = newer @ EvPrevote p' n' r' b' # older" "r0 < r'" "b' \<noteq> nil" "b' \<noteq> b0"
    then obtain newer' where log: "log = newer' @ EvPrevote p' n' r' b' # older"
      by (cases newer) auto
    then have "EvPrevote p' n' r' b' \<in> set log" by simp
    then have "EvPrecommit p' n' r0 b0 \<in> set log"
      using a(2,5) late by fastforce
    with a log ok show "\<exists>vr \<ge> r0. polka cor quo older n' vr b'"
      unfolding hist_ok_def lock_respected_def by blast
  qed
qed

lemma hist_ok_commit:
  assumes ok: "hist_ok cor quo nil log"
    and "b \<noteq> nil" and "precommit_quorum cor quo log n r b"
  shows "hist_ok cor quo nil (EvCommit p n r b # log)"
  unfolding hist_ok_def
proof (intro conjI)
  show "one_prevote cor (EvCommit p n r b # log)"
    using ok by (simp add: hist_ok_def one_prevote_def)
  show "precommit_justified cor quo nil (EvCommit p n r b # log)"
    using ok polka_Cons by (fastforce simp: hist_ok_def precommit_justified_def)
  show "commit_justified cor quo nil (EvCommit p n r b # log)"
    using assms precommit_quorum_Cons by (fastforce simp: hist_ok_def commit_justified_def)
  show "lock_respected cor quo nil (EvCommit p n r b # log)"
    unfolding lock_respected_def
  proof (intro allI impI)
    fix p' n' r0 b0 r' b' newer older
    assume a: "cor p'" "EvPrecommit p' n' r0 b0 \<in> set (EvCommit p n r b # log)" "b0 \<noteq> nil"
      "EvCommit p n r b # log = newer @ EvPrevote p' n' r' b' # older" "r0 < r'" "b' \<noteq> nil" "b' \<noteq> b0"
    then obtain newer' where "log = newer' @ EvPrevote p' n' r' b' # older"
      by (cases newer) auto
    with a ok show "\<exists>vr \<ge> r0. polka cor quo older n' vr b'"
      unfolding hist_ok_def lock_respected_def by (metis ev.distinct(5) set_ConsD)
  qed
qed

section \<open>The interface and the agreement argument\<close>

locale lock_voting =
  fixes valid :: "'c \<Rightarrow> bool"
    and correct :: "'c \<Rightarrow> 'p \<Rightarrow> bool"
    and quorum :: "'c \<Rightarrow> 'n \<Rightarrow> 'p set \<Rightarrow> bool"
  assumes quorum_meet:
    "valid c \<Longrightarrow> quorum c n A \<Longrightarrow> quorum c n B \<Longrightarrow> \<exists>p. p \<in> A \<and> p \<in> B \<and> correct c p"
begin

text \<open>A quorum of precommits freezes the block: no later polka for another block.\<close>

lemma locked_suffix:
  assumes v: "valid c" and ok: "hist_ok (correct c) (quorum c) nil (newer @ log)"
    and pc: "precommit_quorum (correct c) (quorum c) (newer @ log) n r b" and b: "b \<noteq> nil"
    and le: "r \<le> r'" and b': "b' \<noteq> nil" "b' \<noteq> b"
  shows "\<not> polka (correct c) (quorum c) log n (r' :: 'r::linorder) b'"
  using ok pc le
proof (induction log arbitrary: newer r' rule: length_induct)
  case (1 log)
  let ?full = "newer @ log"
  show ?case
  proof
    assume "polka (correct c) (quorum c) log n r' b'"
    then obtain Q where Q: "quorum c n Q"
        "\<And>p. p \<in> Q \<Longrightarrow> correct c p \<Longrightarrow> EvPrevote p n r' b' \<in> set log"
      unfolding polka_def by blast
    obtain P where P: "quorum c n P"
        "\<And>p. p \<in> P \<Longrightarrow> correct c p \<Longrightarrow> EvPrecommit p n r b \<in> set ?full"
      using "1.prems"(2) unfolding precommit_quorum_def by blast
    obtain m where m: "m \<in> Q" "m \<in> P" "correct c m"
      using quorum_meet [OF v Q(1) P(1)] by blast
    have pre: "EvPrevote m n r' b' \<in> set log" and com: "EvPrecommit m n r b \<in> set ?full"
      using Q(2) P(2) m by blast+
    show False
    proof (cases "r' = r")
      case True
      have "polka (correct c) (quorum c) ?full n r b"
        using "1.prems"(1) com m(3) b unfolding hist_ok_def precommit_justified_def by blast
      then obtain R where R: "quorum c n R"
          "\<And>p. p \<in> R \<Longrightarrow> correct c p \<Longrightarrow> EvPrevote p n r b \<in> set ?full"
        unfolding polka_def by blast
      obtain x where x: "x \<in> Q" "x \<in> R" "correct c x"
        using quorum_meet [OF v Q(1) R(1)] by blast
      have "EvPrevote x n r b' \<in> set ?full" "EvPrevote x n r b \<in> set ?full"
        using Q(2) [OF x(1,3)] R(2) [OF x(2,3)] True by auto
      then have "b' = b"
        using "1.prems"(1) x(3) unfolding hist_ok_def one_prevote_def by blast
      with b' show False by simp
    next
      case False
      obtain mid older where log: "log = mid @ EvPrevote m n r' b' # older"
        using split_list [OF pre] by blast
      have "?full = (newer @ mid) @ EvPrevote m n r' b' # older" using log by simp
      moreover have "r < r'" using False "1.prems"(3) by simp
      ultimately obtain vr where vr: "r \<le> vr" "polka (correct c) (quorum c) older n vr b'"
        using "1.prems"(1) com m(3) b b' unfolding hist_ok_def lock_respected_def by blast
      have full: "(newer @ mid @ [EvPrevote m n r' b']) @ older = ?full" using log by simp
      have "length older < length log" using log by simp
      then have "\<not> polka (correct c) (quorum c) older n vr b'"
        using "1.IH" "1.prems"(1,2) vr(1) full by metis
      with vr(2) show False by blast
    qed
  qed
qed

lemma commit_has_polka:
  assumes v: "valid c" and ok: "hist_ok (correct c) (quorum c) nil log"
    and pc: "precommit_quorum (correct c) (quorum c) log n r b" and b: "b \<noteq> nil"
  shows "polka (correct c) (quorum c) log n r b"
proof -
  obtain P where P: "quorum c n P"
      "\<And>p. p \<in> P \<Longrightarrow> correct c p \<Longrightarrow> EvPrecommit p n r b \<in> set log"
    using pc unfolding precommit_quorum_def by blast
  obtain m where "m \<in> P" "correct c m"
    using quorum_meet [OF v P(1) P(1)] by blast
  then show ?thesis
    using P(2) ok b unfolding hist_ok_def precommit_justified_def by blast
qed

lemma commits_agree:
  assumes v: "valid c" and ok: "hist_ok (correct c) (quorum c) nil log"
    and p: "correct c p" "EvCommit p n r b \<in> set log"
    and q: "correct c q" "EvCommit q n (r' :: 'r::linorder) b' \<in> set log"
  shows "b = b'"
proof -
  have b: "b \<noteq> nil" "precommit_quorum (correct c) (quorum c) log n r b"
    and b': "b' \<noteq> nil" "precommit_quorum (correct c) (quorum c) log n r' b'"
    using ok p q unfolding hist_ok_def commit_justified_def by blast+
  have po: "polka (correct c) (quorum c) log n r b" "polka (correct c) (quorum c) log n r' b'"
    using commit_has_polka [OF v ok] b b' by blast+
  have full: "hist_ok (correct c) (quorum c) nil ([] @ log)" using ok by simp
  show ?thesis
  proof (cases "r \<le> r'")
    case True
    then show ?thesis
      using locked_suffix [OF v full] b b' po by fastforce
  next
    case False
    then show ?thesis
      using locked_suffix [OF v full, of n r' b' r b] b b' po by fastforce
  qed
qed

end

end
