(* ===== verification/Tendermint_Net.thy ===== *)
theory Tendermint_Net
  imports Tendermint Lock_Voting
begin

text \<open>
  The round machines of all validators beside one history of what they made public. A
  validator of the configuration is either correct, and then runs the machine of theory
  \<open>Tendermint\<close>, or faulty, and then may send any vote. The network delivers votes in any
  order, any number of times, or never. The one assumption on messages is that a vote counted
  for a correct validator was cast by it, which is what the signature checks of the node are for.
  The theory proves the invariant of the machine in such a network, and the history laws of
  \<open>Lock_Voting\<close>.
\<close>

section \<open>Configuration and quorums\<close>

type_synonym tm_event = "(account_id, u64, u32, hash32) ev"

record net_config =
  nc_vset :: "u64 \<Rightarrow> validator_set"
  nc_faulty :: "account_id set"

definition net_correct :: "net_config \<Rightarrow> account_id \<Rightarrow> bool" where
  "net_correct cfg p \<longleftrightarrow> p \<notin> nc_faulty cfg"

definition stake_in :: "validator_set \<Rightarrow> account_id set \<Rightarrow> nat" where
  "stake_in vs A = (\<Sum>p \<in> A \<inter> vs_ids vs. unat (stake_of vs p))"

definition net_quorum :: "net_config \<Rightarrow> u64 \<Rightarrow> account_id set \<Rightarrow> bool" where
  "net_quorum cfg n Q \<longleftrightarrow>
     2 * unat (vs_total_stake (nc_vset cfg n)) \<le> 3 * stake_in (nc_vset cfg n) Q"

text \<open>At every height the faulty validators hold less than a third of the stake.\<close>

definition net_valid :: "net_config \<Rightarrow> bool" where
  "net_valid cfg \<longleftrightarrow>
     (\<forall>n. vs_inv (nc_vset cfg n) \<and>
          3 * stake_in (nc_vset cfg n) (nc_faulty cfg) < unat (vs_total_stake (nc_vset cfg n)))"

lemma stake_in_Un_Int: "stake_in vs A + stake_in vs B = stake_in vs (A \<union> B) + stake_in vs (A \<inter> B)"
proof -
  have "(A \<union> B) \<inter> vs_ids vs = (A \<inter> vs_ids vs) \<union> (B \<inter> vs_ids vs)"
    and "A \<inter> B \<inter> vs_ids vs = (A \<inter> vs_ids vs) \<inter> (B \<inter> vs_ids vs)" by auto
  then show ?thesis
    unfolding stake_in_def
    using sum.union_inter [of "A \<inter> vs_ids vs" "B \<inter> vs_ids vs" "\<lambda>p. unat (stake_of vs p)"]
    by (metis finite_Int finite_vs_ids)
qed

lemma stake_in_mono: "A \<inter> vs_ids vs \<subseteq> B \<Longrightarrow> stake_in vs A \<le> stake_in vs B"
  unfolding stake_in_def by (rule sum_mono2) auto

lemma stake_in_le_total: "vs_inv vs \<Longrightarrow> stake_in vs A \<le> unat (vs_total_stake vs)"
  using stake_in_mono [of A vs "vs_ids vs"] total_stake_sum [of vs] by (simp add: stake_in_def)

lemma stake_of_nonmember: "p \<notin> vs_ids vs \<Longrightarrow> stake_of vs p = 0"
  by (auto simp: stake_of_def vs_ids_def split: option.split dest: get_by_id_Some)

lemma net_validD:
  "net_valid cfg \<Longrightarrow> vs_inv (nc_vset cfg n)"
  "net_valid cfg \<Longrightarrow> 3 * stake_in (nc_vset cfg n) (nc_faulty cfg) < unat (vs_total_stake (nc_vset cfg n))"
  by (auto simp: net_valid_def)

lemma net_quorum_meet:
  assumes v: "net_valid cfg" and A: "net_quorum cfg n A" and B: "net_quorum cfg n B"
  shows "\<exists>p. p \<in> A \<and> p \<in> B \<and> net_correct cfg p"
proof (rule ccontr)
  let ?vs = "nc_vset cfg n"
  assume "\<not> ?thesis"
  then have "A \<inter> B \<inter> vs_ids ?vs \<subseteq> nc_faulty cfg" by (auto simp: net_correct_def)
  then have "stake_in ?vs (A \<inter> B) \<le> stake_in ?vs (nc_faulty cfg)" by (rule stake_in_mono)
  moreover have "stake_in ?vs (A \<union> B) \<le> unat (vs_total_stake ?vs)"
    using net_validD(1) [OF v] by (rule stake_in_le_total)
  ultimately show False
    using stake_in_Un_Int [of ?vs A B] net_validD(2) [OF v, of n] A B
    unfolding net_quorum_def by linarith
qed

interpretation tmv: lock_voting net_valid net_correct net_quorum
  by unfold_locales (rule net_quorum_meet)

abbreviation tm_polka :: "net_config \<Rightarrow> tm_event list \<Rightarrow> u64 \<Rightarrow> u32 \<Rightarrow> hash32 \<Rightarrow> bool" where
  "tm_polka cfg \<equiv> polka (net_correct cfg) (net_quorum cfg)"

abbreviation tm_precommit_quorum :: "net_config \<Rightarrow> tm_event list \<Rightarrow> u64 \<Rightarrow> u32 \<Rightarrow> hash32 \<Rightarrow> bool" where
  "tm_precommit_quorum cfg \<equiv> precommit_quorum (net_correct cfg) (net_quorum cfg)"

abbreviation tm_signature_quorum :: "net_config \<Rightarrow> tm_event list \<Rightarrow> u64 \<Rightarrow> u32 \<Rightarrow> hash32 \<Rightarrow> bool" where
  "tm_signature_quorum cfg \<equiv> signature_quorum (net_correct cfg) (net_quorum cfg)"

abbreviation tm_hist_ok :: "net_config \<Rightarrow> tm_event list \<Rightarrow> bool" where
  "tm_hist_ok cfg \<equiv> hist_ok (net_correct cfg) (net_quorum cfg) NIL_BLOCK_HASH"

section \<open>Steps of one validator\<close>

fun act_events :: "account_id \<Rightarrow> tm_action \<Rightarrow> tm_event list" where
  "act_events p (BroadcastPrevote n r b) = [EvPrevote p n r b]"
| "act_events p (BroadcastPrecommit n r b) = [EvPrecommit p n r b]"
| "act_events p (Commit n r b) = [EvCommit p n r b]"
| "act_events p NoAction = []"
| "act_events p (ScheduleProposal n r) = []"

definition acts_events :: "account_id \<Rightarrow> tm_action list \<Rightarrow> tm_event list" where
  "acts_events p acts = rev (concat (map (act_events p) acts))"

lemma acts_events_simps [simp]:
  "acts_events p [] = []"
  "acts_events p (a # acts) = acts_events p acts @ act_events p a"
  by (cases a; simp add: acts_events_def)+

text \<open>
  Everything that can happen to the machine of validator \<open>p\<close>. A round timeout is taken only
  while the 32-bit round counter has a successor. While a height is undecided, a vote counts
  with the stake its voter has in the validator set of that height.
\<close>

inductive local_step ::
  "net_config \<Rightarrow> account_id \<Rightarrow> tendermint_state \<times> tm_event list \<Rightarrow> tendermint_state \<times> tm_event list \<Rightarrow> bool"
  for cfg p where
  ls_proposal: "on_proposal s n r b vr = (s', a) \<Longrightarrow> local_step cfg p (s, L) (s', act_events p a @ L)"
| ls_prevote: "(net_correct cfg v \<longrightarrow> EvPrevote v n r b \<in> set L) \<Longrightarrow>
    (tm_active s \<longrightarrow> st = stake_of (nc_vset cfg (tm_height s)) v) \<Longrightarrow>
    on_prevote s n r b v st = (s', a) \<Longrightarrow>
    local_step cfg p (s, L) (s', act_events p a @ L)"
| ls_precommit: "(net_correct cfg v \<longrightarrow> signed_precommit L v n r b) \<Longrightarrow>
    (tm_active s \<longrightarrow> st = stake_of (nc_vset cfg (tm_height s)) v) \<Longrightarrow>
    on_precommit s n r b v st = (s', a) \<Longrightarrow>
    local_step cfg p (s, L) (s', act_events p a @ L)"
| ls_timeout: "(tm_step s = StepPrecommit \<longrightarrow> tm_round s < tm_round s + 1) \<Longrightarrow>
    on_timeout s = (s', a) \<Longrightarrow> local_step cfg p (s, L) (s', act_events p a @ L)"
| ls_drain: "tm_active s \<Longrightarrow> drain_buffered_votes s = (s', acts) \<Longrightarrow> local_step cfg p (s, L) (s', acts_events p acts @ L)"
| ls_certificate: "tm_active s \<Longrightarrow> b \<noteq> NIL_BLOCK_HASH \<Longrightarrow>
    tm_signature_quorum cfg L (tm_height s) r b \<Longrightarrow>
    local_step cfg p (s, L) (force_commit s (tm_height s) r b, EvCommit p (tm_height s) r b # L)"
| ls_advance: "tm_height s < n \<Longrightarrow>
    local_step cfg p (s, L) (new_height s n (vs_total_stake (nc_vset cfg n)), L)"

section \<open>The invariant of a correct validator\<close>

definition votes_bounded :: "tm_event list \<Rightarrow> account_id \<Rightarrow> tendermint_state \<Rightarrow> bool" where
  "votes_bounded L p s \<longleftrightarrow>
     (\<forall>n r b. EvPrevote p n r b \<in> set L \<longrightarrow> n \<le> tm_height s \<and>
        (n = tm_height s \<longrightarrow> tm_active s \<longrightarrow> r \<le> tm_round s \<and> (r = tm_round s \<longrightarrow> tm_prevoted s))) \<and>
     (\<forall>n r b. EvPrecommit p n r b \<in> set L \<longrightarrow> n \<le> tm_height s \<and>
        (n = tm_height s \<longrightarrow> tm_active s \<longrightarrow> r \<le> tm_round s \<and> (r = tm_round s \<longrightarrow> tm_precommitted s)))"

definition coll_ok :: "net_config \<Rightarrow> u64 \<Rightarrow> (account_id \<Rightarrow> hash32 \<Rightarrow> bool) \<Rightarrow> vote_collector \<Rightarrow> bool" where
  "coll_ok cfg n E vc \<longleftrightarrow>
     vc_inv (stake_of (nc_vset cfg n)) vc \<and> vc_total_stake vc = vs_total_stake (nc_vset cfg n) \<and>
     (\<forall>v b. v \<in> voters_for vc b \<longrightarrow> net_correct cfg v \<longrightarrow> E v b)"

definition colls_ok :: "net_config \<Rightarrow> tm_event list \<Rightarrow> tendermint_state \<Rightarrow> bool" where
  "colls_ok cfg L s \<longleftrightarrow> (tm_active s \<longrightarrow>
     coll_ok cfg (tm_height s) (\<lambda>v b. EvPrevote v (tm_height s) (tm_round s) b \<in> set L) (tm_prevotes s) \<and>
     coll_ok cfg (tm_height s) (\<lambda>v b. signed_precommit L v (tm_height s) (tm_round s) b) (tm_precommits s))"

fun buffered_ok :: "net_config \<Rightarrow> tm_event list \<Rightarrow> u64 \<Rightarrow> u32 \<Rightarrow> buffered_vote \<Rightarrow> bool" where
  "buffered_ok cfg L n r (v, b, st, is_precommit) \<longleftrightarrow>
     st = stake_of (nc_vset cfg n) v \<and>
     (net_correct cfg v \<longrightarrow>
        (if is_precommit then signed_precommit L v n r b else EvPrevote v n r b \<in> set L))"

definition buffers_ok :: "net_config \<Rightarrow> tm_event list \<Rightarrow> tendermint_state \<Rightarrow> bool" where
  "buffers_ok cfg L s \<longleftrightarrow> (tm_active s \<longrightarrow>
     (\<forall>r vs. map_of (tm_future_votes s) r = Some vs \<longrightarrow> list_all (buffered_ok cfg L (tm_height s) r) vs))"

definition quorums_ok :: "net_config \<Rightarrow> tm_event list \<Rightarrow> tendermint_state \<Rightarrow> bool" where
  "quorums_ok cfg L s \<longleftrightarrow>
     (\<forall>r b. map_of (tm_past_quorums s) (r, b) \<noteq> None \<longrightarrow> tm_polka cfg L (tm_height s) r b)"

definition lock_ok :: "net_config \<Rightarrow> tm_event list \<Rightarrow> account_id \<Rightarrow> tendermint_state \<Rightarrow> bool" where
  "lock_ok cfg L p s \<longleftrightarrow>
     (\<forall>lr lh. tm_locked_round s = Some lr \<longrightarrow> tm_locked_hash s = Some lh \<longrightarrow>
        tm_polka cfg L (tm_height s) lr lh) \<and>
     (\<forall>r b. EvPrecommit p (tm_height s) r b \<in> set L \<longrightarrow> b \<noteq> NIL_BLOCK_HASH \<longrightarrow>
        (\<exists>lr lh. tm_locked_round s = Some lr \<and> tm_locked_hash s = Some lh \<and> r \<le> lr))"

definition node_inv :: "net_config \<Rightarrow> tm_event list \<Rightarrow> account_id \<Rightarrow> tendermint_state \<Rightarrow> bool" where
  "node_inv cfg L p s \<longleftrightarrow>
     tm_shape s \<and> tm_total_stake s = vs_total_stake (nc_vset cfg (tm_height s)) \<and>
     votes_bounded L p s \<and> colls_ok cfg L s \<and> buffers_ok cfg L s \<and> quorums_ok cfg L s \<and>
     lock_ok cfg L p s"

lemma node_invD:
  assumes "node_inv cfg L p s"
  shows "tm_shape s" "tm_total_stake s = vs_total_stake (nc_vset cfg (tm_height s))"
    "votes_bounded L p s" "colls_ok cfg L s" "buffers_ok cfg L s" "quorums_ok cfg L s"
    "lock_ok cfg L p s"
  using assms by (auto simp: node_inv_def)

lemma coll_ok_mono:
  "coll_ok cfg n E vc \<Longrightarrow> (\<And>v b. E v b \<Longrightarrow> E' v b) \<Longrightarrow> coll_ok cfg n E' vc"
  unfolding coll_ok_def by blast

lemma colls_ok_mono: "colls_ok cfg L s \<Longrightarrow> set L \<subseteq> set L' \<Longrightarrow> colls_ok cfg L' s"
  unfolding colls_ok_def by (blast intro: coll_ok_mono signed_precommit_mono)

lemma buffered_ok_mono: "buffered_ok cfg L n r v \<Longrightarrow> set L \<subseteq> set L' \<Longrightarrow> buffered_ok cfg L' n r v"
  by (cases v) (auto intro: signed_precommit_mono)

lemma buffers_ok_mono: "buffers_ok cfg L s \<Longrightarrow> set L \<subseteq> set L' \<Longrightarrow> buffers_ok cfg L' s"
  unfolding buffers_ok_def by (meson buffered_ok_mono list.pred_mono_strong)

lemma quorums_ok_mono: "quorums_ok cfg L s \<Longrightarrow> set L \<subseteq> set L' \<Longrightarrow> quorums_ok cfg L' s"
  unfolding quorums_ok_def by (meson polka_mono)

text \<open>What another validator makes public, or a commit, leaves the invariant in place.\<close>

lemma node_inv_mono:
  assumes inv: "node_inv cfg L q s" and sub: "set L \<subseteq> set L'"
    and pv: "\<And>n r b. EvPrevote q n r b \<in> set L' \<Longrightarrow> EvPrevote q n r b \<in> set L"
    and pc: "\<And>n r b. EvPrecommit q n r b \<in> set L' \<Longrightarrow> EvPrecommit q n r b \<in> set L"
  shows "node_inv cfg L' q s"
proof -
  note d = node_invD [OF inv]
  have "votes_bounded L' q s" using d(3) pv pc unfolding votes_bounded_def by blast
  moreover have "lock_ok cfg L' q s"
    using d(7) pc polka_mono [OF _ sub] unfolding lock_ok_def by blast
  ultimately show ?thesis
    using d sub colls_ok_mono buffers_ok_mono quorums_ok_mono unfolding node_inv_def by blast
qed

section \<open>Counting votes\<close>

lemma coll_ok_new [simp]: "coll_ok cfg n E (vc_new m (vs_total_stake (nc_vset cfg n)))"
  by (simp add: coll_ok_def)

lemma coll_ok_add:
  assumes "coll_ok cfg n E vc" and "net_correct cfg v \<Longrightarrow> E v b"
  shows "coll_ok cfg n E (fst (add_vote_raw vc v b (stake_of (nc_vset cfg n) v)))"
  using assms by (auto simp: coll_ok_def add_vote_raw_inv voters_for_add_vote_raw)

lemma coll_quorum:
  assumes ok: "coll_ok cfg n E vc" and vs: "vs_inv (nc_vset cfg n)"
    and q: "quorum_block_hash vc = Some h"
  shows "net_quorum cfg n (voters_for vc h)"
proof -
  let ?vs = "nc_vset cfg n"
  have inv: "vc_inv (stake_of ?vs) vc" and tot: "vc_total_stake vc = vs_total_stake ?vs"
    using ok by (auto simp: coll_ok_def)
  have sum: "(\<Sum>p \<in> voters_for vc h. unat (stake_of ?vs p)) = stake_in ?vs (voters_for vc h)"
    unfolding stake_in_def
    by (rule sum.mono_neutral_right) (auto simp: finite_voters_for stake_of_nonmember)
  then have "(\<Sum>p \<in> voters_for vc h. unat (stake_of ?vs p)) < 2 ^ 64"
    using le_less_trans [OF stake_in_le_total [OF vs, of "voters_for vc h"] unat_lt] by simp
  then have "unat (voted_stake_for vc h) = stake_in ?vs (voters_for vc h)"
    using voted_stake_for_sum [OF inv] sum by simp
  then show ?thesis
    using quorum_block_hashD [OF q] tot by (simp add: net_quorum_def has_quorum_iff)
qed

lemma prevote_quorum_polka:
  assumes "colls_ok cfg L s" "tm_active s" "vs_inv (nc_vset cfg (tm_height s))"
    and "quorum_block_hash (tm_prevotes s) = Some h"
  shows "tm_polka cfg L (tm_height s) (tm_round s) h"
proof -
  have ok: "coll_ok cfg (tm_height s) (\<lambda>v b. EvPrevote v (tm_height s) (tm_round s) b \<in> set L) (tm_prevotes s)"
    using assms(1,2) by (simp add: colls_ok_def)
  show ?thesis
    unfolding polka_def
    by (rule exI [of _ "voters_for (tm_prevotes s) h"])
      (use ok coll_quorum [OF ok assms(3,4)] in \<open>auto simp: coll_ok_def\<close>)
qed

lemma precommit_quorum_collected:
  assumes "colls_ok cfg L s" "tm_active s" "vs_inv (nc_vset cfg (tm_height s))"
    and "quorum_block_hash (tm_precommits s) = Some h"
  shows "tm_signature_quorum cfg L (tm_height s) (tm_round s) h"
proof -
  have ok: "coll_ok cfg (tm_height s) (\<lambda>v b. signed_precommit L v (tm_height s) (tm_round s) b) (tm_precommits s)"
    using assms(1,2) by (simp add: colls_ok_def)
  show ?thesis
    unfolding signature_quorum_def
    by (rule exI [of _ "voters_for (tm_precommits s) h"])
      (use ok coll_quorum [OF ok assms(3,4)] in \<open>auto simp: coll_ok_def\<close>)
qed

lemmas node_inv_parts =
  node_inv_def votes_bounded_def colls_ok_def buffers_ok_def quorums_ok_def lock_ok_def
  tm_active_def tm_shape_def

lemma node_inv_count_prevote:
  assumes inv: "node_inv cfg L p s" and auth: "net_correct cfg v \<Longrightarrow> EvPrevote v (tm_height s) (tm_round s) b \<in> set L"
    and st: "tm_active s \<Longrightarrow> st = stake_of (nc_vset cfg (tm_height s)) v"
  shows "node_inv cfg L p (s\<lparr>tm_prevotes := fst (add_vote_raw (tm_prevotes s) v b st)\<rparr>)"
  using inv auth st by (auto simp: node_inv_parts intro: coll_ok_add)

lemma node_inv_count_precommit:
  assumes inv: "node_inv cfg L p s" and auth: "net_correct cfg v \<Longrightarrow> signed_precommit L v (tm_height s) (tm_round s) b"
    and st: "tm_active s \<Longrightarrow> st = stake_of (nc_vset cfg (tm_height s)) v"
  shows "node_inv cfg L p (s\<lparr>tm_precommits := fst (add_vote_raw (tm_precommits s) v b st)\<rparr>)"
  using inv auth st by (auto simp: node_inv_parts intro: coll_ok_add)

lemma node_inv_observe:
  assumes inv: "node_inv cfg L p s" and po: "tm_polka cfg L (tm_height s) (tm_round s) h"
  shows "node_inv cfg L p
    (s\<lparr>tm_past_quorums := hm_insert (tm_round s, h) True (tm_past_quorums s),
       tm_valid_round := vr, tm_valid_hash := vh\<rparr>)"
  using inv po by (auto simp: node_inv_parts map_of_hm_insert)

lemma node_inv_buffer:
  assumes inv: "node_inv cfg L p s" and ok: "tm_active s \<Longrightarrow> buffered_ok cfg L (tm_height s) r v"
  shows "node_inv cfg L p (buffer_vote s r v)"
proof -
  have "buffers_ok cfg L (buffer_vote s r v)"
    using node_invD(5) [OF inv] ok
    by (auto simp: buffers_ok_def buffer_vote_def map_of_hm_insert tm_active_def split: option.splits)
  then show ?thesis
    using inv by (simp add: node_inv_def votes_bounded_def colls_ok_def quorums_ok_def
        lock_ok_def tm_active_def buffer_vote_def tm_shape_def)
qed

section \<open>Casting votes\<close>

lemma cast_prevote:
  assumes inv: "node_inv cfg L p s" and hist: "tm_hist_ok cfg L"
    and step: "tm_step s = StepPropose" and allowed: "prevote_allowed s h"
    and s': "s' = s\<lparr>tm_proposal_hash := x, tm_proposal_received := y, tm_prevoted := True,
               tm_step := StepPrevote\<rparr>"
  shows "node_inv cfg (EvPrevote p (tm_height s) (tm_round s) h # L) p s' \<and>
    tm_hist_ok cfg (EvPrevote p (tm_height s) (tm_round s) h # L)"
proof
  let ?e = "EvPrevote p (tm_height s) (tm_round s) h"
  note d = node_invD [OF inv]
  have sub: "set L \<subseteq> set (?e # L)" by auto
  have act: "tm_active s" and flags: "\<not> tm_prevoted s" "\<not> tm_precommitted s"
    using step d(1) by (auto simp: tm_active_def tm_shape_def)
  have "votes_bounded (?e # L) p s'"
    using d(3) act by (auto simp: votes_bounded_def s' tm_active_def)
  moreover have "colls_ok cfg (?e # L) s'"
    using colls_ok_mono [OF d(4) sub] act by (auto simp: colls_ok_def s' tm_active_def)
  moreover have "buffers_ok cfg (?e # L) s'" "quorums_ok cfg (?e # L) s'"
    using buffers_ok_mono [OF d(5) sub] quorums_ok_mono [OF d(6) sub] act
    by (auto simp: buffers_ok_def quorums_ok_def s')
  moreover have "lock_ok cfg (?e # L) p s'"
    using d(7) by (auto simp: lock_ok_def s' intro: polka_Cons)
  ultimately show "node_inv cfg (?e # L) p s'"
    using d(2) flags by (simp add: node_inv_def s' tm_shape_def)
  show "tm_hist_ok cfg (?e # L)"
  proof (rule hist_ok_prevote [OF hist])
    show "EvPrevote p (tm_height s) (tm_round s) b' \<notin> set L" for b'
      using d(3) act flags by (auto simp: votes_bounded_def)
  next
    fix r0 b0
    assume "EvPrecommit p (tm_height s) r0 b0 \<in> set L" "b0 \<noteq> NIL_BLOCK_HASH" and h: "h \<noteq> NIL_BLOCK_HASH"
    then obtain lr lh where l: "tm_locked_round s = Some lr" "tm_locked_hash s = Some lh" "r0 \<le> lr"
      using d(7) unfolding lock_ok_def by blast
    show "\<exists>vr \<ge> r0. tm_polka cfg L (tm_height s) vr h"
    proof (cases "lh = h")
      case True
      then show ?thesis using l d(7) by (auto simp: lock_ok_def)
    next
      case False
      then obtain vr where "lr \<le> vr" "map_of (tm_past_quorums s) (vr, h) \<noteq> None"
        using allowed h l unfolding prevote_allowed_def by auto
      then show ?thesis using d(6) l(3) unfolding quorums_ok_def by (meson order_trans)
    qed
  qed
qed

text \<open>A precommit for \<open>h\<close> locks \<open>h\<close>; a precommit for nil leaves the lock alone.\<close>

lemma cast_precommit:
  assumes inv: "node_inv cfg L p s" and hist: "tm_hist_ok cfg L"
    and step: "tm_step s = StepPrevote"
    and po: "h \<noteq> NIL_BLOCK_HASH \<Longrightarrow> tm_polka cfg L (tm_height s) (tm_round s) h"
    and s': "s' = (if h = NIL_BLOCK_HASH then s
                   else s\<lparr>tm_locked_round := Some (tm_round s), tm_locked_hash := Some h\<rparr>)
               \<lparr>tm_step := StepPrecommit, tm_precommitted := True\<rparr>"
  shows "node_inv cfg (EvPrecommit p (tm_height s) (tm_round s) h # L) p s' \<and>
    tm_hist_ok cfg (EvPrecommit p (tm_height s) (tm_round s) h # L)"
proof
  let ?e = "EvPrecommit p (tm_height s) (tm_round s) h"
  note d = node_invD [OF inv]
  have sub: "set L \<subseteq> set (?e # L)" by auto
  have act: "tm_active s" and flags: "tm_prevoted s"
    using step d(1) by (auto simp: tm_active_def tm_shape_def)
  have frame: "tm_height s' = tm_height s" "tm_round s' = tm_round s" "tm_prevotes s' = tm_prevotes s"
    "tm_precommits s' = tm_precommits s" "tm_future_votes s' = tm_future_votes s"
    "tm_past_quorums s' = tm_past_quorums s" "tm_total_stake s' = tm_total_stake s"
    "tm_prevoted s' = tm_prevoted s" "tm_precommitted s'" "tm_step s' = StepPrecommit" "tm_active s'"
    by (simp_all add: s' tm_active_def)
  have vb: "votes_bounded (?e # L) p s'"
    using d(3) act by (auto simp: votes_bounded_def frame)
  moreover have "colls_ok cfg (?e # L) s'"
    using colls_ok_mono [OF d(4) sub] act by (auto simp: colls_ok_def frame)
  moreover have "buffers_ok cfg (?e # L) s'" "quorums_ok cfg (?e # L) s'"
    using buffers_ok_mono [OF d(5) sub] quorums_ok_mono [OF d(6) sub] act
    by (auto simp: buffers_ok_def quorums_ok_def frame)
  moreover have "lock_ok cfg (?e # L) p s'"
  proof (cases "h = NIL_BLOCK_HASH")
    case True
    then show ?thesis using d(7) by (auto simp: lock_ok_def s' intro: polka_Cons)
  next
    case False
    have "r \<le> tm_round s" if "EvPrecommit p (tm_height s) r b \<in> set L" for r b
      using that d(3) act unfolding votes_bounded_def by blast
    then show ?thesis
      using False polka_Cons [OF po [OF False], of ?e] by (auto simp: lock_ok_def s')
  qed
  ultimately show "node_inv cfg (?e # L) p s'"
    using d(2) flags by (simp add: node_inv_def frame tm_shape_def)
  show "tm_hist_ok cfg (?e # L)"
    by (rule hist_ok_precommit [OF hist])
      (use po d(3) act in \<open>auto simp: votes_bounded_def\<close>)
qed

lemma node_inv_commit_wait:
  assumes "node_inv cfg L p s"
  shows "node_inv cfg L p (s\<lparr>tm_step := StepCommitWait, tm_committed_hash := x\<rparr>)"
    and "node_inv cfg L p (s\<lparr>tm_round := r, tm_step := StepCommitWait, tm_committed_hash := x\<rparr>)"
  using assms by (simp_all add: node_inv_parts)

lemma cast_commit:
  assumes inv: "node_inv cfg L p s" and hist: "tm_hist_ok cfg L"
    and h: "h \<noteq> NIL_BLOCK_HASH" "tm_signature_quorum cfg L n r h"
  shows "node_inv cfg (EvCommit p n r h # L) p s \<and> tm_hist_ok cfg (EvCommit p n r h # L)"
proof
  show "node_inv cfg (EvCommit p n r h # L) p s"
    using inv by (rule node_inv_mono) auto
  show "tm_hist_ok cfg (EvCommit p n r h # L)"
    using hist h(1) signature_quorum_precommits [OF hist h(2)] by (rule hist_ok_commit)
qed

section \<open>Every step keeps the invariant\<close>

definition good :: "net_config \<Rightarrow> account_id \<Rightarrow> tendermint_state \<times> tm_event list \<Rightarrow> bool" where
  "good cfg p x \<longleftrightarrow> node_inv cfg (snd x) p (fst x) \<and> tm_hist_ok cfg (snd x)"

lemma goodI: "node_inv cfg L p s \<Longrightarrow> tm_hist_ok cfg L \<Longrightarrow> good cfg p (s, L)"
  by (simp add: good_def)

lemma goodD: "good cfg p (s, L) \<Longrightarrow> node_inv cfg L p s" "good cfg p (s, L) \<Longrightarrow> tm_hist_ok cfg L"
  by (simp_all add: good_def)

lemma good_proposal:
  assumes g: "good cfg p (s, L)" and run: "on_proposal s n r b vr = (s', a)"
  shows "good cfg p (s', act_events p a @ L)"
  using node_invD(1) [OF goodD(1) [OF g]]
proof (cases rule: on_proposal_cases [of s n r b vr])
  case ignored
  with run g show ?thesis by simp
next
  case (prevoted h)
  with run have "s' = s\<lparr>tm_proposal_hash := Some b, tm_proposal_received := True,
      tm_prevoted := True, tm_step := StepPrevote\<rparr>"
    and a: "a = BroadcastPrevote (tm_height s) (tm_round s) h" by auto
  from cast_prevote [OF goodD [OF g] prevoted(1,5) this(1)] show ?thesis
    by (simp add: good_def a)
qed

lemma good_prevote:
  assumes v: "net_valid cfg" and g: "good cfg p (s, L)"
    and auth: "net_correct cfg w \<Longrightarrow> EvPrevote w n r b \<in> set L"
    and st: "tm_active s \<Longrightarrow> st = stake_of (nc_vset cfg (tm_height s)) w"
    and run: "on_prevote s n r b w st = (s', a)"
  shows "good cfg p (s', act_events p a @ L)"
proof -
  let ?s1 = "s\<lparr>tm_prevotes := fst (add_vote_raw (tm_prevotes s) w b st)\<rparr>"
  note inv = goodD(1) [OF g] and hist = goodD(2) [OF g]
  have po: "tm_polka cfg L (tm_height ?s1) (tm_round ?s1) h"
    if "node_inv cfg L p ?s1" "tm_active s" "quorum_block_hash (tm_prevotes ?s1) = Some h" for h
    by (rule prevote_quorum_polka)
      (use that net_validD(1) [OF v] in \<open>auto dest: node_invD simp: tm_active_def\<close>)
  show ?thesis
    using node_invD(1) [OF inv]
  proof (cases rule: on_prevote_cases [of s n r b w st])
    case ignored
    with run g show ?thesis by simp
  next
    case buffered
    then have "node_inv cfg L p (buffer_vote s r (w, b, st, False))"
      using auth st by (intro node_inv_buffer [OF inv]) auto
    with buffered run hist show ?thesis by (auto intro: goodI)
  next
    case (counted s1)
    then have "node_inv cfg L p s1" using node_inv_count_prevote [OF inv] auth st by simp
    with counted run hist show ?thesis by (auto intro: goodI)
  next
    case (observed s1 h)
    then have s1: "node_inv cfg L p s1" using node_inv_count_prevote [OF inv] auth st by simp
    have "tm_polka cfg L (tm_height s1) (tm_round s1) h" using po s1 observed by simp
    from node_inv_observe [OF s1 this] show ?thesis
      using observed run hist by (auto intro: goodI)
  next
    case (locked s1 h)
    then have s1: "node_inv cfg L p s1" using node_inv_count_prevote [OF inv] auth st by simp
    have h: "tm_polka cfg L (tm_height s1) (tm_round s1) h"
      using po s1 locked by (simp add: tm_active_def)
    let ?s2 = "s1\<lparr>tm_past_quorums := hm_insert (tm_round s1, h) True (tm_past_quorums s1),
       tm_valid_round := Some (tm_round s1), tm_valid_hash := Some h\<rparr>"
    have "node_inv cfg L p ?s2" using node_inv_observe [OF s1 h] .
    from cast_precommit [OF this hist, of h, OF _ _ refl] show ?thesis
      using locked run h by (auto simp: good_def)
  next
    case (nil_quorum s1)
    then have s1: "node_inv cfg L p s1" using node_inv_count_prevote [OF inv] auth st by simp
    from cast_precommit [OF this hist, of NIL_BLOCK_HASH, OF _ _ refl] show ?thesis
      using nil_quorum run by (auto simp: good_def)
  qed
qed

lemma good_precommit:
  assumes v: "net_valid cfg" and g: "good cfg p (s, L)"
    and auth: "net_correct cfg w \<Longrightarrow> signed_precommit L w n r b"
    and st: "tm_active s \<Longrightarrow> st = stake_of (nc_vset cfg (tm_height s)) w"
    and run: "on_precommit s n r b w st = (s', a)"
  shows "good cfg p (s', act_events p a @ L)"
proof -
  note inv = goodD(1) [OF g] and hist = goodD(2) [OF g]
  show ?thesis
  proof (cases rule: on_precommit_cases [of s n r b w st])
    case ignored
    with run g show ?thesis by simp
  next
    case buffered
    then have "node_inv cfg L p (buffer_vote s r (w, b, st, True))"
      using auth st by (intro node_inv_buffer [OF inv]) auto
    with buffered run hist show ?thesis by (auto intro: goodI)
  next
    case (counted s1)
    then have "node_inv cfg L p s1" using node_inv_count_precommit [OF inv] auth st by simp
    with counted run hist show ?thesis by (auto intro: goodI)
  next
    case (committed s1 h)
    then have s1: "node_inv cfg L p s1" using node_inv_count_precommit [OF inv] auth st by simp
    have q: "tm_signature_quorum cfg L (tm_height s1) (tm_round s1) h"
      by (rule precommit_quorum_collected)
        (use s1 committed net_validD(1) [OF v] in \<open>auto dest: node_invD simp: tm_active_def\<close>)
    from cast_commit [OF node_inv_commit_wait(1) [OF s1] hist committed(6) q] show ?thesis
      using committed run by (auto simp: good_def)
  qed
qed

lemma node_inv_new_round:
  assumes inv: "node_inv cfg L p s" and act: "tm_active s" and r: "tm_round s < r"
  shows "node_inv cfg L p (new_round s r)"
proof -
  note d = node_invD [OF inv]
  have "votes_bounded L p (new_round s r)"
    using d(3) act r unfolding votes_bounded_def new_round_def by fastforce
  moreover have "colls_ok cfg L (new_round s r)"
    using d(2) by (simp add: colls_ok_def new_round_def)
  ultimately show ?thesis
    using d act by (simp add: node_inv_def buffers_ok_def quorums_ok_def lock_ok_def new_round_def tm_shape_def)
qed

lemma node_inv_new_height:
  assumes inv: "node_inv cfg L p s" and n: "tm_height s < n"
  shows "node_inv cfg L p (new_height s n (vs_total_stake (nc_vset cfg n)))"
proof -
  note d = node_invD [OF inv]
  have "m \<le> tm_height s" if "EvPrevote p m r b \<in> set L \<or> EvPrecommit p m r b \<in> set L" for m r b
    using that d(3) unfolding votes_bounded_def by blast
  with n have "m < n" if "EvPrevote p m r b \<in> set L \<or> EvPrecommit p m r b \<in> set L" for m r b
    using that by fastforce
  then show ?thesis
    unfolding node_inv_parts new_height_def
    by (auto simp: order.strict_iff_order)
qed

lemma good_timeout:
  assumes g: "good cfg p (s, L)" and room: "tm_step s = StepPrecommit \<Longrightarrow> tm_round s < tm_round s + 1"
    and run: "on_timeout s = (s', a)"
  shows "good cfg p (s', act_events p a @ L)"
proof -
  note inv = goodD(1) [OF g] and hist = goodD(2) [OF g]
  note shape = node_invD(1) [OF inv]
  show ?thesis
  proof (cases "tm_step s")
    case StepPropose
    then have s': "s' = s\<lparr>tm_proposal_hash := tm_proposal_hash s, tm_proposal_received := tm_proposal_received s,
        tm_prevoted := True, tm_step := StepPrevote\<rparr>"
      and "a = BroadcastPrevote (tm_height s) (tm_round s) NIL_BLOCK_HASH"
      using run shape by (auto simp: on_timeout_def on_propose_timeout_def do_prevote_def tm_shape_def)
    with cast_prevote [OF inv hist StepPropose _ s', of NIL_BLOCK_HASH] show ?thesis
      by (simp add: good_def prevote_allowed_def)
  next
    case StepPrevote
    then show ?thesis
      using run shape cast_precommit [OF inv hist StepPrevote, of NIL_BLOCK_HASH]
      by (auto simp: on_timeout_def on_prevote_timeout_def do_precommit_def tm_shape_def good_def)
  next
    case StepPrecommit
    then have "s' = new_round s (tm_round s + 1)" "act_events p a = []" "tm_active s"
      using run by (auto simp: on_timeout_def on_precommit_timeout_def Let_def tm_active_def)
    with node_inv_new_round [OF inv] room StepPrecommit hist show ?thesis by (simp add: good_def)
  next
    case StepCommitWait
    then have "s' = s\<lparr>tm_step := StepCommitted\<rparr>" "a = NoAction"
      using run by (auto simp: on_timeout_def on_commit_wait_timeout_def)
    with inv hist show ?thesis
      using StepCommitWait by (simp add: good_def node_inv_parts)
  next
    case StepCommitted
    with run g show ?thesis by (simp add: on_timeout_def)
  qed
qed

section \<open>Replaying buffered votes\<close>

lemma on_prevote_frame:
  assumes "tm_shape s" and run: "on_prevote s n r b v st = (s', a)"
  shows "tm_height s' = tm_height s" "tm_round s' = tm_round s"
  using assms by (auto simp: buffer_vote_def elim!: on_prevote_cases [of s n r b v st])

lemma on_precommit_frame:
  assumes run: "on_precommit s n r b v st = (s', a)"
  shows "tm_height s' = tm_height s" "tm_round s' = tm_round s"
  using run by (auto simp: on_precommit_def Let_def buffer_vote_def split: if_splits option.splits)

lemma good_replay:
  assumes v: "net_valid cfg" and g: "good cfg p (s, L)"
    and votes: "list_all (buffered_ok cfg L (tm_height s) (tm_round s)) votes"
    and run: "replay_votes s votes = (s', acts)"
  shows "good cfg p (s', acts_events p acts @ L)"
  using g votes run
proof (induction votes arbitrary: s L s' acts)
  case Nil
  then show ?case by simp
next
  case (Cons bv votes)
  obtain w b st ip where bv: "bv = (w, b, st, ip)" by (cases bv)
  let ?op = "if ip then on_precommit s (tm_height s) (tm_round s) b w st
             else on_prevote s (tm_height s) (tm_round s) b w st"
  obtain s1 a where op: "?op = (s1, a)" by (cases ?op)
  obtain acts1 where rest: "replay_votes s1 votes = (s', acts1)"
      "acts = (if a \<noteq> NoAction then a # acts1 else acts1)"
    using Cons.prems(3) op by (auto simp: bv split: prod.splits)
  have ok: "st = stake_of (nc_vset cfg (tm_height s)) w"
      "net_correct cfg w \<Longrightarrow> (if ip then signed_precommit L w (tm_height s) (tm_round s) b
        else EvPrevote w (tm_height s) (tm_round s) b \<in> set L)"
    using Cons.prems(2) by (auto simp: bv)
  have shape: "tm_shape s" using Cons.prems(1) by (auto dest: goodD node_invD)
  have g1: "good cfg p (s1, act_events p a @ L)"
  proof (cases ip)
    case True
    show ?thesis
      by (rule good_precommit [OF v Cons.prems(1), of w "tm_height s" "tm_round s" b])
        (use True op ok in auto)
  next
    case False
    show ?thesis
      by (rule good_prevote [OF v Cons.prems(1), of w "tm_height s" "tm_round s" b])
        (use False op ok in auto)
  qed
  have frame: "tm_height s1 = tm_height s" "tm_round s1 = tm_round s"
    using op on_prevote_frame [OF shape] on_precommit_frame by (cases ip; simp; metis)+
  have "list_all (buffered_ok cfg (act_events p a @ L) (tm_height s1) (tm_round s1)) votes"
    using Cons.prems(2) frame by (auto simp: list_all_iff intro: buffered_ok_mono)
  from Cons.IH [OF g1 this rest(1)] show ?case
    using rest(2) by (cases "a = NoAction") auto
qed

lemma map_of_filter_key: "map_of (filter (\<lambda>(k, v). P k) m) k = (if P k then map_of m k else None)"
  by (induction m) auto

lemma good_drain:
  assumes v: "net_valid cfg" and g: "good cfg p (s, L)" and act: "tm_active s"
    and run: "drain_buffered_votes s = (s', acts)"
  shows "good cfg p (s', acts_events p acts @ L)"
proof (cases "map_of (tm_future_votes s) (tm_round s)")
  case None
  with run g show ?thesis by (simp add: drain_buffered_votes_def)
next
  case (Some votes)
  define fv where "fv = (if tm_round s > 0
      then filter (\<lambda>(r, vs). r \<ge> tm_round s) (hm_remove (tm_round s) (tm_future_votes s))
      else hm_remove (tm_round s) (tm_future_votes s))"
  have replay: "replay_votes (s\<lparr>tm_future_votes := fv\<rparr>) votes = (s', acts)"
    using run Some by (simp add: drain_buffered_votes_def fv_def Let_def split: if_splits)
  note inv = goodD(1) [OF g]
  have "map_of fv r = Some vs \<Longrightarrow> map_of (tm_future_votes s) r = Some vs" for r vs
    by (auto simp: fv_def map_of_filter_key map_of_hm_remove split: if_splits)
  then have "buffers_ok cfg L (s\<lparr>tm_future_votes := fv\<rparr>)"
    using node_invD(5) [OF inv] act by (simp add: buffers_ok_def)
  then have "good cfg p (s\<lparr>tm_future_votes := fv\<rparr>, L)"
    using g by (simp add: good_def node_inv_parts)
  moreover have "list_all (buffered_ok cfg L (tm_height s) (tm_round s)) votes"
    using node_invD(5) [OF inv] Some act by (simp add: buffers_ok_def)
  ultimately show ?thesis
    using good_replay [OF v _ _ replay, of p L] by simp
qed

text \<open>Every step of a validator keeps its invariant and the history laws.\<close>

lemma local_step_good:
  assumes v: "net_valid cfg" and step: "local_step cfg p x y" and g: "good cfg p x"
  shows "good cfg p y"
  using step g
proof (induction rule: local_step.induct)
  case (ls_proposal s n r b vr s' a L)
  show ?case by (rule good_proposal [OF ls_proposal(2,1)])
next
  case (ls_prevote w n r b L s st s' a)
  show ?case by (rule good_prevote [OF v ls_prevote(4) _ _ ls_prevote(3)]) (use ls_prevote(1,2) in blast)+
next
  case (ls_precommit w n r b L s st s' a)
  show ?case by (rule good_precommit [OF v ls_precommit(4) _ _ ls_precommit(3)]) (use ls_precommit(1,2) in blast)+
next
  case (ls_timeout s s' a L)
  show ?case by (rule good_timeout [OF ls_timeout(3) _ ls_timeout(2)]) (use ls_timeout(1) in blast)
next
  case (ls_drain s s' acts L)
  show ?case by (rule good_drain [OF v ls_drain(3,1,2)])
next
  case (ls_certificate s b L r)
  from cast_commit [OF node_inv_commit_wait(2) [OF goodD(1)] goodD(2), OF ls_certificate(4,4,2,3)]
  show ?case by (simp add: good_def force_commit_def)
next
  case (ls_advance s n L)
  then show ?case using node_inv_new_height by (simp add: good_def)
qed

text \<open>A step only adds events of its own validator to the history.\<close>

fun ev_actor :: "tm_event \<Rightarrow> account_id" where
  "ev_actor (EvPrevote p n r b) = p"
| "ev_actor (EvPrecommit p n r b) = p"
| "ev_actor (EvCommit p n r b) = p"

lemma act_events_actor: "e \<in> set (act_events p a) \<Longrightarrow> ev_actor e = p"
  by (cases a) auto

lemma acts_events_actor: "e \<in> set (acts_events p acts) \<Longrightarrow> ev_actor e = p"
  by (induction acts) (auto dest: act_events_actor)

lemma local_step_log:
  assumes "local_step cfg p (s, L) (s', L')"
  shows "\<exists>N. L' = N @ L \<and> (\<forall>e \<in> set N. ev_actor e = p)"
  using assms
proof cases
  case (ls_certificate b r)
  then show ?thesis by (intro exI [of _ "[EvCommit p (tm_height s) r b]"]) simp
qed (auto dest: act_events_actor acts_events_actor)

lemma node_inv_other:
  assumes inv: "node_inv cfg L q s" and N: "\<And>e. e \<in> set N \<Longrightarrow> ev_actor e \<noteq> q"
  shows "node_inv cfg (N @ L) q s"
  using inv by (rule node_inv_mono) (use N in fastforce)+

end
