(* ===== verification/Round_Timer.thy ===== *)
theory Round_Timer
  imports Tendermint
begin

text \<open>
  Round timeouts (\<open>ace-consensus/src/round_timer.rs\<close>). Instants and durations are natural
  numbers of milliseconds; a method that reads the clock takes the current instant as an
  argument. The latency statistics kept beside the timer are not part of the model.
\<close>

record timeout_config =
  tc_propose_ms :: u64
  tc_prevote_ms :: u64
  tc_precommit_ms :: u64
  tc_delta_ms :: u64
  tc_commit_wait_ms :: u64

definition timeout_config_default :: timeout_config where
  "timeout_config_default =
     \<lparr>tc_propose_ms = 3000, tc_prevote_ms = 1000, tc_precommit_ms = 1000,
      tc_delta_ms = 500, tc_commit_wait_ms = 200\<rparr>"

definition timeout_config_devnet :: timeout_config where
  "timeout_config_devnet =
     \<lparr>tc_propose_ms = 2000, tc_prevote_ms = 1000, tc_precommit_ms = 1000,
      tc_delta_ms = 500, tc_commit_wait_ms = 200\<rparr>"

record round_timer =
  rt_config :: timeout_config
  rt_step_started :: nat
  rt_current_step :: round_step
  rt_current_round :: u32
  rt_height_start :: nat
  rt_round_start :: nat

definition rt_new :: "timeout_config \<Rightarrow> nat \<Rightarrow> round_timer" where
  "rt_new config now =
     \<lparr>rt_config = config, rt_step_started = now, rt_current_step = StepPropose,
      rt_current_round = 0, rt_height_start = now, rt_round_start = now\<rparr>"

definition start_step :: "round_timer \<Rightarrow> nat \<Rightarrow> u32 \<Rightarrow> round_step \<Rightarrow> round_timer" where
  "start_step t now rnd step =
     (let t1 = (if step = StepPropose then t\<lparr>rt_round_start := now\<rparr> else t) in
      t1\<lparr>rt_current_round := rnd, rt_current_step := step, rt_step_started := now\<rparr>)"

definition rt_reset :: "round_timer \<Rightarrow> nat \<Rightarrow> round_timer" where
  "rt_reset t now =
     t\<lparr>rt_height_start := now, rt_round_start := now, rt_step_started := now,
       rt_current_round := 0, rt_current_step := StepPropose\<rparr>"

definition height_elapsed_ms :: "round_timer \<Rightarrow> nat \<Rightarrow> nat" where
  "height_elapsed_ms t now = now - rt_height_start t"

definition round_elapsed_ms :: "round_timer \<Rightarrow> nat \<Rightarrow> nat" where
  "round_elapsed_ms t now = now - rt_round_start t"

text \<open>\<open>u64::MAX / 2\<close> for a committed height, which then never times out in practice.\<close>

definition timeout_for :: "timeout_config \<Rightarrow> u32 \<Rightarrow> round_step \<Rightarrow> u64" where
  "timeout_for c rnd step =
     (case step of
        StepCommitWait \<Rightarrow> tc_commit_wait_ms c
      | _ \<Rightarrow>
        (let base_ms = (case step of
              StepPropose \<Rightarrow> tc_propose_ms c
            | StepPrevote \<Rightarrow> tc_prevote_ms c
            | StepPrecommit \<Rightarrow> tc_precommit_ms c
            | _ \<Rightarrow> (-1) div 2)
         in saturating_add base_ms (saturating_mul (ucast rnd) (tc_delta_ms c))))"

definition timeout_duration :: "round_timer \<Rightarrow> nat" where
  "timeout_duration t = unat (timeout_for (rt_config t) (rt_current_round t) (rt_current_step t))"

definition is_timed_out :: "round_timer \<Rightarrow> nat \<Rightarrow> bool" where
  "is_timed_out t now \<longleftrightarrow> timeout_duration t \<le> now - rt_step_started t"

definition time_remaining :: "round_timer \<Rightarrow> nat \<Rightarrow> nat" where
  "time_remaining t now = timeout_duration t - (now - rt_step_started t)"

definition step_deadline :: "round_timer \<Rightarrow> nat" where
  "step_deadline t = rt_step_started t + timeout_duration t"

section \<open>Timeouts grow with the round\<close>

lemma unat_ucast_u32 [simp]: "unat (ucast (r :: u32) :: u64) = unat r"
  by (simp add: unsigned_ucast_eq take_bit_nat_eq_self order_less_le_trans [OF unat_lt])

lemma unat_timeout_for:
  "unat (timeout_for c r step) =
     (case step of
        StepPropose \<Rightarrow> min (unat (tc_propose_ms c) + unat r * unat (tc_delta_ms c)) (2 ^ 64 - 1)
      | StepPrevote \<Rightarrow> min (unat (tc_prevote_ms c) + unat r * unat (tc_delta_ms c)) (2 ^ 64 - 1)
      | StepPrecommit \<Rightarrow> min (unat (tc_precommit_ms c) + unat r * unat (tc_delta_ms c)) (2 ^ 64 - 1)
      | StepCommitWait \<Rightarrow> unat (tc_commit_wait_ms c)
      | StepCommitted \<Rightarrow> min (unat ((-1) div 2 :: u64) + unat r * unat (tc_delta_ms c)) (2 ^ 64 - 1))"
  by (cases step) (auto simp: timeout_for_def Let_def unat_saturating_add unat_saturating_mul)

text \<open>
  The three voting steps have exactly \<open>base + round * delta\<close>, saturating at the largest
  64-bit value; the commit wait does not grow. So the timeouts never shrink from one round to
  a later one, and with a positive increment every bound is eventually exceeded.
\<close>

lemma timeout_for_mono: "r \<le> r' \<Longrightarrow> unat (timeout_for c r step) \<le> unat (timeout_for c r' step)"
  by (cases step) (auto simp: unat_timeout_for word_le_nat_alt min_le_iff_disj intro!: mult_le_mono1)

lemma is_timed_out_iff_deadline:
  "rt_step_started t \<le> now \<Longrightarrow> is_timed_out t now \<longleftrightarrow> step_deadline t \<le> now"
  by (auto simp: is_timed_out_def step_deadline_def)

lemma time_remaining_zero_iff: "time_remaining t now = 0 \<longleftrightarrow> is_timed_out t now"
  by (auto simp: time_remaining_def is_timed_out_def)

section \<open>Properties\<close>



end
