(* ===== verification/Wal.thy ===== *)
theory Wal
  imports Ace_Prelude
begin

text \<open>
  The consensus write-ahead log (\<open>ace-consensus/src/wal.rs\<close>). The file is the list of its
  entries, oldest first, or \<open>None\<close> for the no-op log; the JSON encoding of a line is not
  modelled.
\<close>

datatype wal_entry =
    WalProposal u64 u32 hash32
  | WalPrevote u64 u32 hash32
  | WalPrecommit u64 u32 hash32
  | WalLock u64 u32 hash32
  | WalHeightAdvance u64

type_synonym consensus_wal = "wal_entry list option"

definition wal_noop :: consensus_wal where
  "wal_noop = None"

definition wal_write :: "consensus_wal \<Rightarrow> wal_entry \<Rightarrow> consensus_wal" where
  "wal_write w e = (case w of None \<Rightarrow> None | Some es \<Rightarrow> Some (es @ [e]))"

definition wal_read_all :: "consensus_wal \<Rightarrow> wal_entry list" where
  "wal_read_all w = (case w of None \<Rightarrow> [] | Some es \<Rightarrow> es)"

definition wal_truncate :: "consensus_wal \<Rightarrow> consensus_wal" where
  "wal_truncate w = (case w of None \<Rightarrow> None | Some es \<Rightarrow> Some [])"

record wal_recovery =
  rec_height :: u64
  rec_locked_round :: "u32 option"
  rec_locked_hash :: "hash32 option"
  rec_prevoted_round :: "u32 option"
  rec_prevoted_hash :: "hash32 option"
  rec_precommitted_round :: "u32 option"
  rec_precommitted_hash :: "hash32 option"

definition recovery_default :: wal_recovery where
  "recovery_default =
     \<lparr>rec_height = 0, rec_locked_round = None, rec_locked_hash = None,
      rec_prevoted_round = None, rec_prevoted_hash = None,
      rec_precommitted_round = None, rec_precommitted_hash = None\<rparr>"

fun recover_entry :: "wal_recovery \<Rightarrow> wal_entry \<Rightarrow> wal_recovery" where
  "recover_entry rc (WalHeightAdvance new_height) = recovery_default\<lparr>rec_height := new_height\<rparr>"
| "recover_entry rc (WalLock height rnd block_hash) =
     (if height \<ge> rec_height rc
      then rc\<lparr>rec_height := height, rec_locked_round := Some rnd, rec_locked_hash := Some block_hash\<rparr>
      else rc)"
| "recover_entry rc (WalPrevote height rnd block_hash) =
     (if height \<ge> rec_height rc
      then rc\<lparr>rec_height := height, rec_prevoted_round := Some rnd, rec_prevoted_hash := Some block_hash\<rparr>
      else rc)"
| "recover_entry rc (WalPrecommit height rnd block_hash) =
     (if height \<ge> rec_height rc
      then rc\<lparr>rec_height := height, rec_precommitted_round := Some rnd,
              rec_precommitted_hash := Some block_hash\<rparr>
      else rc)"
| "recover_entry rc (WalProposal height rnd block_hash) =
     (if height \<ge> rec_height rc then rc\<lparr>rec_height := height\<rparr> else rc)"

fun recover_entries :: "wal_recovery \<Rightarrow> wal_entry list \<Rightarrow> wal_recovery" where
  "recover_entries rc [] = rc"
| "recover_entries rc (e # es) = recover_entries (recover_entry rc e) es"

definition wal_recover :: "consensus_wal \<Rightarrow> wal_recovery" where
  "wal_recover w = recover_entries recovery_default (wal_read_all w)"

section \<open>What recovery returns\<close>

lemma recover_entries_append:
  "recover_entries rc (es @ es') = recover_entries (recover_entries rc es) es'"
  by (induction es arbitrary: rc) auto

lemma wal_recover_write:
  "wal_recover (wal_write (Some es) e) = recover_entry (wal_recover (Some es)) e"
  by (simp add: wal_recover_def wal_write_def wal_read_all_def recover_entries_append)

fun entry_height :: "wal_entry \<Rightarrow> u64" where
  "entry_height (WalProposal h r b) = h"
| "entry_height (WalPrevote h r b) = h"
| "entry_height (WalPrecommit h r b) = h"
| "entry_height (WalLock h r b) = h"
| "entry_height (WalHeightAdvance h) = h"

text \<open>The newest entry of a kind at height \<open>h\<close>, where nothing newer belongs to another height.\<close>

fun last_lock :: "wal_entry list \<Rightarrow> (u32 \<times> hash32) option" where
  "last_lock [] = None"
| "last_lock (e # es) =
     (case last_lock es of Some l \<Rightarrow> Some l
      | None \<Rightarrow> (case e of WalLock h r b \<Rightarrow> Some (r, b) | _ \<Rightarrow> None))"

fun last_prevote :: "wal_entry list \<Rightarrow> (u32 \<times> hash32) option" where
  "last_prevote [] = None"
| "last_prevote (e # es) =
     (case last_prevote es of Some l \<Rightarrow> Some l
      | None \<Rightarrow> (case e of WalPrevote h r b \<Rightarrow> Some (r, b) | _ \<Rightarrow> None))"

definition rec_lock :: "wal_recovery \<Rightarrow> (u32 \<times> hash32) option" where
  "rec_lock rc = (case (rec_locked_round rc, rec_locked_hash rc) of
     (Some r, Some b) \<Rightarrow> Some (r, b) | _ \<Rightarrow> None)"

definition rec_prevote :: "wal_recovery \<Rightarrow> (u32 \<times> hash32) option" where
  "rec_prevote rc = (case (rec_prevoted_round rc, rec_prevoted_hash rc) of
     (Some r, Some b) \<Rightarrow> Some (r, b) | _ \<Rightarrow> None)"

definition same_height_entry :: "u64 \<Rightarrow> wal_entry \<Rightarrow> bool" where
  "same_height_entry h e \<longleftrightarrow> entry_height e = h \<and> (\<forall>h'. e \<noteq> WalHeightAdvance h')"

lemma recover_entries_lock:
  assumes "\<forall>e \<in> set es. same_height_entry h e" and "rec_height rc = h"
  shows "rec_height (recover_entries rc es) = h"
    "rec_lock (recover_entries rc es) = (case last_lock es of Some l \<Rightarrow> Some l | None \<Rightarrow> rec_lock rc)"
    "rec_prevote (recover_entries rc es) =
       (case last_prevote es of Some l \<Rightarrow> Some l | None \<Rightarrow> rec_prevote rc)"
proof (atomize (full), insert assms, induction es arbitrary: rc)
  case (Cons e es)
  have e: "rec_height (recover_entry rc e) = h"
    "rec_lock (recover_entry rc e) = (case e of WalLock h r b \<Rightarrow> Some (r, b) | _ \<Rightarrow> rec_lock rc)"
    "rec_prevote (recover_entry rc e) = (case e of WalPrevote h r b \<Rightarrow> Some (r, b) | _ \<Rightarrow> rec_prevote rc)"
    using Cons.prems by (cases e; simp add: same_height_entry_def rec_lock_def rec_prevote_def)+
  show ?case
    using Cons.IH [of "recover_entry rc e"] Cons.prems e
    by (auto split: option.split wal_entry.split)
qed (simp add: rec_lock_def)

lemma recover_after_advance:
  "recover_entries rc (es @ WalHeightAdvance h # es') =
   recover_entries (recovery_default\<lparr>rec_height := h\<rparr>) es'"
  by (simp add: recover_entries_append)

section \<open>Properties\<close>



end
