(* ===== verification/Node_Consensus.thy ===== *)
theory Node_Consensus
  imports Tendermint_Net Round_Timer Wal
begin

text \<open>
  The consensus loop of a validator node (\<open>ace-node/src/node.rs\<close>): the handlers for
  proposals, prevotes, precommits, commit certificates, timeouts and finished commits, and
  \<open>execute_tendermint_action\<close>, which feeds the node's own votes back into its machine, sends
  them, and writes the log. What a handler sends and writes is returned as a list of outputs in
  the order of the calls. Block bodies, the block store and statistics are left out; signing is
  a parameter of the handlers.
\<close>

section \<open>Messages (\<open>ace-p2p/src/messages.rs\<close>)\<close>

record network_prevote =
  pv_height :: u64
  pv_round :: u32
  pv_block_hash :: hash32
  pv_voter :: account_id
  pv_voter_stake :: u64
  pv_signature :: tagged_signature
  pv_chain_id :: u32

record network_precommit =
  pc_height :: u64
  pc_round :: u32
  pc_block_hash :: hash32
  pc_voter :: account_id
  pc_voter_stake :: u64
  pc_signature :: tagged_signature
  pc_chain_id :: u32

record commit_certificate =
  cc_height :: u64
  cc_round :: u32
  cc_block_hash :: hash32
  cc_chain_id :: u32
  cc_precommits :: "network_precommit list"

definition prevote_sign_message :: "crypto \<Rightarrow> u64 \<Rightarrow> u32 \<Rightarrow> hash32 \<Rightarrow> account_id \<Rightarrow> u32 \<Rightarrow> bytes" where
  "prevote_sign_message cr height rnd block_hash voter chain_id =
     bytes32 (sha256 cr (ascii ''ACE-PREVOTE-V1'' @ u32_le chain_id @ u64_le height @ u32_le rnd
                         @ bytes32 block_hash @ bytes32 voter))"

definition precommit_sign_message :: "crypto \<Rightarrow> u64 \<Rightarrow> u32 \<Rightarrow> hash32 \<Rightarrow> account_id \<Rightarrow> u32 \<Rightarrow> bytes" where
  "precommit_sign_message cr height rnd block_hash voter chain_id =
     bytes32 (sha256 cr (ascii ''ACE-PRECOMMIT-V1'' @ u32_le chain_id @ u64_le height @ u32_le rnd
                         @ bytes32 block_hash @ bytes32 voter))"

definition verify_tendermint_prevote :: "crypto \<Rightarrow> validator_set \<Rightarrow> network_prevote \<Rightarrow> u32 \<Rightarrow> bool" where
  "verify_tendermint_prevote cr vs pv chain_id =
     (if pv_chain_id pv \<noteq> chain_id then False
      else case get_by_id vs (pv_voter pv) of
        None \<Rightarrow> False
      | Some validator \<Rightarrow>
          (if \<not> sig_well_formed (pv_signature pv) then False
           else verify_signature cr (v_signing_pubkey validator)
                  (prevote_sign_message cr (pv_height pv) (pv_round pv) (pv_block_hash pv)
                     (pv_voter pv) (pv_chain_id pv))
                  (pv_signature pv)))"

definition verify_tendermint_precommit :: "crypto \<Rightarrow> validator_set \<Rightarrow> network_precommit \<Rightarrow> u32 \<Rightarrow> bool" where
  "verify_tendermint_precommit cr vs pc chain_id =
     (if pc_chain_id pc \<noteq> chain_id then False
      else case get_by_id vs (pc_voter pc) of
        None \<Rightarrow> False
      | Some validator \<Rightarrow>
          (if \<not> sig_well_formed (pc_signature pc) then False
           else verify_signature cr (v_signing_pubkey validator)
                  (precommit_sign_message cr (pc_height pc) (pc_round pc) (pc_block_hash pc)
                     (pc_voter pc) (pc_chain_id pc))
                  (pc_signature pc)))"

section \<open>Node state\<close>

record pending_commit =
  pn_height :: u64
  pn_round :: u32
  pn_block_hash :: hash32

record node_state =
  ns_tm :: tendermint_state
  ns_vset :: validator_set
  ns_local_id :: account_id
  ns_chain_id :: u32
  ns_timer :: round_timer
  ns_pending :: "pending_commit option"
  ns_precommits :: "network_precommit list"
  ns_round0_commits :: u64
  ns_total_commits :: u64

datatype node_output =
    SendPrevote network_prevote
  | SendPrecommit network_precommit
  | SendCertificate commit_certificate
  | WalWrite wal_entry
  | WalTruncate

text \<open>The surroundings of a handler: cryptography, the local signing key, the clock.\<close>

record node_cx =
  cx_crypto :: crypto
  cx_sign :: "bytes \<Rightarrow> tagged_signature"
  cx_now :: nat

definition ns_start_step :: "node_cx \<Rightarrow> node_state \<Rightarrow> u32 \<Rightarrow> round_step \<Rightarrow> node_state" where
  "ns_start_step cx ns rnd step = ns\<lparr>ns_timer := start_step (ns_timer ns) (cx_now cx) rnd step\<rparr>"

definition record_commit_round :: "node_state \<Rightarrow> u32 \<Rightarrow> node_state" where
  "record_commit_round ns rnd =
     (let ns1 = ns\<lparr>ns_total_commits := ns_total_commits ns + 1\<rparr> in
      if rnd = 0 then ns1\<lparr>ns_round0_commits := ns_round0_commits ns1 + 1\<rparr> else ns1)"

definition buffer_precommit :: "node_state \<Rightarrow> network_precommit \<Rightarrow> node_state" where
  "buffer_precommit ns pc =
     (if list_ex (\<lambda>p. pc_voter p = pc_voter pc \<and> pc_round p = pc_round pc) (ns_precommits ns) then ns
      else ns\<lparr>ns_precommits := ns_precommits ns @ [pc]\<rparr>)"

definition local_precommit :: "node_cx \<Rightarrow> node_state \<Rightarrow> u64 \<Rightarrow> u32 \<Rightarrow> hash32 \<Rightarrow> network_precommit" where
  "local_precommit cx ns height rnd block_hash =
     \<lparr>pc_height = height, pc_round = rnd, pc_block_hash = block_hash,
      pc_voter = ns_local_id ns, pc_voter_stake = stake_of (ns_vset ns) (ns_local_id ns),
      pc_signature = cx_sign cx (precommit_sign_message (cx_crypto cx) height rnd block_hash
                                   (ns_local_id ns) (ns_chain_id ns)),
      pc_chain_id = ns_chain_id ns\<rparr>"

definition local_prevote :: "node_cx \<Rightarrow> node_state \<Rightarrow> u64 \<Rightarrow> u32 \<Rightarrow> hash32 \<Rightarrow> network_prevote" where
  "local_prevote cx ns height rnd block_hash =
     \<lparr>pv_height = height, pv_round = rnd, pv_block_hash = block_hash,
      pv_voter = ns_local_id ns, pv_voter_stake = stake_of (ns_vset ns) (ns_local_id ns),
      pv_signature = cx_sign cx (prevote_sign_message (cx_crypto cx) height rnd block_hash
                                   (ns_local_id ns) (ns_chain_id ns)),
      pv_chain_id = ns_chain_id ns\<rparr>"

section \<open>Executing the actions of the machine\<close>

text \<open>
  \<open>execute_tendermint_action\<close> calls itself on the follow-up action. The recursion is bounded
  by fuel; \<open>execute_enough\<close> below shows that depth 4 is always enough. The result is the
  new state, the follow-up actions that the machine returned, in order, and the outputs.
\<close>

type_synonym exec_result = "(node_state \<times> tm_action list \<times> node_output list) option"

fun execute_action :: "node_cx \<Rightarrow> nat \<Rightarrow> node_state \<Rightarrow> tm_action \<Rightarrow> exec_result"
  and execute_actions :: "node_cx \<Rightarrow> nat \<Rightarrow> node_state \<Rightarrow> tm_action list \<Rightarrow> exec_result" where
  "execute_action cx 0 ns action = None"
| "execute_action cx (Suc fuel) ns NoAction = Some (ns, [], [])"
| "execute_action cx (Suc fuel) ns (BroadcastPrevote height rnd block_hash) =
     (let (tm, next) = on_prevote (ns_tm ns) height rnd block_hash (ns_local_id ns)
                         (stake_of (ns_vset ns) (ns_local_id ns));
          ns1 = ns_start_step cx (ns\<lparr>ns_tm := tm\<rparr>) rnd StepPrevote;
          out = [SendPrevote (local_prevote cx ns height rnd block_hash),
                 WalWrite (WalPrevote height rnd block_hash)]
      in if next \<noteq> NoAction
         then (case execute_action cx fuel ns1 next of
                 None \<Rightarrow> None
               | Some (ns2, acts, out2) \<Rightarrow> Some (ns2, next # acts, out @ out2))
         else Some (ns1, [], out))"
| "execute_action cx (Suc fuel) ns (BroadcastPrecommit height rnd block_hash) =
     (let (tm, next) = on_precommit (ns_tm ns) height rnd block_hash (ns_local_id ns)
                         (stake_of (ns_vset ns) (ns_local_id ns));
          pc = local_precommit cx ns height rnd block_hash;
          ns1 = ns_start_step cx (buffer_precommit (ns\<lparr>ns_tm := tm\<rparr>) pc) rnd StepPrecommit;
          out = [SendPrecommit pc, WalWrite (WalPrecommit height rnd block_hash)] @
                (if block_hash \<noteq> NIL_BLOCK_HASH then [WalWrite (WalLock height rnd block_hash)] else [])
      in if next \<noteq> NoAction
         then (case execute_action cx fuel ns1 next of
                 None \<Rightarrow> None
               | Some (ns2, acts, out2) \<Rightarrow> Some (ns2, next # acts, out @ out2))
         else Some (ns1, [], out))"
| "execute_action cx (Suc fuel) ns (Commit height rnd block_hash) =
     Some (ns_start_step cx
             ((record_commit_round ns rnd)\<lparr>ns_pending :=
                Some \<lparr>pn_height = height, pn_round = rnd, pn_block_hash = block_hash\<rparr>\<rparr>)
             rnd StepCommitWait, [], [])"
| "execute_action cx (Suc fuel) ns (ScheduleProposal height rnd) =
     (let ns1 = ns_start_step cx ns rnd StepPropose;
          (tm, buffered) = drain_buffered_votes (ns_tm ns1)
      in (case execute_actions cx fuel (ns1\<lparr>ns_tm := tm\<rparr>) buffered of
            None \<Rightarrow> None
          | Some (ns2, acts, out) \<Rightarrow> Some (ns2, buffered @ acts, out)))"
| "execute_actions cx fuel ns [] = Some (ns, [], [])"
| "execute_actions cx fuel ns (action # actions) =
     (case execute_action cx fuel ns action of
        None \<Rightarrow> None
      | Some (ns1, acts1, out1) \<Rightarrow>
          (case execute_actions cx fuel ns1 actions of
             None \<Rightarrow> None
           | Some (ns2, acts2, out2) \<Rightarrow> Some (ns2, acts1 @ acts2, out1 @ out2)))"

definition EXEC_DEPTH :: nat where
  "EXEC_DEPTH = 4"

text \<open>A step of the machine followed by the execution of the action it returned.\<close>

definition run_action :: "node_cx \<Rightarrow> node_state \<Rightarrow> tendermint_state \<times> tm_action \<Rightarrow> exec_result" where
  "run_action cx ns r =
     (let (tm, action) = r in
      case execute_action cx EXEC_DEPTH (ns\<lparr>ns_tm := tm\<rparr>) action of
        None \<Rightarrow> None
      | Some (ns1, acts, out) \<Rightarrow> Some (ns1, action # acts, out))"

section \<open>Handlers\<close>

definition handle_prevote :: "node_cx \<Rightarrow> node_state \<Rightarrow> network_prevote \<Rightarrow> exec_result" where
  "handle_prevote cx ns pv =
     (let voter = pv_voter pv;
          canonical_stake = stake_of (ns_vset ns) voter
      in if canonical_stake = 0 then Some (ns, [], [])
         else if \<not> verify_tendermint_prevote (cx_crypto cx) (ns_vset ns) pv (ns_chain_id ns)
           then Some (ns, [], [])
         else run_action cx ns
                (on_prevote (ns_tm ns) (pv_height pv) (pv_round pv) (pv_block_hash pv) voter canonical_stake))"

definition handle_precommit :: "node_cx \<Rightarrow> node_state \<Rightarrow> network_precommit \<Rightarrow> exec_result" where
  "handle_precommit cx ns pc =
     (let voter = pc_voter pc;
          canonical_stake = stake_of (ns_vset ns) voter
      in if canonical_stake = 0 then Some (ns, [], [])
         else if \<not> verify_tendermint_precommit (cx_crypto cx) (ns_vset ns) pc (ns_chain_id ns)
           then Some (ns, [], [])
         else let ns1 = (if pc_height pc = tm_height (ns_tm ns) then buffer_precommit ns pc else ns) in
           run_action cx ns1
             (on_precommit (ns_tm ns1) (pc_height pc) (pc_round pc) (pc_block_hash pc) voter canonical_stake))"

text \<open>
  The stake of a certificate: the precommits that match it, one per voter, known and
  correctly signed. \<open>seen_voters\<close> is filled before the signature is looked at.
\<close>

fun certificate_stake ::
  "node_cx \<Rightarrow> node_state \<Rightarrow> commit_certificate \<Rightarrow> account_id list \<Rightarrow> network_precommit list \<Rightarrow> u64" where
  "certificate_stake cx ns cert seen [] = 0"
| "certificate_stake cx ns cert seen (pc # pcs) =
     (if pc_height pc \<noteq> cc_height cert \<or> pc_round pc \<noteq> cc_round cert \<or>
         pc_block_hash pc \<noteq> cc_block_hash cert
      then certificate_stake cx ns cert seen pcs
      else if pc_voter pc \<in> set seen then certificate_stake cx ns cert seen pcs
      else let seen1 = pc_voter pc # seen in
        case get_by_id (ns_vset ns) (pc_voter pc) of
          None \<Rightarrow> certificate_stake cx ns cert seen1 pcs
        | Some validator \<Rightarrow>
            (if \<not> verify_tendermint_precommit (cx_crypto cx) (ns_vset ns) pc (ns_chain_id ns)
             then certificate_stake cx ns cert seen1 pcs
             else v_stake validator + certificate_stake cx ns cert seen1 pcs))"

fun merge_precommits :: "node_state \<Rightarrow> commit_certificate \<Rightarrow> network_precommit list \<Rightarrow> node_state" where
  "merge_precommits ns cert [] = ns"
| "merge_precommits ns cert (pc # pcs) =
     merge_precommits
       (if pc_height pc = cc_height cert \<and> pc_round pc = cc_round cert \<and>
           pc_block_hash pc = cc_block_hash cert
        then buffer_precommit ns pc else ns) cert pcs"

definition certificate_accepted :: "node_cx \<Rightarrow> node_state \<Rightarrow> commit_certificate \<Rightarrow> bool" where
  "certificate_accepted cx ns cert =
     (if cc_height cert \<noteq> tm_height (ns_tm ns) then False
      else if tm_step (ns_tm ns) = StepCommitWait \<or> tm_step (ns_tm ns) = StepCommitted then False
      else if cc_chain_id cert \<noteq> ns_chain_id ns then False
      else if cc_block_hash cert = NIL_BLOCK_HASH then False
      else has_quorum (certificate_stake cx ns cert [] (cc_precommits cert))
             (vs_total_stake (ns_vset ns)))"

definition handle_commit_certificate :: "node_cx \<Rightarrow> node_state \<Rightarrow> commit_certificate \<Rightarrow> exec_result" where
  "handle_commit_certificate cx ns cert =
     (if \<not> certificate_accepted cx ns cert then Some (ns, [], [])
      else let ns1 = merge_precommits ns cert (cc_precommits cert);
               ns2 = ns1\<lparr>ns_tm := force_commit (ns_tm ns1) (cc_height cert) (cc_round cert) (cc_block_hash cert),
                         ns_pending := Some \<lparr>pn_height = cc_height cert, pn_round = cc_round cert,
                                             pn_block_hash = cc_block_hash cert\<rparr>\<rparr>
           in Some (ns_start_step cx ns2 (cc_round cert) StepCommitWait,
                    [Commit (cc_height cert) (cc_round cert) (cc_block_hash cert)],
                    [SendCertificate cert]))"

definition handle_proposal_validated ::
  "node_cx \<Rightarrow> node_state \<Rightarrow> u64 \<Rightarrow> u32 \<Rightarrow> hash32 \<Rightarrow> u32 option \<Rightarrow> bool \<Rightarrow> exec_result" where
  "handle_proposal_validated cx ns height rnd block_hash valid_round prepared =
     (if height \<noteq> tm_height (ns_tm ns) then Some (ns, [], [])
      else if \<not> prepared then Some (ns, [], [])
      else map_option (\<lambda>(ns1, acts, out). (ns1, acts, WalWrite (WalProposal height rnd block_hash) # out))
             (run_action cx ns (on_proposal (ns_tm ns) height rnd block_hash valid_round)))"

definition handle_round_timeout :: "node_cx \<Rightarrow> node_state \<Rightarrow> exec_result" where
  "handle_round_timeout cx ns =
     map_option (\<lambda>(ns1, acts, out).
         (if tm_step (ns_tm ns1) = StepCommitted
          then ns_start_step cx ns1 (tm_round (ns_tm ns1)) StepCommitted else ns1, acts, out))
       (run_action cx ns (on_timeout (ns_tm ns)))"

text \<open>
  The certificate sent after a commit. The node's own precommit is signed now if it has not
  cast one in this round; then the buffered precommits for this commit are sent along.
\<close>

definition broadcast_certificate ::
  "node_cx \<Rightarrow> node_state \<Rightarrow> u64 \<Rightarrow> u32 \<Rightarrow> hash32 \<Rightarrow> node_state \<times> node_output list" where
  "broadcast_certificate cx ns height rnd block_hash =
     (let ns1 = buffer_precommit ns (local_precommit cx ns height rnd block_hash);
          cert_precommits =
            filter (\<lambda>p. pc_height p = height \<and> pc_round p = rnd \<and> pc_block_hash p = block_hash)
              (ns_precommits ns1)
      in (ns1, if cert_precommits \<noteq> []
               then [SendCertificate \<lparr>cc_height = height, cc_round = rnd,
                       cc_block_hash = block_hash, cc_chain_id = ns_chain_id ns,
                       cc_precommits = cert_precommits\<rparr>]
               else []))"

text \<open>
  \<open>CommitFinalized\<close> with a successful result: the pending commit is taken if it is for this
  block, the validator set of the next height takes effect, and the certificate is sent.
\<close>

definition handle_commit_finalized ::
  "node_cx \<Rightarrow> node_state \<Rightarrow> u64 \<Rightarrow> u32 \<Rightarrow> hash32 \<Rightarrow> validator_set \<Rightarrow> node_state \<times> node_output list" where
  "handle_commit_finalized cx ns height rnd block_hash effective =
     (case ns_pending ns of
        None \<Rightarrow> (ns, [])
      | Some active \<Rightarrow>
          (if pn_block_hash active \<noteq> block_hash then (ns, [])
           else broadcast_certificate cx (ns\<lparr>ns_pending := None, ns_vset := effective\<rparr>)
                  height rnd block_hash))"

definition advance_height :: "node_cx \<Rightarrow> node_state \<Rightarrow> u64 \<Rightarrow> node_state" where
  "advance_height cx ns height =
     ns\<lparr>ns_tm := new_height (ns_tm ns) height (vs_total_stake (ns_vset ns)),
        ns_timer := rt_reset (ns_timer ns) (cx_now cx)\<rparr>"

definition try_advance_height :: "node_cx \<Rightarrow> node_state \<Rightarrow> node_state \<times> node_output list" where
  "try_advance_height cx ns =
     (if tm_step (ns_tm ns) = StepCommitted \<and> tm_committed_hash (ns_tm ns) \<noteq> None \<and> ns_pending ns = None
      then let height = tm_height (ns_tm ns) + 1;
               ns1 = (advance_height cx ns height)\<lparr>ns_pending := None, ns_precommits := []\<rparr>
           in (ns_start_step cx ns1 0 StepPropose, [WalWrite (WalHeightAdvance height), WalTruncate])
      else (ns, []))"

definition maybe_advance_engine_to_synced_block :: "node_cx \<Rightarrow> node_state \<Rightarrow> u64 \<Rightarrow> node_state \<times> bool" where
  "maybe_advance_engine_to_synced_block cx ns block_slot =
     (let next_height = saturating_add block_slot 1 in
      if tm_height (ns_tm ns) \<ge> next_height then (ns, False)
      else (ns_start_step cx (advance_height cx ns next_height) 0 StepPropose, True))"

text \<open>After block sync has moved the engine on, the leftovers of the old height are dropped.\<close>

definition handle_block_synced :: "node_cx \<Rightarrow> node_state \<Rightarrow> u64 \<Rightarrow> node_state \<times> bool" where
  "handle_block_synced cx ns block_slot =
     (let (ns1, advanced) = maybe_advance_engine_to_synced_block cx ns block_slot in
      (if advanced then ns1\<lparr>ns_pending := None, ns_precommits := []\<rparr> else ns1, advanced))"

section \<open>Restart\<close>

fun wal_outputs :: "consensus_wal \<Rightarrow> node_output list \<Rightarrow> consensus_wal" where
  "wal_outputs w [] = w"
| "wal_outputs w (WalWrite e # out) = wal_outputs (wal_write w e) out"
| "wal_outputs w (WalTruncate # out) = wal_outputs (wal_truncate w) out"
| "wal_outputs w (_ # out) = wal_outputs w out"

text \<open>
  At startup the engine is created, moved to the height after the chain tip, and given the
  lock of the log only if the log is of this height and the locked block is in the store.
\<close>

definition restart_engine ::
  "validator_set \<Rightarrow> u64 \<Rightarrow> (hash32 \<Rightarrow> bool) \<Rightarrow> consensus_wal \<Rightarrow> tendermint_state \<times> consensus_wal" where
  "restart_engine vs starting_height block_exists wal =
     (let tm = new_height (tm_new 1 (vs_total_stake vs)) starting_height (vs_total_stake vs);
          recovery = wal_recover wal
      in case (rec_locked_round recovery, rec_locked_hash recovery) of
           (Some lr, Some lh) \<Rightarrow>
             (if rec_height recovery = starting_height \<and> block_exists lh
              then (restore_lock tm lr lh, wal)
              else (tm, wal_truncate wal))
         | _ \<Rightarrow> (tm, wal_truncate wal))"

section \<open>The recursion of \<open>execute_tendermint_action\<close> ends\<close>

lemma on_prevote_next:
  assumes "tm_shape s" and "on_prevote s n r b v st = (s', a)"
  shows "a = NoAction \<or> (\<exists>h. a = BroadcastPrecommit (tm_height s) (tm_round s) h)"
  using assms by (auto elim!: on_prevote_cases [of s n r b v st])

lemma on_precommit_next:
  assumes "on_precommit s n r b v st = (s', a)"
  shows "a = NoAction \<or> (\<exists>h. a = Commit (tm_height s) (tm_round s) h)"
  by (rule on_precommit_cases [of s n r b v st]) (use assms in auto)

fun act_depth :: "tm_action \<Rightarrow> nat" where
  "act_depth NoAction = 1"
| "act_depth (Commit n r b) = 1"
| "act_depth (BroadcastPrecommit n r b) = 2"
| "act_depth (BroadcastPrevote n r b) = 3"
| "act_depth (ScheduleProposal n r) = 4"

lemma replay_votes_shape:
  "tm_shape s \<Longrightarrow> replay_votes s votes = (s', acts) \<Longrightarrow>
   tm_shape s' \<and> (\<forall>a \<in> set acts. act_depth a \<le> 2)"
proof (induction votes arbitrary: s s' acts)
  case (Cons bv votes)
  obtain w b st ip where bv: "bv = (w, b, st, ip)" by (cases bv)
  let ?op = "if ip then on_precommit s (tm_height s) (tm_round s) b w st
             else on_prevote s (tm_height s) (tm_round s) b w st"
  obtain s1 a where op: "?op = (s1, a)" by (cases ?op)
  obtain acts1 where rest: "replay_votes s1 votes = (s', acts1)"
      "acts = (if a \<noteq> NoAction then a # acts1 else acts1)"
    using Cons.prems(2) op by (auto simp: bv split: prod.splits)
  have "tm_shape s1"
    using op on_prevote_shape [OF Cons.prems(1)] on_precommit_shape [OF Cons.prems(1)]
    by (cases ip) (metis fst_conv)+
  moreover have "act_depth a \<le> 2"
    using op on_prevote_next [OF Cons.prems(1)] on_precommit_next by (cases ip) fastforce+
  ultimately show ?case using Cons.IH [OF _ rest(1)] rest(2) by auto
qed simp

lemma drain_shape:
  assumes "tm_shape s" and "drain_buffered_votes s = (s', acts)"
  shows "tm_shape s' \<and> (\<forall>a \<in> set acts. act_depth a \<le> 2)"
proof (cases "map_of (tm_future_votes s) (tm_round s)")
  case None
  with assms show ?thesis by (simp add: drain_buffered_votes_def)
next
  case (Some votes)
  have "tm_shape (s\<lparr>tm_future_votes := fv\<rparr>)" for fv
    using assms(1) by (simp add: tm_shape_def)
  moreover obtain fv where "replay_votes (s\<lparr>tm_future_votes := fv\<rparr>) votes = (s', acts)"
    using Some assms(2) by (auto simp: drain_buffered_votes_def Let_def split: if_splits)
  ultimately show ?thesis by (rule replay_votes_shape)
qed

lemma ns_start_step_tm [simp]: "ns_tm (ns_start_step cx ns r st) = ns_tm ns"
  by (simp add: ns_start_step_def)

lemma buffer_precommit_tm [simp]: "ns_tm (buffer_precommit ns pc) = ns_tm ns"
  by (simp add: buffer_precommit_def)

lemma record_commit_round_tm [simp]: "ns_tm (record_commit_round ns r) = ns_tm ns"
  by (simp add: record_commit_round_def Let_def)

text \<open>Fuel as large as the depth of the action is enough, and the machine keeps its shape.\<close>

lemma execute_enough:
  "tm_shape (ns_tm ns) \<Longrightarrow> act_depth a \<le> fuel \<Longrightarrow>
   \<exists>ns' acts out. execute_action cx fuel ns a = Some (ns', acts, out) \<and> tm_shape (ns_tm ns')"
  "tm_shape (ns_tm ns) \<Longrightarrow> (\<forall>a \<in> set as. act_depth a \<le> fuel) \<Longrightarrow>
   \<exists>ns' acts out. execute_actions cx fuel ns as = Some (ns', acts, out) \<and> tm_shape (ns_tm ns')"
proof (induction cx fuel ns a and cx fuel ns as rule: execute_action_execute_actions.induct)
  case (1 cx ns a)
  then show ?case by (cases a) auto
next
  case (3 cx fuel ns n r b)
  obtain tm a where run: "on_prevote (ns_tm ns) n r b (ns_local_id ns)
      (stake_of (ns_vset ns) (ns_local_id ns)) = (tm, a)" by force
  have sh: "tm_shape tm" using on_prevote_shape [OF 3(2)] run by (metis fst_conv)
  have "act_depth a \<le> fuel" using on_prevote_next [OF 3(2) run] 3(3) by auto
  then show ?case using 3(1) [OF run [symmetric] refl refl refl] sh run by (auto simp: Let_def)
next
  case (4 cx fuel ns n r b)
  obtain tm a where run: "on_precommit (ns_tm ns) n r b (ns_local_id ns)
      (stake_of (ns_vset ns) (ns_local_id ns)) = (tm, a)" by force
  have sh: "tm_shape tm" using on_precommit_shape [OF 4(2)] run by (metis fst_conv)
  have "act_depth a \<le> fuel" using on_precommit_next [OF run] 4(3) by auto
  then show ?case using 4(1) [OF run [symmetric] refl refl refl refl] sh run by (auto simp: Let_def)
next
  case (6 cx fuel ns n r)
  obtain tm acts where run: "drain_buffered_votes (ns_tm ns) = (tm, acts)" by force
  have "tm_shape tm" "\<forall>a \<in> set acts. act_depth a \<le> fuel"
    using drain_shape [OF 6(2) run] 6(3) by fastforce+
  then obtain ns' acts' out where
      "execute_actions cx fuel ((ns_start_step cx ns r StepPropose)\<lparr>ns_tm := tm\<rparr>) acts = Some (ns', acts', out)"
      "tm_shape (ns_tm ns')"
    using 6(1) [OF refl] run by fastforce
  then show ?case using run by (simp add: Let_def)
next
  case (8 cx fuel ns a as)
  obtain ns1 acts1 out1 where one: "execute_action cx fuel ns a = Some (ns1, acts1, out1)"
      "tm_shape (ns_tm ns1)"
    using 8(1) 8(3,4) by auto
  then show ?case using 8(2) [OF one(1) refl refl] 8(4) by auto
qed simp_all

section \<open>Properties\<close>

text \<open>
  C19: Executing an action of the machine always ends: the recursion through the node's own
  votes and through replayed votes is at most four calls deep, for every action and every state
  whose step and vote flags fit together, and it leaves such a state behind.
\<close>

theorem execute_action_terminates:
  assumes "tm_shape (ns_tm ns)"
  shows "\<exists>ns' acts out. execute_action cx EXEC_DEPTH ns action = Some (ns', acts, out) \<and> tm_shape (ns_tm ns')"
  using execute_enough(1) [OF assms, of action EXEC_DEPTH cx] by (cases action) (auto simp: EXEC_DEPTH_def)

definition sample_node :: "account_id \<Rightarrow> node_state" where
  "sample_node p =
     \<lparr>ns_tm = tm_new 1 (vs_total_stake sample_vset), ns_vset = sample_vset, ns_local_id = p,
      ns_chain_id = 1, ns_timer = rt_new timeout_config_default 0, ns_pending = None,
      ns_precommits = [], ns_round0_commits = 0, ns_total_commits = 0\<rparr>"

definition sample_cx :: node_cx where
  "sample_cx = \<lparr>cx_crypto = sample_crypto, cx_sign = (\<lambda>m. zero_ed25519_sig), cx_now = 0\<rparr>"

theorem execute_action_terminates_witness:
  "\<exists>ns' acts out. execute_action sample_cx EXEC_DEPTH (sample_node 1) (ScheduleProposal 1 1) =
     Some (ns', acts, out) \<and> tm_shape (ns_tm ns')"
  by (rule execute_action_terminates) (simp add: sample_node_def)

text \<open>
  C38: The log does not keep a restarted node from voting twice in a round. Whatever was
  logged, if the locked block is not in the block store (a block gets there only when it is
  committed), the restarted machine prevotes any block proposed in round 0 of its height, also
  when the log still shows its prevote, its precommit and its lock for another block there.
\<close>

theorem restart_prevotes_again:
  assumes "wal = Some (old @ [WalPrevote n 0 b0, WalPrecommit n 0 b0, WalLock n 0 b0])"
    and "rec_height (recover_entries recovery_default old) \<le> n" and "\<not> block_exists b0"
  shows "rec_prevote (wal_recover wal) = Some (0, b0) \<and> rec_lock (wal_recover wal) = Some (0, b0) \<and>
    snd (on_proposal (fst (restart_engine vs n block_exists wal)) n 0 b None) = BroadcastPrevote n 0 b"
proof -
  have "recover_entries recovery_default (old @ [WalPrevote n 0 b0, WalPrecommit n 0 b0, WalLock n 0 b0]) =
      (recover_entries recovery_default old)\<lparr>rec_height := n, rec_prevoted_round := Some 0,
         rec_prevoted_hash := Some b0, rec_precommitted_round := Some 0, rec_precommitted_hash := Some b0,
         rec_locked_round := Some 0, rec_locked_hash := Some b0\<rparr>"
    using assms(2) by (simp add: recover_entries_append)
  then show ?thesis
    using assms(1,3)
    by (simp add: wal_recover_def wal_read_all_def rec_prevote_def rec_lock_def restart_engine_def Let_def
        on_proposal_def new_height_def do_prevote_def)
qed

theorem restart_prevotes_again_witness:
  "rec_prevote (wal_recover (Some ([] @ [WalPrevote 5 0 7, WalPrecommit 5 0 7, WalLock 5 0 7]))) = Some (0, 7) \<and>
   rec_lock (wal_recover (Some ([] @ [WalPrevote 5 0 7, WalPrecommit 5 0 7, WalLock 5 0 7]))) = Some (0, 7) \<and>
   snd (on_proposal (fst (restart_engine sample_vset 5 (\<lambda>h. False)
     (Some ([] @ [WalPrevote 5 0 7, WalPrecommit 5 0 7, WalLock 5 0 7])))) 5 0 8 None) = BroadcastPrevote 5 0 8"
  by (rule restart_prevotes_again [OF refl]) (simp_all add: recovery_default_def)

text \<open>
  A node's own vote is sent before it is logged: executing a prevote sends the signed
  vote first and writes the log entry afterwards, and likewise for a precommit and its lock. A
  crash between the two leaves a public vote without any trace in the log.
\<close>

theorem votes_sent_before_logged:
  assumes "execute_action cx (Suc fuel) ns (BroadcastPrecommit n r b) = Some (ns', acts, out)"
    and "b \<noteq> NIL_BLOCK_HASH"
  shows "\<exists>rest. out = SendPrecommit (local_precommit cx ns n r b) # WalWrite (WalPrecommit n r b) #
    WalWrite (WalLock n r b) # rest"
  using assms by (auto simp: Let_def split: prod.splits if_splits option.splits)

theorem votes_sent_before_logged_witness:
  "\<exists>rest. snd (snd (the (execute_action sample_cx (Suc 3) (sample_node 1) (BroadcastPrecommit 1 0 7)))) =
    SendPrecommit (local_precommit sample_cx (sample_node 1) 1 0 7) # WalWrite (WalPrecommit 1 0 7) #
    WalWrite (WalLock 1 0 7) # rest"
proof -
  have "\<exists>ns' acts out. execute_action sample_cx (Suc 3) (sample_node 1) (BroadcastPrecommit 1 0 7) =
      Some (ns', acts, out)"
    using execute_enough(1) [of "sample_node 1" "BroadcastPrecommit 1 0 7" "Suc 3" sample_cx]
    by (auto simp: sample_node_def)
  then obtain ns' acts out where
    run: "execute_action sample_cx (Suc 3) (sample_node 1) (BroadcastPrecommit 1 0 7) = Some (ns', acts, out)"
    by blast
  from votes_sent_before_logged [OF run] show ?thesis
    by (simp only: run option.sel prod.sel) (simp add: NIL_BLOCK_HASH_def)
qed

end
