(* ===== verification/Node_Safety.thy ===== *)
theory Node_Safety
  imports Node_Consensus
begin

text \<open>
  The handlers of \<open>Node_Consensus\<close> refine the steps of \<open>Tendermint_Net\<close>: each run of a
  handler is a sequence of machine steps of its validator. So a system whose correct nodes run
  the handlers keeps the invariant of the machines and the history laws, and agreement follows.
\<close>

section \<open>Handlers as sequences of steps\<close>

definition ns_ok :: "net_config \<Rightarrow> account_id \<Rightarrow> node_state \<Rightarrow> bool" where
  "ns_ok cfg p ns \<longleftrightarrow> ns_local_id ns = p \<and>
     (tm_active (ns_tm ns) \<longrightarrow> ns_pending ns = None \<and> ns_vset ns = nc_vset cfg (tm_height (ns_tm ns)))"

definition ns_frame :: "node_state \<Rightarrow> node_state \<Rightarrow> bool" where
  "ns_frame ns ns' \<longleftrightarrow> ns_local_id ns' = ns_local_id ns \<and> ns_chain_id ns' = ns_chain_id ns \<and>
     ns_vset ns' = ns_vset ns \<and> tm_height (ns_tm ns') = tm_height (ns_tm ns) \<and>
     (tm_active (ns_tm ns') \<longrightarrow> tm_active (ns_tm ns) \<and> ns_pending ns' = ns_pending ns)"

lemma ns_frame_ok: "ns_frame ns ns' \<Longrightarrow> ns_ok cfg p ns \<Longrightarrow> ns_ok cfg p ns'"
  by (auto simp: ns_frame_def ns_ok_def)

lemma ns_frame_refl [simp]: "ns_frame ns ns"
  by (simp add: ns_frame_def)

lemma ns_frame_trans: "ns_frame a b \<Longrightarrow> ns_frame b c \<Longrightarrow> ns_frame a c"
  by (auto simp: ns_frame_def)

lemma ns_start_step_fields [simp]:
  "ns_local_id (ns_start_step cx ns r st) = ns_local_id ns"
  "ns_chain_id (ns_start_step cx ns r st) = ns_chain_id ns"
  "ns_vset (ns_start_step cx ns r st) = ns_vset ns"
  "ns_pending (ns_start_step cx ns r st) = ns_pending ns"
  by (simp_all add: ns_start_step_def)

lemma buffer_precommit_fields [simp]:
  "ns_local_id (buffer_precommit ns pc) = ns_local_id ns"
  "ns_chain_id (buffer_precommit ns pc) = ns_chain_id ns"
  "ns_vset (buffer_precommit ns pc) = ns_vset ns"
  "ns_pending (buffer_precommit ns pc) = ns_pending ns"
  by (simp_all add: buffer_precommit_def)

lemma record_commit_round_fields [simp]:
  "ns_local_id (record_commit_round ns r) = ns_local_id ns"
  "ns_chain_id (record_commit_round ns r) = ns_chain_id ns"
  "ns_vset (record_commit_round ns r) = ns_vset ns"
  by (simp_all add: record_commit_round_def Let_def)

text \<open>No step of the machine at a height makes a decided height undecided again.\<close>

lemma on_prevote_active:
  assumes "on_prevote s n r b v st = (s', a)"
  shows "tm_height s' = tm_height s \<and> (tm_active s' \<longrightarrow> tm_active s) \<and> (\<forall>m q. a \<noteq> ScheduleProposal m q) \<and>
    (\<forall>m q h. a = Commit m q h \<longrightarrow> \<not> tm_active s')"
  using assms
  by (auto simp: on_prevote_def tm_active_def buffer_vote_def late_prevote_def do_prevote_def
      do_precommit_def Let_def split: if_splits option.splits)

lemma on_precommit_active:
  assumes "on_precommit s n r b v st = (s', a)"
  shows "tm_height s' = tm_height s \<and> (tm_active s' \<longrightarrow> tm_active s) \<and> (\<forall>m q. a \<noteq> ScheduleProposal m q) \<and>
    (\<forall>m q h. a = Commit m q h \<longrightarrow> \<not> tm_active s')"
  using assms
  by (auto simp: on_precommit_def tm_active_def buffer_vote_def Let_def split: if_splits option.splits)

lemma on_proposal_active:
  assumes "on_proposal s n r b vr = (s', a)"
  shows "tm_height s' = tm_height s \<and> (tm_active s' \<longrightarrow> tm_active s) \<and> (\<forall>m q. a \<noteq> ScheduleProposal m q) \<and>
    (\<forall>m q h. a = Commit m q h \<longrightarrow> \<not> tm_active s')"
  using assms
  by (auto simp: on_proposal_def tm_active_def do_prevote_def Let_def split: if_splits option.splits)

lemma on_timeout_active:
  assumes "on_timeout s = (s', a)"
  shows "tm_height s' = tm_height s \<and> (tm_active s' \<longrightarrow> tm_active s) \<and>
    (\<forall>m q. a = ScheduleProposal m q \<longrightarrow> tm_active s') \<and> (\<forall>m q h. a \<noteq> Commit m q h)"
  using assms
  by (cases "tm_step s")
    (auto simp: on_timeout_def tm_op_defs tm_active_def split: if_splits)

lemma replay_votes_active:
  "replay_votes s votes = (s', acts) \<Longrightarrow>
   tm_height s' = tm_height s \<and> (tm_active s' \<longrightarrow> tm_active s) \<and>
   (\<forall>a \<in> set acts. (\<forall>m q. a \<noteq> ScheduleProposal m q) \<and> (\<forall>m q h. a = Commit m q h \<longrightarrow> \<not> tm_active s'))"
proof (induction votes arbitrary: s s' acts)
  case (Cons bv votes)
  obtain w b st ip where bv: "bv = (w, b, st, ip)" by (cases bv)
  let ?op = "if ip then on_precommit s (tm_height s) (tm_round s) b w st
             else on_prevote s (tm_height s) (tm_round s) b w st"
  obtain s1 a where op: "?op = (s1, a)" by (cases ?op)
  obtain acts1 where rest: "replay_votes s1 votes = (s', acts1)"
      "acts = (if a \<noteq> NoAction then a # acts1 else acts1)"
    using Cons.prems op by (auto simp: bv split: prod.splits)
  have "tm_height s1 = tm_height s \<and> (tm_active s1 \<longrightarrow> tm_active s) \<and>
      (\<forall>m q. a \<noteq> ScheduleProposal m q) \<and> (\<forall>m q h. a = Commit m q h \<longrightarrow> \<not> tm_active s1)"
    using op on_prevote_active on_precommit_active by (cases ip) (simp; blast)+
  then show ?case using Cons.IH [OF rest(1)] rest(2) by auto
qed simp

lemma drain_active:
  assumes "drain_buffered_votes s = (s', acts)"
  shows "tm_height s' = tm_height s \<and> (tm_active s' \<longrightarrow> tm_active s) \<and>
    (\<forall>a \<in> set acts. (\<forall>m q. a \<noteq> ScheduleProposal m q) \<and> (\<forall>m q h. a = Commit m q h \<longrightarrow> \<not> tm_active s'))"
proof (cases "map_of (tm_future_votes s) (tm_round s)")
  case None
  with assms show ?thesis by (simp add: drain_buffered_votes_def)
next
  case (Some votes)
  then obtain fv where "replay_votes (s\<lparr>tm_future_votes := fv\<rparr>) votes = (s', acts)"
    using assms by (auto simp: drain_buffered_votes_def Let_def split: if_splits)
  from replay_votes_active [OF this] show ?thesis by (simp add: tm_active_def)
qed

text \<open>
  An action may be executed once its own vote is public; \<open>ScheduleProposal\<close> only while the
  height is undecided, \<open>Commit\<close> only after it is decided.
\<close>

definition act_ready :: "account_id \<Rightarrow> tm_event list \<Rightarrow> node_state \<Rightarrow> tm_action \<Rightarrow> bool" where
  "act_ready p L ns a \<longleftrightarrow> set (act_events p a) \<subseteq> set L \<and>
     (\<forall>n r. a = ScheduleProposal n r \<longrightarrow> tm_active (ns_tm ns)) \<and>
     (\<forall>n r b. a = Commit n r b \<longrightarrow> \<not> tm_active (ns_tm ns))"

lemma acts_events_append [simp]: "acts_events p (xs @ ys) = acts_events p ys @ acts_events p xs"
  by (simp add: acts_events_def)

lemma set_acts_events: "a \<in> set acts \<Longrightarrow> set (act_events p a) \<subseteq> set (acts_events p acts)"
  by (auto simp: acts_events_def)

lemma execute_refines:
  "execute_action cx fuel ns a = Some (ns', acts, out) \<Longrightarrow> ns_ok cfg p ns \<Longrightarrow> act_ready p L ns a \<Longrightarrow>
   (local_step cfg p)\<^sup>*\<^sup>* (ns_tm ns, L) (ns_tm ns', acts_events p acts @ L) \<and> ns_frame ns ns'"
  "execute_actions cx fuel ns as = Some (ns', acts, out) \<Longrightarrow> ns_ok cfg p ns \<Longrightarrow>
   (\<forall>a \<in> set as. act_ready p L ns a \<and> (\<forall>n r. a \<noteq> ScheduleProposal n r)) \<Longrightarrow>
   (local_step cfg p)\<^sup>*\<^sup>* (ns_tm ns, L) (ns_tm ns', acts_events p acts @ L) \<and> ns_frame ns ns'"
proof (induction cx fuel ns a and cx fuel ns as arbitrary: ns' acts out L and ns' acts out L
    rule: execute_action_execute_actions.induct)
  case (1 cx ns a)
  then show ?case by simp
next
  case (2 cx fuel ns)
  then show ?case by simp
next
  case (3 cx fuel ns n r b)
  obtain tm a where run: "on_prevote (ns_tm ns) n r b (ns_local_id ns)
      (stake_of (ns_vset ns) (ns_local_id ns)) = (tm, a)" by force
  let ?ns1 = "ns_start_step cx (ns\<lparr>ns_tm := tm\<rparr>) r StepPrevote"
  note act = on_prevote_active [OF run]
  have step: "local_step cfg p (ns_tm ns, L) (tm, act_events p a @ L)"
    using 3(3,4) by (intro ls_prevote [OF _ _ run]) (auto simp: ns_ok_def act_ready_def)
  have fr: "ns_frame ns ?ns1" using act by (simp add: ns_frame_def)
  show ?case
  proof (cases "a = NoAction")
    case True
    with 3(2) run fr step show ?thesis by auto
  next
    case False
    then obtain acts1 out1 where rec: "execute_action cx fuel ?ns1 a = Some (ns', acts1, out1)"
        "acts = a # acts1"
      using 3(2) run by (auto split: option.splits)
    have "act_ready p (act_events p a @ L) ?ns1 a" using act by (auto simp: act_ready_def)
    from 3(1) [OF run [symmetric] refl refl refl False rec(1) ns_frame_ok [OF fr 3(3)] this]
    show ?thesis using step rec(2) fr
      by (auto intro: converse_rtranclp_into_rtranclp ns_frame_trans)
  qed
next
  case (4 cx fuel ns n r b)
  obtain tm a where run: "on_precommit (ns_tm ns) n r b (ns_local_id ns)
      (stake_of (ns_vset ns) (ns_local_id ns)) = (tm, a)" by force
  let ?ns1 = "ns_start_step cx (buffer_precommit (ns\<lparr>ns_tm := tm\<rparr>) (local_precommit cx ns n r b)) r StepPrecommit"
  note act = on_precommit_active [OF run]
  have step: "local_step cfg p (ns_tm ns, L) (tm, act_events p a @ L)"
    using 4(3,4) by (intro ls_precommit [OF _ _ run]) (auto simp: ns_ok_def act_ready_def signed_precommit_def)
  have fr: "ns_frame ns ?ns1" using act by (simp add: ns_frame_def)
  show ?case
  proof (cases "a = NoAction")
    case True
    with 4(2) run fr step show ?thesis by (auto simp: Let_def)
  next
    case False
    then obtain acts1 out1 where rec: "execute_action cx fuel ?ns1 a = Some (ns', acts1, out1)"
        "acts = a # acts1"
      using 4(2) run by (auto simp: Let_def split: option.splits)
    have "act_ready p (act_events p a @ L) ?ns1 a" using act by (auto simp: act_ready_def)
    from 4(1) [OF run [symmetric] refl refl refl refl False rec(1) ns_frame_ok [OF fr 4(3)] this]
    show ?thesis using step rec(2) fr
      by (auto intro: converse_rtranclp_into_rtranclp ns_frame_trans)
  qed
next
  case (5 cx fuel ns n r b)
  then show ?case by (auto simp: ns_frame_def act_ready_def)
next
  case (6 cx fuel ns n r)
  obtain tm buffered where run: "drain_buffered_votes (ns_tm ns) = (tm, buffered)" by force
  let ?ns1 = "(ns_start_step cx ns r StepPropose)\<lparr>ns_tm := tm\<rparr>"
  note act = drain_active [OF run]
  have "tm_active (ns_tm ns)" using 6(4) by (simp add: act_ready_def)
  then have step: "local_step cfg p (ns_tm ns, L) (tm, acts_events p buffered @ L)"
    using run by (rule ls_drain)
  have fr: "ns_frame ns ?ns1" using act by (simp add: ns_frame_def)
  obtain acts1 where rec: "execute_actions cx fuel ?ns1 buffered = Some (ns', acts1, out)"
      "acts = buffered @ acts1"
    using 6(2) run by (auto simp: Let_def split: option.splits)
  have "\<forall>a \<in> set buffered. act_ready p (acts_events p buffered @ L) ?ns1 a \<and> (\<forall>n r. a \<noteq> ScheduleProposal n r)"
    using act set_acts_events by (fastforce simp: act_ready_def)
  from 6(1) [OF refl _ refl rec(1) ns_frame_ok [OF fr 6(3)] this] show ?case
    using step rec(2) fr run by (auto intro: converse_rtranclp_into_rtranclp ns_frame_trans)
next
  case (7 cx fuel ns)
  then show ?case by simp
next
  case (8 cx fuel ns a as)
  obtain ns1 acts1 out1 acts2 out2 where
    one: "execute_action cx fuel ns a = Some (ns1, acts1, out1)" and
    rest: "execute_actions cx fuel ns1 as = Some (ns', acts2, out2)" "acts = acts1 @ acts2"
    using 8(3) by (auto split: option.splits)
  have "act_ready p L ns a" using 8(5) by simp
  from 8(1) [OF one 8(4) this] have r1: "(local_step cfg p)\<^sup>*\<^sup>* (ns_tm ns, L) (ns_tm ns1, acts_events p acts1 @ L)"
    and fr: "ns_frame ns ns1" by auto
  have "\<forall>a \<in> set as. act_ready p (acts_events p acts1 @ L) ns1 a \<and> (\<forall>n r. a \<noteq> ScheduleProposal n r)"
    using 8(5) fr by (auto simp: act_ready_def ns_frame_def)
  from 8(2) [OF one refl refl rest(1) ns_frame_ok [OF fr 8(4)] this] show ?case
    using r1 rest(2) fr by (auto intro: rtranclp_trans ns_frame_trans)
qed

lemma run_action_refines:
  assumes run: "run_action cx ns (tm, a) = Some (ns', acts, out)" and ok: "ns_ok cfg p ns"
    and step: "local_step cfg p (ns_tm ns, L) (tm, act_events p a @ L)"
    and act: "tm_height tm = tm_height (ns_tm ns)" "tm_active tm \<Longrightarrow> tm_active (ns_tm ns)"
      "\<And>n r. a = ScheduleProposal n r \<Longrightarrow> tm_active tm" "\<And>n r b. a = Commit n r b \<Longrightarrow> \<not> tm_active tm"
  shows "(local_step cfg p)\<^sup>*\<^sup>* (ns_tm ns, L) (ns_tm ns', acts_events p acts @ L) \<and> ns_frame ns ns'"
proof -
  let ?ns1 = "ns\<lparr>ns_tm := tm\<rparr>"
  obtain acts1 where rec: "execute_action cx EXEC_DEPTH ?ns1 a = Some (ns', acts1, out)" "acts = a # acts1"
    using run by (auto simp: run_action_def split: option.splits)
  have fr: "ns_frame ns ?ns1" using act by (simp add: ns_frame_def)
  have "act_ready p (act_events p a @ L) ?ns1 a" using act(3,4) by (auto simp: act_ready_def)
  from execute_refines(1) [OF rec(1) ns_frame_ok [OF fr ok] this] show ?thesis
    using step rec(2) fr by (auto intro: converse_rtranclp_into_rtranclp ns_frame_trans)
qed

text \<open>
  No forgery: a vote that passes the signature check of a node and names a correct validator
  was signed by that validator.
\<close>

definition genuine_prevote ::
  "net_config \<Rightarrow> crypto \<Rightarrow> node_state \<Rightarrow> tm_event list \<Rightarrow> network_prevote \<Rightarrow> bool" where
  "genuine_prevote cfg cr ns L pv \<longleftrightarrow>
     (verify_tendermint_prevote cr (ns_vset ns) pv (ns_chain_id ns) \<longrightarrow> net_correct cfg (pv_voter pv) \<longrightarrow>
        EvPrevote (pv_voter pv) (pv_height pv) (pv_round pv) (pv_block_hash pv) \<in> set L)"

definition genuine_precommit ::
  "net_config \<Rightarrow> crypto \<Rightarrow> node_state \<Rightarrow> tm_event list \<Rightarrow> network_precommit \<Rightarrow> bool" where
  "genuine_precommit cfg cr ns L pc \<longleftrightarrow>
     (verify_tendermint_precommit cr (ns_vset ns) pc (ns_chain_id ns) \<longrightarrow> net_correct cfg (pc_voter pc) \<longrightarrow>
        signed_precommit L (pc_voter pc) (pc_height pc) (pc_round pc) (pc_block_hash pc))"

abbreviation refines_steps ::
  "net_config \<Rightarrow> account_id \<Rightarrow> node_state \<Rightarrow> tm_event list \<Rightarrow> node_state \<Rightarrow> tm_event list \<Rightarrow> bool" where
  "refines_steps cfg p ns L ns' L' \<equiv> (local_step cfg p)\<^sup>*\<^sup>* (ns_tm ns, L) (ns_tm ns', L')"

lemma handle_prevote_refines:
  assumes run: "handle_prevote cx ns pv = Some (ns', acts, out)" and ok: "ns_ok cfg p ns"
    and gen: "genuine_prevote cfg (cx_crypto cx) ns L pv"
  shows "refines_steps cfg p ns L ns' (acts_events p acts @ L) \<and> ns_ok cfg p ns'"
proof (cases "stake_of (ns_vset ns) (pv_voter pv) = 0 \<or>
    \<not> verify_tendermint_prevote (cx_crypto cx) (ns_vset ns) pv (ns_chain_id ns)")
  case True
  with run ok show ?thesis by (auto simp: handle_prevote_def Let_def split: if_splits)
next
  case False
  obtain tm a where tm: "on_prevote (ns_tm ns) (pv_height pv) (pv_round pv) (pv_block_hash pv) (pv_voter pv)
      (stake_of (ns_vset ns) (pv_voter pv)) = (tm, a)" by force
  have run': "run_action cx ns (tm, a) = Some (ns', acts, out)"
    using run False tm by (simp add: handle_prevote_def Let_def)
  have "local_step cfg p (ns_tm ns, L) (tm, act_events p a @ L)"
    using gen False ok by (intro ls_prevote [OF _ _ tm]) (auto simp: genuine_prevote_def ns_ok_def)
  from run_action_refines [OF run' ok this] on_prevote_active [OF tm] show ?thesis
    using ns_frame_ok ok by blast
qed

lemma handle_precommit_refines:
  assumes run: "handle_precommit cx ns pc = Some (ns', acts, out)" and ok: "ns_ok cfg p ns"
    and gen: "genuine_precommit cfg (cx_crypto cx) ns L pc"
  shows "refines_steps cfg p ns L ns' (acts_events p acts @ L) \<and> ns_ok cfg p ns'"
proof (cases "stake_of (ns_vset ns) (pc_voter pc) = 0 \<or>
    \<not> verify_tendermint_precommit (cx_crypto cx) (ns_vset ns) pc (ns_chain_id ns)")
  case True
  with run ok show ?thesis by (auto simp: handle_precommit_def Let_def split: if_splits)
next
  case False
  define ns1 where "ns1 = (if pc_height pc = tm_height (ns_tm ns) then buffer_precommit ns pc else ns)"
  have ns1 [simp]: "ns_tm ns1 = ns_tm ns" and ok1: "ns_ok cfg p ns1"
    using ok by (auto simp: ns1_def ns_ok_def)
  obtain tm a where tm: "on_precommit (ns_tm ns) (pc_height pc) (pc_round pc) (pc_block_hash pc) (pc_voter pc)
      (stake_of (ns_vset ns) (pc_voter pc)) = (tm, a)" by force
  have run': "run_action cx ns1 (tm, a) = Some (ns', acts, out)"
    using run False tm by (simp add: handle_precommit_def Let_def flip: ns1_def)
  have "local_step cfg p (ns_tm ns1, L) (tm, act_events p a @ L)"
    unfolding ns1
    using gen False ok by (intro ls_precommit [OF _ _ tm]) (auto simp: genuine_precommit_def ns_ok_def)
  from run_action_refines [OF run' ok1 this] on_precommit_active [OF tm]
  have "refines_steps cfg p ns1 L ns' (acts_events p acts @ L) \<and> ns_ok cfg p ns'"
    using ns_frame_ok ok1 by (simp; blast)
  then show ?thesis by simp
qed

lemma handle_proposal_refines:
  assumes run: "handle_proposal_validated cx ns n r b vr prepared = Some (ns', acts, out)" and ok: "ns_ok cfg p ns"
  shows "refines_steps cfg p ns L ns' (acts_events p acts @ L) \<and> ns_ok cfg p ns'"
proof (cases "n \<noteq> tm_height (ns_tm ns) \<or> \<not> prepared")
  case True
  with run ok show ?thesis by (auto simp: handle_proposal_validated_def split: if_splits)
next
  case False
  obtain tm a where tm: "on_proposal (ns_tm ns) n r b vr = (tm, a)" by force
  obtain out' where run': "run_action cx ns (tm, a) = Some (ns', acts, out')"
    using run False tm by (auto simp: handle_proposal_validated_def)
  from run_action_refines [OF run' ok ls_proposal [OF tm]] on_proposal_active [OF tm] show ?thesis
    using ns_frame_ok ok by blast
qed

lemma handle_timeout_refines:
  assumes run: "handle_round_timeout cx ns = Some (ns', acts, out)" and ok: "ns_ok cfg p ns"
    and room: "tm_step (ns_tm ns) = StepPrecommit \<longrightarrow> tm_round (ns_tm ns) < tm_round (ns_tm ns) + 1"
  shows "refines_steps cfg p ns L ns' (acts_events p acts @ L) \<and> ns_ok cfg p ns'"
proof -
  obtain tm a where tm: "on_timeout (ns_tm ns) = (tm, a)" by force
  obtain ns1 where run': "run_action cx ns (tm, a) = Some (ns1, acts, out)"
      and ns': "ns' = (if tm_step (ns_tm ns1) = StepCommitted
        then ns_start_step cx ns1 (tm_round (ns_tm ns1)) StepCommitted else ns1)"
    using run tm by (auto simp: handle_round_timeout_def)
  from run_action_refines [OF run' ok ls_timeout [OF room tm]] on_timeout_active [OF tm]
  have "refines_steps cfg p ns L ns1 (acts_events p acts @ L) \<and> ns_ok cfg p ns1"
    using ns_frame_ok ok by blast
  then show ?thesis by (auto simp: ns' ns_ok_def)
qed

section \<open>Certificates\<close>

definition certificate_voters :: "node_cx \<Rightarrow> node_state \<Rightarrow> commit_certificate \<Rightarrow> network_precommit list \<Rightarrow> account_id set" where
  "certificate_voters cx ns cert pcs =
     pc_voter ` {pc \<in> set pcs. pc_height pc = cc_height cert \<and> pc_round pc = cc_round cert \<and>
       pc_block_hash pc = cc_block_hash cert \<and>
       verify_tendermint_precommit (cx_crypto cx) (ns_vset ns) pc (ns_chain_id ns)}"

lemma stake_in_insert:
  assumes "get_by_id vs v = Some w" and "v \<notin> A"
  shows "stake_in vs (insert v A) = unat (v_stake w) + stake_in vs A"
proof -
  have "v \<in> vs_ids vs" using get_by_id_Some [OF assms(1)] by (auto simp: vs_ids_def)
  then have "insert v A \<inter> vs_ids vs = insert v (A \<inter> vs_ids vs)" by auto
  then show ?thesis using assms by (simp add: stake_in_def stake_of_def)
qed

text \<open>No stake is counted twice: the sum is at most the stake of the distinct verified voters.\<close>

lemma certificate_stake_le:
  "unat (certificate_stake cx ns cert seen pcs) \<le>
   stake_in (ns_vset ns) (certificate_voters cx ns cert pcs - set seen)"
proof (induction pcs arbitrary: seen)
  case (Cons pc pcs)
  let ?vs = "ns_vset ns" and ?V = "certificate_voters cx ns cert pcs" and ?v = "pc_voter pc"
  let ?match = "pc_height pc = cc_height cert \<and> pc_round pc = cc_round cert \<and> pc_block_hash pc = cc_block_hash cert"
  let ?ver = "verify_tendermint_precommit (cx_crypto cx) ?vs pc (ns_chain_id ns)"
  have V: "certificate_voters cx ns cert (pc # pcs) = (if ?match \<and> ?ver then insert ?v ?V else ?V)"
    by (auto simp: certificate_voters_def)
  have mono: "stake_in ?vs (?V - insert ?v (set seen)) \<le> stake_in ?vs (certificate_voters cx ns cert (pc # pcs) - set seen)"
    "stake_in ?vs (?V - set seen) \<le> stake_in ?vs (certificate_voters cx ns cert (pc # pcs) - set seen)"
    by (rule stake_in_mono; auto simp: V)+
  show ?case
  proof (cases "?match \<and> ?v \<notin> set seen \<and> ?ver \<and> get_by_id ?vs ?v \<noteq> None")
    case True
    then obtain w where w: "get_by_id ?vs ?v = Some w" by blast
    have "certificate_voters cx ns cert (pc # pcs) - set seen = insert ?v (?V - insert ?v (set seen))"
      using True V by auto
    then have "stake_in ?vs (certificate_voters cx ns cert (pc # pcs) - set seen) =
        unat (v_stake w) + stake_in ?vs (?V - insert ?v (set seen))"
      using stake_in_insert [OF w] by simp
    then show ?thesis
      using True w Cons.IH [of "?v # seen"]
        unat_add_le [of "v_stake w" "certificate_stake cx ns cert (?v # seen) pcs"]
      by (simp add: Let_def)
  next
    case False
    have "certificate_stake cx ns cert seen (pc # pcs) = certificate_stake cx ns cert seen pcs \<or>
        certificate_stake cx ns cert seen (pc # pcs) = certificate_stake cx ns cert (?v # seen) pcs"
      using False by (auto simp: Let_def split: option.split)
    then show ?thesis using Cons.IH [of seen] Cons.IH [of "?v # seen"] mono by fastforce
  qed
qed simp

lemma certificate_quorum:
  assumes acc: "certificate_accepted cx ns cert" and ok: "ns_ok cfg p ns"
    and gen: "\<And>pc. pc \<in> set (cc_precommits cert) \<Longrightarrow> genuine_precommit cfg (cx_crypto cx) ns L pc"
  shows "tm_active (ns_tm ns)" "cc_block_hash cert \<noteq> NIL_BLOCK_HASH" "cc_height cert = tm_height (ns_tm ns)"
    "tm_signature_quorum cfg L (tm_height (ns_tm ns)) (cc_round cert) (cc_block_hash cert)"
proof -
  let ?V = "certificate_voters cx ns cert (cc_precommits cert)"
  show act: "tm_active (ns_tm ns)" and "cc_block_hash cert \<noteq> NIL_BLOCK_HASH"
    and height: "cc_height cert = tm_height (ns_tm ns)"
    using acc by (auto simp: certificate_accepted_def tm_active_def split: if_splits)
  have vs: "ns_vset ns = nc_vset cfg (tm_height (ns_tm ns))" using ok act by (simp add: ns_ok_def)
  have "has_quorum (certificate_stake cx ns cert [] (cc_precommits cert)) (vs_total_stake (ns_vset ns))"
    using acc by (simp add: certificate_accepted_def split: if_splits)
  then have "net_quorum cfg (tm_height (ns_tm ns)) ?V"
    using certificate_stake_le [of cx ns cert "[]" "cc_precommits cert"]
    by (simp add: has_quorum_iff net_quorum_def vs)
  moreover have "signed_precommit L v (tm_height (ns_tm ns)) (cc_round cert) (cc_block_hash cert)"
    if "v \<in> ?V" "net_correct cfg v" for v
    using that gen unfolding certificate_voters_def genuine_precommit_def height [symmetric] by force
  ultimately show "tm_signature_quorum cfg L (tm_height (ns_tm ns)) (cc_round cert) (cc_block_hash cert)"
    unfolding signature_quorum_def by blast
qed

lemma merge_precommits_fields [simp]:
  "ns_tm (merge_precommits ns cert pcs) = ns_tm ns"
  "ns_local_id (merge_precommits ns cert pcs) = ns_local_id ns"
  "ns_vset (merge_precommits ns cert pcs) = ns_vset ns"
  by (induction pcs arbitrary: ns) auto

lemma handle_certificate_refines:
  assumes run: "handle_commit_certificate cx ns cert = Some (ns', acts, out)" and ok: "ns_ok cfg p ns"
    and gen: "\<And>pc. pc \<in> set (cc_precommits cert) \<Longrightarrow> genuine_precommit cfg (cx_crypto cx) ns L pc"
  shows "refines_steps cfg p ns L ns' (acts_events p acts @ L) \<and> ns_ok cfg p ns'"
proof (cases "certificate_accepted cx ns cert")
  case False
  with run ok show ?thesis by (auto simp: handle_commit_certificate_def)
next
  case True
  note q = certificate_quorum [OF True ok gen]
  have "local_step cfg p (ns_tm ns, L)
      (force_commit (ns_tm ns) (tm_height (ns_tm ns)) (cc_round cert) (cc_block_hash cert),
       EvCommit p (tm_height (ns_tm ns)) (cc_round cert) (cc_block_hash cert) # L)"
    using q by (intro ls_certificate)
  then show ?thesis
    using run ok True q(3)
    by (auto simp: handle_commit_certificate_def Let_def ns_ok_def force_commit_def tm_active_def)
qed

section \<open>The system\<close>

text \<open>
  One node state per validator and the history. A node starts at its own height; then any
  correct node may run any handler on any input. What the inputs cannot contain is a forged
  signature of a correct validator. When a node takes up a new height, its validator set is the
  configured one, so all correct nodes run a height with the same set.
\<close>

record system =
  sys_nodes :: "account_id \<Rightarrow> node_state"
  sys_log :: "tm_event list"

definition sys_put :: "system \<Rightarrow> account_id \<Rightarrow> node_state \<Rightarrow> tm_action list \<Rightarrow> system" where
  "sys_put sys p ns acts =
     \<lparr>sys_nodes = (sys_nodes sys)(p := ns), sys_log = acts_events p acts @ sys_log sys\<rparr>"

definition node_initial :: "net_config \<Rightarrow> account_id \<Rightarrow> node_state \<Rightarrow> bool" where
  "node_initial cfg p ns \<longleftrightarrow>
     (\<exists>n. ns_tm ns = tm_new n (vs_total_stake (nc_vset cfg n)) \<and> ns_vset ns = nc_vset cfg n) \<and>
     ns_local_id ns = p \<and> ns_pending ns = None"

inductive sys_step :: "net_config \<Rightarrow> crypto \<Rightarrow> system \<Rightarrow> system \<Rightarrow> bool" for cfg cr where
  sys_proposal: "net_correct cfg p \<Longrightarrow> cx_crypto cx = cr \<Longrightarrow>
    handle_proposal_validated cx (sys_nodes sys p) n r b vr prepared = Some (ns, acts, out) \<Longrightarrow>
    sys_step cfg cr sys (sys_put sys p ns acts)"
| sys_prevote: "net_correct cfg p \<Longrightarrow> cx_crypto cx = cr \<Longrightarrow>
    genuine_prevote cfg cr (sys_nodes sys p) (sys_log sys) pv \<Longrightarrow>
    handle_prevote cx (sys_nodes sys p) pv = Some (ns, acts, out) \<Longrightarrow>
    sys_step cfg cr sys (sys_put sys p ns acts)"
| sys_precommit: "net_correct cfg p \<Longrightarrow> cx_crypto cx = cr \<Longrightarrow>
    genuine_precommit cfg cr (sys_nodes sys p) (sys_log sys) pc \<Longrightarrow>
    handle_precommit cx (sys_nodes sys p) pc = Some (ns, acts, out) \<Longrightarrow>
    sys_step cfg cr sys (sys_put sys p ns acts)"
| sys_certificate: "net_correct cfg p \<Longrightarrow> cx_crypto cx = cr \<Longrightarrow>
    list_all (genuine_precommit cfg cr (sys_nodes sys p) (sys_log sys)) (cc_precommits cert) \<Longrightarrow>
    handle_commit_certificate cx (sys_nodes sys p) cert = Some (ns, acts, out) \<Longrightarrow>
    sys_step cfg cr sys (sys_put sys p ns acts)"
| sys_timeout: "net_correct cfg p \<Longrightarrow> cx_crypto cx = cr \<Longrightarrow>
    (tm_step (ns_tm (sys_nodes sys p)) = StepPrecommit \<longrightarrow>
       tm_round (ns_tm (sys_nodes sys p)) < tm_round (ns_tm (sys_nodes sys p)) + 1) \<Longrightarrow>
    handle_round_timeout cx (sys_nodes sys p) = Some (ns, acts, out) \<Longrightarrow>
    sys_step cfg cr sys (sys_put sys p ns acts)"
| sys_finalized: "net_correct cfg p \<Longrightarrow> cx_crypto cx = cr \<Longrightarrow>
    handle_commit_finalized cx (sys_nodes sys p) n r b effective = (ns, out) \<Longrightarrow>
    sys_step cfg cr sys (sys_put sys p ns [])"
| sys_advance: "net_correct cfg p \<Longrightarrow> cx_crypto cx = cr \<Longrightarrow>
    try_advance_height cx (sys_nodes sys p) = (ns, out) \<Longrightarrow>
    tm_height (ns_tm (sys_nodes sys p)) \<noteq> - 1 \<Longrightarrow> ns_vset ns = nc_vset cfg (tm_height (ns_tm ns)) \<Longrightarrow>
    sys_step cfg cr sys (sys_put sys p ns [])"
| sys_sync: "net_correct cfg p \<Longrightarrow> cx_crypto cx = cr \<Longrightarrow>
    handle_block_synced cx ((sys_nodes sys p)\<lparr>ns_vset := effective\<rparr>) slot = (ns, True) \<Longrightarrow>
    ns_vset ns = nc_vset cfg (tm_height (ns_tm ns)) \<Longrightarrow>
    sys_step cfg cr sys (sys_put sys p ns [])"

inductive sys_reach :: "net_config \<Rightarrow> crypto \<Rightarrow> system \<Rightarrow> bool" for cfg cr where
  reach_init: "(\<And>p. node_initial cfg p (sys_nodes sys p)) \<Longrightarrow> sys_log sys = [] \<Longrightarrow> sys_reach cfg cr sys"
| reach_step: "sys_reach cfg cr sys \<Longrightarrow> sys_step cfg cr sys sys' \<Longrightarrow> sys_reach cfg cr sys'"

definition sys_inv :: "net_config \<Rightarrow> system \<Rightarrow> bool" where
  "sys_inv cfg sys \<longleftrightarrow> tm_hist_ok cfg (sys_log sys) \<and>
     (\<forall>p. net_correct cfg p \<longrightarrow>
        ns_ok cfg p (sys_nodes sys p) \<and> node_inv cfg (sys_log sys) p (ns_tm (sys_nodes sys p)))"

lemma node_inv_initial: "node_inv cfg [] p (tm_new n (vs_total_stake (nc_vset cfg n)))"
  by (simp add: node_inv_parts tm_new_def)

lemma steps_good: "(local_step cfg p)\<^sup>*\<^sup>* x y \<Longrightarrow> net_valid cfg \<Longrightarrow> good cfg p x \<Longrightarrow> good cfg p y"
  by (induction rule: rtranclp_induct) (auto intro: local_step_good)

text \<open>A node that moved by steps of its own machine, and nobody else's events, keeps everything.\<close>

lemma sys_inv_put:
  assumes v: "net_valid cfg" and inv: "sys_inv cfg sys" and p: "net_correct cfg p"
    and ref: "refines_steps cfg p (sys_nodes sys p) (sys_log sys) ns (acts_events p acts @ sys_log sys)"
    and ok: "ns_ok cfg p ns"
  shows "sys_inv cfg (sys_put sys p ns acts)"
proof -
  let ?L = "acts_events p acts @ sys_log sys"
  have "good cfg p (ns_tm (sys_nodes sys p), sys_log sys)"
    using inv p by (simp add: sys_inv_def good_def)
  then have g: "good cfg p (ns_tm ns, ?L)" using steps_good [OF ref v] by blast
  have "node_inv cfg ?L q (ns_tm (sys_nodes sys q))" if "net_correct cfg q" "q \<noteq> p" for q
    using inv that by (intro node_inv_other) (auto simp: sys_inv_def dest: acts_events_actor)
  with g inv ok show ?thesis by (auto simp: sys_inv_def sys_put_def good_def)
qed

lemma finalized_frame:
  assumes "handle_commit_finalized cx ns n r b effective = (ns', out)"
  shows "ns_tm ns' = ns_tm ns" "ns_local_id ns' = ns_local_id ns"
    "ns_pending ns = None \<Longrightarrow> ns' = ns"
  using assms
  by (auto simp: handle_commit_finalized_def broadcast_certificate_def Let_def split: option.splits if_splits)

lemma word_less_Suc: "x \<noteq> - 1 \<Longrightarrow> x < x + (1 :: 'a::len word)"
proof -
  assume "x \<noteq> - 1"
  then have "unat x \<noteq> 2 ^ LENGTH('a) - 1" by (metis unat_max unsigned_word_eqI)
  with unat_lt [of x] have "unat x + 1 < 2 ^ LENGTH('a)" by linarith
  then have "unat (x + 1) = unat x + 1" by (simp add: unat_add_no_wrap)
  then show ?thesis by (simp add: word_less_nat_alt)
qed

lemma advance_refines:
  assumes run: "try_advance_height cx ns = (ns', out)" and ok: "ns_ok cfg p ns"
    and room: "tm_height (ns_tm ns) \<noteq> - 1" and vs: "ns_vset ns' = nc_vset cfg (tm_height (ns_tm ns'))"
  shows "refines_steps cfg p ns L ns' L \<and> ns_ok cfg p ns'"
proof (cases "tm_step (ns_tm ns) = StepCommitted \<and> tm_committed_hash (ns_tm ns) \<noteq> None \<and> ns_pending ns = None")
  case True
  let ?n = "tm_height (ns_tm ns) + 1"
  have ns': "ns_tm ns' = new_height (ns_tm ns) ?n (vs_total_stake (ns_vset ns'))"
      "ns_local_id ns' = ns_local_id ns" "ns_pending ns' = None"
    using run True by (auto simp: try_advance_height_def advance_height_def ns_start_step_def Let_def)
  have "tm_height (ns_tm ns') = ?n" by (simp add: ns' new_height_def)
  with ls_advance [of "ns_tm ns" ?n cfg p L] ns' vs word_less_Suc [OF room]
  have "local_step cfg p (ns_tm ns, L) (ns_tm ns', L)" by simp
  with ok vs ns' show ?thesis by (auto simp: ns_ok_def)
next
  case False
  with run ok show ?thesis by (auto simp: try_advance_height_def)
qed

lemma sync_refines:
  assumes run: "handle_block_synced cx (ns\<lparr>ns_vset := effective\<rparr>) slot = (ns', True)"
    and ok: "ns_ok cfg p ns" and vs: "ns_vset ns' = nc_vset cfg (tm_height (ns_tm ns'))"
  shows "refines_steps cfg p ns L ns' L \<and> ns_ok cfg p ns'"
proof -
  let ?n = "saturating_add slot 1"
  have ns': "tm_height (ns_tm ns) < ?n" "ns_tm ns' = new_height (ns_tm ns) ?n (vs_total_stake (ns_vset ns'))"
      "ns_local_id ns' = ns_local_id ns" "ns_pending ns' = None"
    using run by (auto simp: handle_block_synced_def maybe_advance_engine_to_synced_block_def
        advance_height_def ns_start_step_def Let_def split: if_splits)
  have "tm_height (ns_tm ns') = ?n" by (simp add: ns'(2) new_height_def)
  with ls_advance [OF ns'(1), of cfg p L] ns' vs
  have "local_step cfg p (ns_tm ns, L) (ns_tm ns', L)" by simp
  with ok vs ns' show ?thesis by (auto simp: ns_ok_def)
qed

text \<open>Every step of the system is a run of machine steps of one correct validator.\<close>

lemma sys_step_refines:
  assumes step: "sys_step cfg cr sys sys'" and inv: "\<And>p. net_correct cfg p \<Longrightarrow> ns_ok cfg p (sys_nodes sys p)"
  shows "\<exists>p ns acts. net_correct cfg p \<and> sys' = sys_put sys p ns acts \<and> ns_ok cfg p ns \<and>
    refines_steps cfg p (sys_nodes sys p) (sys_log sys) ns (acts_events p acts @ sys_log sys)"
  using step
proof cases
  case (sys_proposal p cx n r b vr prepared ns acts out)
  from handle_proposal_refines [OF sys_proposal(4) inv [OF sys_proposal(2)]] show ?thesis
    using sys_proposal(1,2) by (intro exI [of _ p] exI [of _ ns] exI [of _ acts]) simp
next
  case (sys_prevote p cx pv ns acts out)
  from handle_prevote_refines [OF sys_prevote(5) inv [OF sys_prevote(2)]] show ?thesis
    using sys_prevote(1-4) by (intro exI [of _ p] exI [of _ ns] exI [of _ acts]) simp
next
  case (sys_precommit p cx pc ns acts out)
  from handle_precommit_refines [OF sys_precommit(5) inv [OF sys_precommit(2)]] show ?thesis
    using sys_precommit(1-4) by (intro exI [of _ p] exI [of _ ns] exI [of _ acts]) simp
next
  case (sys_certificate p cx cert ns acts out)
  then have "genuine_precommit cfg (cx_crypto cx) (sys_nodes sys p) (sys_log sys) pc"
    if "pc \<in> set (cc_precommits cert)" for pc using that by (simp add: list_all_iff)
  from handle_certificate_refines [OF sys_certificate(5) inv [OF sys_certificate(2)] this] show ?thesis
    using sys_certificate(1,2) by (intro exI [of _ p] exI [of _ ns] exI [of _ acts]) simp
next
  case (sys_timeout p cx ns acts out)
  from handle_timeout_refines [OF sys_timeout(5) inv [OF sys_timeout(2)] sys_timeout(4)] show ?thesis
    using sys_timeout(1,2) by (intro exI [of _ p] exI [of _ ns] exI [of _ acts]) simp
next
  case (sys_finalized p cx n r b effective ns out)
  then have "ns_ok cfg p ns" using inv [of p] finalized_frame [OF sys_finalized(4)] by (auto simp: ns_ok_def)
  then show ?thesis
    using sys_finalized finalized_frame(1) [OF sys_finalized(4)]
    by (intro exI [of _ p] exI [of _ ns] exI [of _ "[]"]) simp
next
  case (sys_advance p cx ns out)
  from advance_refines [OF sys_advance(4) inv [OF sys_advance(2)] sys_advance(5,6)] show ?thesis
    using sys_advance by (intro exI [of _ p] exI [of _ ns] exI [of _ "[]"]) simp
next
  case (sys_sync p cx effective slot ns)
  from sync_refines [OF sys_sync(4) inv [OF sys_sync(2)] sys_sync(5)] show ?thesis
    using sys_sync by (intro exI [of _ p] exI [of _ ns] exI [of _ "[]"]) simp
qed

lemma sys_reach_inv: "sys_reach cfg cr sys \<Longrightarrow> net_valid cfg \<Longrightarrow> sys_inv cfg sys"
proof (induction rule: sys_reach.induct)
  case (reach_init sys)
  have "ns_ok cfg p (sys_nodes sys p) \<and> node_inv cfg [] p (ns_tm (sys_nodes sys p))" for p
  proof -
    obtain n where "ns_tm (sys_nodes sys p) = tm_new n (vs_total_stake (nc_vset cfg n))"
        "ns_vset (sys_nodes sys p) = nc_vset cfg n" "ns_local_id (sys_nodes sys p) = p"
        "ns_pending (sys_nodes sys p) = None"
      using reach_init(1) [of p] by (auto simp: node_initial_def)
    then show ?thesis using node_inv_initial [of cfg p n] by (simp add: ns_ok_def) (simp add: tm_new_def)
  qed
  with reach_init show ?case by (simp add: sys_inv_def)
next
  case (reach_step sys sys')
  then have inv: "sys_inv cfg sys" by simp
  then have "ns_ok cfg p (sys_nodes sys p)" if "net_correct cfg p" for p
    using that by (simp add: sys_inv_def)
  from sys_step_refines [OF reach_step(2) this] show ?case
    using sys_inv_put [OF reach_step(4) inv] by blast
qed

section \<open>What a node has committed\<close>

definition committed_ok :: "account_id \<Rightarrow> tendermint_state \<times> tm_event list \<Rightarrow> bool" where
  "committed_ok p x \<longleftrightarrow>
     (\<forall>b. tm_committed_hash (fst x) = Some b \<longrightarrow> (\<exists>r. EvCommit p (tm_height (fst x)) r b \<in> set (snd x)))"

lemma committed_ok_mono:
  "committed_ok p (s, L) \<Longrightarrow> tm_height s' = tm_height s \<Longrightarrow> tm_committed_hash s' = tm_committed_hash s \<Longrightarrow>
   set L \<subseteq> set L' \<Longrightarrow> committed_ok p (s', L')"
  unfolding committed_ok_def by (simp; blast)

lemma on_prevote_committed:
  "on_prevote s n r b v st = (s', a) \<Longrightarrow>
   tm_height s' = tm_height s \<and> tm_committed_hash s' = tm_committed_hash s"
  by (auto simp: on_prevote_def buffer_vote_def late_prevote_def do_prevote_def
      do_precommit_def Let_def split: if_splits option.splits)

lemma on_proposal_committed:
  "on_proposal s n r b vr = (s', a) \<Longrightarrow>
   tm_height s' = tm_height s \<and> tm_committed_hash s' = tm_committed_hash s"
  by (auto simp: on_proposal_def do_prevote_def Let_def split: if_splits option.splits)

lemma on_timeout_committed:
  "on_timeout s = (s', a) \<Longrightarrow> tm_height s' = tm_height s \<and> tm_committed_hash s' = tm_committed_hash s"
  by (cases "tm_step s") (auto simp: on_timeout_def tm_op_defs split: if_splits)

lemma precommit_committed:
  assumes run: "on_precommit s n r b v st = (s', a)" and c: "committed_ok p (s, L)"
  shows "committed_ok p (s', act_events p a @ L)"
  by (rule on_precommit_cases [of s n r b v st])
    (use run c in \<open>auto simp: committed_ok_def buffer_vote_def\<close>)

lemma prevote_committed:
  assumes "on_prevote s n r b v st = (s', a)" and "committed_ok p (s, L)"
  shows "committed_ok p (s', act_events p a @ L)"
  using committed_ok_mono [OF assms(2)] on_prevote_committed [OF assms(1)] by simp

lemma replay_committed:
  "replay_votes s votes = (s', acts) \<Longrightarrow> committed_ok p (s, L) \<Longrightarrow>
   committed_ok p (s', acts_events p acts @ L)"
proof (induction votes arbitrary: s L acts)
  case (Cons bv votes)
  obtain w b st ip where bv: "bv = (w, b, st, ip)" by (cases bv)
  let ?op = "if ip then on_precommit s (tm_height s) (tm_round s) b w st
             else on_prevote s (tm_height s) (tm_round s) b w st"
  obtain s1 a where op: "?op = (s1, a)" by (cases ?op)
  obtain acts1 where rest: "replay_votes s1 votes = (s', acts1)"
      "acts = (if a \<noteq> NoAction then a # acts1 else acts1)"
    using Cons.prems(1) op by (auto simp: bv split: prod.splits)
  have "committed_ok p (s1, act_events p a @ L)"
    using op precommit_committed prevote_committed Cons.prems(2) by (cases ip) (simp; blast)+
  from Cons.IH [OF rest(1) this] show ?case using rest(2) by (cases "a = NoAction") auto
qed simp

lemma drain_committed:
  assumes "drain_buffered_votes s = (s', acts)" and c: "committed_ok p (s, L)"
  shows "committed_ok p (s', acts_events p acts @ L)"
proof (cases "map_of (tm_future_votes s) (tm_round s)")
  case None
  with assms show ?thesis by (simp add: drain_buffered_votes_def)
next
  case (Some votes)
  then obtain fv where "replay_votes (s\<lparr>tm_future_votes := fv\<rparr>) votes = (s', acts)"
    using assms by (auto simp: drain_buffered_votes_def Let_def split: if_splits)
  moreover have "committed_ok p (s\<lparr>tm_future_votes := fv\<rparr>, L)" using c by (simp add: committed_ok_def)
  ultimately show ?thesis by (rule replay_committed)
qed

lemma local_step_committed: "local_step cfg p x y \<Longrightarrow> committed_ok p x \<Longrightarrow> committed_ok p y"
proof (induction rule: local_step.induct)
  case (ls_proposal s n r b vr s' a L)
  then show ?case using committed_ok_mono [OF ls_proposal(2)] on_proposal_committed by simp
next
  case (ls_prevote v n r b L s st s' a)
  show ?case by (rule prevote_committed [OF ls_prevote(3,4)])
next
  case (ls_precommit v n r b L s st s' a)
  show ?case by (rule precommit_committed [OF ls_precommit(3,4)])
next
  case (ls_timeout s s' a L)
  then show ?case using committed_ok_mono [OF ls_timeout(3)] on_timeout_committed by simp
next
  case (ls_drain s s' acts L)
  show ?case by (rule drain_committed [OF ls_drain(2,3)])
qed (auto simp: committed_ok_def force_commit_def new_height_def)

lemma sys_reach_committed:
  assumes "sys_reach cfg cr sys" and "net_valid cfg" and "net_correct cfg p"
  shows "committed_ok p (ns_tm (sys_nodes sys p), sys_log sys)"
  using assms
proof (induction arbitrary: p rule: sys_reach.induct)
  case (reach_init sys)
  obtain n where "ns_tm (sys_nodes sys p) = tm_new n (vs_total_stake (nc_vset cfg n))"
    using reach_init(1) [of p] by (auto simp: node_initial_def)
  then show ?case by (simp add: committed_ok_def tm_new_def)
next
  case (reach_step sys sys')
  have "ns_ok cfg q (sys_nodes sys q)" if "net_correct cfg q" for q
    using that sys_reach_inv [OF reach_step(1,4)] by (simp add: sys_inv_def)
  from sys_step_refines [OF reach_step(2) this] obtain q ns acts where
    q: "net_correct cfg q" "sys' = sys_put sys q ns acts"
      "refines_steps cfg q (sys_nodes sys q) (sys_log sys) ns (acts_events q acts @ sys_log sys)"
    by blast
  have "committed_ok q (ns_tm ns, acts_events q acts @ sys_log sys)"
    using q(3) reach_step(3) [OF reach_step(4) q(1)]
    by (induction rule: rtranclp_induct) (auto intro: local_step_committed)
  moreover have "committed_ok p (ns_tm (sys_nodes sys p), acts_events q acts @ sys_log sys)"
    by (rule committed_ok_mono [OF reach_step(3) [OF reach_step(4,5)]]) auto
  ultimately show ?case by (simp add: q(2) sys_put_def)
qed

section \<open>Properties\<close>

text \<open>
  C4: A commit certificate is accepted only for the node's undecided height, its chain and a
  real block, and only if the distinct known validators with a valid signature over exactly
  this height, round and block hold two thirds of the stake. Repeating a precommit in the
  certificate, or adding precommits for something else, gains nothing.
\<close>

theorem accepted_certificate_has_quorum:
  assumes "certificate_accepted cx ns cert"
  shows "tm_active (ns_tm ns) \<and> cc_height cert = tm_height (ns_tm ns) \<and> cc_chain_id cert = ns_chain_id ns \<and>
    cc_block_hash cert \<noteq> NIL_BLOCK_HASH \<and>
    2 * unat (vs_total_stake (ns_vset ns)) \<le>
      3 * stake_in (ns_vset ns) (certificate_voters cx ns cert (cc_precommits cert))"
proof -
  let ?st = "certificate_stake cx ns cert [] (cc_precommits cert)"
  have "has_quorum ?st (vs_total_stake (ns_vset ns))"
    using assms by (simp add: certificate_accepted_def split: if_splits)
  then have "2 * unat (vs_total_stake (ns_vset ns)) \<le> 3 * unat ?st" by (simp add: has_quorum_iff)
  also have "\<dots> \<le> 3 * stake_in (ns_vset ns) (certificate_voters cx ns cert (cc_precommits cert))"
    using certificate_stake_le [of cx ns cert "[]" "cc_precommits cert"] by simp
  finally show ?thesis
    using assms by (simp add: certificate_accepted_def tm_active_def split: if_splits)
qed

definition sample_certificate :: commit_certificate where
  "sample_certificate =
     \<lparr>cc_height = 1, cc_round = 0, cc_block_hash = 7, cc_chain_id = 1,
      cc_precommits = [local_precommit sample_cx (sample_node 1) 1 0 7,
        local_precommit sample_cx (sample_node 1) 1 0 7, local_precommit sample_cx (sample_node 3) 1 0 7]\<rparr>"

theorem accepted_certificate_has_quorum_witness:
  "2 * unat (vs_total_stake sample_vset) \<le>
     3 * stake_in sample_vset (certificate_voters sample_cx (sample_node 2) sample_certificate
           (cc_precommits sample_certificate))"
proof -
  have "certificate_accepted sample_cx (sample_node 2) sample_certificate" by code_simp
  from accepted_certificate_has_quorum [OF this] show ?thesis by (simp add: sample_node_def)
qed

end
