(* ===== verification/Scenario.thy ===== *)
theory Scenario
  imports Node_Safety
begin

text \<open>
  An executable scheduler for the system of \<open>Node_Safety\<close>: it runs a list of inputs, checks
  that none is forged, and is sound for \<open>sys_reach\<close>. With it a concrete network of four
  validators, one of them faulty, is run until two correct nodes have committed.
\<close>

datatype node_input =
    InProposal u64 u32 hash32 "u32 option" bool
  | InPrevote network_prevote
  | InPrecommit network_precommit
  | InCertificate commit_certificate
  | InTimeout

fun node_handle :: "node_cx \<Rightarrow> node_state \<Rightarrow> node_input \<Rightarrow> exec_result" where
  "node_handle cx ns (InProposal n r b vr prepared) = handle_proposal_validated cx ns n r b vr prepared"
| "node_handle cx ns (InPrevote pv) = handle_prevote cx ns pv"
| "node_handle cx ns (InPrecommit pc) = handle_precommit cx ns pc"
| "node_handle cx ns (InCertificate cert) = handle_commit_certificate cx ns cert"
| "node_handle cx ns InTimeout = handle_round_timeout cx ns"

fun input_genuine :: "net_config \<Rightarrow> crypto \<Rightarrow> node_state \<Rightarrow> tm_event list \<Rightarrow> node_input \<Rightarrow> bool" where
  "input_genuine cfg cr ns L (InProposal n r b vr prepared) = True"
| "input_genuine cfg cr ns L (InPrevote pv) = genuine_prevote cfg cr ns L pv"
| "input_genuine cfg cr ns L (InPrecommit pc) = genuine_precommit cfg cr ns L pc"
| "input_genuine cfg cr ns L (InCertificate cert) = list_all (genuine_precommit cfg cr ns L) (cc_precommits cert)"
| "input_genuine cfg cr ns L InTimeout =
     (tm_step (ns_tm ns) = StepPrecommit \<longrightarrow> tm_round (ns_tm ns) < tm_round (ns_tm ns) + 1)"

fun sys_run :: "net_config \<Rightarrow> node_cx \<Rightarrow> system \<Rightarrow> (account_id \<times> node_input) list \<Rightarrow> system option" where
  "sys_run cfg cx sys [] = Some sys"
| "sys_run cfg cx sys ((p, i) # rest) =
     (if \<not> net_correct cfg p \<or> \<not> input_genuine cfg (cx_crypto cx) (sys_nodes sys p) (sys_log sys) i then None
      else case node_handle cx (sys_nodes sys p) i of
        None \<Rightarrow> None
      | Some (ns, acts, out) \<Rightarrow> sys_run cfg cx (sys_put sys p ns acts) rest)"

lemma node_handle_step:
  assumes p: "net_correct cfg p" and gen: "input_genuine cfg (cx_crypto cx) (sys_nodes sys p) (sys_log sys) i"
    and run: "node_handle cx (sys_nodes sys p) i = Some (ns, acts, out)"
  shows "sys_step cfg (cx_crypto cx) sys (sys_put sys p ns acts)"
proof (cases i)
  case (InProposal n r b vr prepared)
  with p run show ?thesis by (intro sys_proposal [of cfg p cx]) auto
next
  case (InPrevote pv)
  with p gen run show ?thesis by (intro sys_prevote [of cfg p cx]) auto
next
  case (InPrecommit pc)
  with p gen run show ?thesis by (intro sys_precommit [of cfg p cx]) auto
next
  case (InCertificate cert)
  with p gen run show ?thesis by (intro sys_certificate [of cfg p cx]) auto
next
  case InTimeout
  with p gen run show ?thesis by (intro sys_timeout [of cfg p cx]) auto
qed

lemma sys_run_reach:
  "sys_run cfg cx sys inputs = Some sys' \<Longrightarrow> sys_reach cfg (cx_crypto cx) sys \<Longrightarrow>
   sys_reach cfg (cx_crypto cx) sys'"
proof (induction inputs arbitrary: sys)
  case (Cons x rest)
  obtain p i where x: "x = (p, i)" by (cases x)
  then obtain ns acts out where
    "net_correct cfg p" "input_genuine cfg (cx_crypto cx) (sys_nodes sys p) (sys_log sys) i"
    "node_handle cx (sys_nodes sys p) i = Some (ns, acts, out)"
    and rest: "sys_run cfg cx (sys_put sys p ns acts) rest = Some sys'"
    using Cons.prems(1) by (auto split: if_splits option.splits)
  then have "sys_reach cfg (cx_crypto cx) (sys_put sys p ns acts)"
    using reach_step [OF Cons.prems(2)] node_handle_step by blast
  with Cons.IH [OF rest] show ?case .
qed simp

section \<open>Four validators, one faulty\<close>

definition demo_validator :: "account_id \<Rightarrow> validator" where
  "demo_validator p =
     \<lparr>v_id_com = p, v_stake = 10, v_index = ucast p,
      v_signing_pubkey = \<lparr>pk_alg = Ed25519, pk_bytes = replicate 32 (ucast p)\<rparr>,
      v_capabilities = default_capabilities\<rparr>"

definition demo_vset :: validator_set where
  "demo_vset = vs_new (map demo_validator [1, 2, 3, 4])"

definition demo_cfg :: net_config where
  "demo_cfg = \<lparr>nc_vset = (\<lambda>n. demo_vset), nc_faulty = {4}\<rparr>"

text \<open>A signature scheme that accepts every well-formed signature; forgery is excluded by the inputs.\<close>

definition demo_crypto :: crypto where
  "demo_crypto =
     \<lparr>sha256 = (\<lambda>m. 0), ed25519_key = (\<lambda>k. True), ed25519_verify_strict = (\<lambda>k m s. True),
      k256_key = (\<lambda>k. True), k256_sig = (\<lambda>s. True), k256_verify = (\<lambda>k m s. True),
      ml_dsa_key = (\<lambda>k. True), ml_dsa_verify = (\<lambda>k m s. True),
      hmac_key = (\<lambda>k. True), hmac_verify_slice = (\<lambda>k m s. True)\<rparr>"

definition demo_cx :: node_cx where
  "demo_cx = \<lparr>cx_crypto = demo_crypto, cx_sign = (\<lambda>m. zero_ed25519_sig), cx_now = 0\<rparr>"

definition demo_node :: "account_id \<Rightarrow> node_state" where
  "demo_node p =
     \<lparr>ns_tm = tm_new 1 (vs_total_stake demo_vset), ns_vset = demo_vset, ns_local_id = p,
      ns_chain_id = 1, ns_timer = rt_new timeout_config_default 0, ns_pending = None,
      ns_precommits = [], ns_round0_commits = 0, ns_total_commits = 0\<rparr>"

definition demo_init :: system where
  "demo_init = \<lparr>sys_nodes = demo_node, sys_log = []\<rparr>"

definition demo_prevote :: "account_id \<Rightarrow> hash32 \<Rightarrow> node_input" where
  "demo_prevote p b = InPrevote
     \<lparr>pv_height = 1, pv_round = 0, pv_block_hash = b, pv_voter = p, pv_voter_stake = 10,
      pv_signature = zero_ed25519_sig, pv_chain_id = 1\<rparr>"

definition demo_precommit :: "account_id \<Rightarrow> hash32 \<Rightarrow> node_input" where
  "demo_precommit p b = InPrecommit
     \<lparr>pc_height = 1, pc_round = 0, pc_block_hash = b, pc_voter = p, pc_voter_stake = 10,
      pc_signature = zero_ed25519_sig, pc_chain_id = 1\<rparr>"

definition demo_inputs :: "(account_id \<times> node_input) list" where
  "demo_inputs =
     [(1, InProposal 1 0 7 None True), (2, InProposal 1 0 7 None True),
      (1, demo_prevote 2 7), (1, demo_prevote 4 7), (2, demo_prevote 1 7), (2, demo_prevote 4 7),
      (1, demo_precommit 2 7), (1, demo_precommit 4 7), (2, demo_precommit 1 7), (2, demo_precommit 4 7)]"

definition demo_sys :: system where
  "demo_sys = the (sys_run demo_cfg demo_cx demo_init demo_inputs)"

lemma demo_run_log:
  "map_option sys_log (sys_run demo_cfg demo_cx demo_init demo_inputs) =
     Some [EvCommit 2 1 0 7, EvCommit 1 1 0 7, EvPrecommit 2 1 0 7, EvPrecommit 1 1 0 7,
           EvPrevote 2 1 0 7, EvPrevote 1 1 0 7]"
  by code_simp

lemma demo_run: "sys_run demo_cfg demo_cx demo_init demo_inputs = Some demo_sys"
  using demo_run_log by (auto simp: demo_sys_def)

lemma demo_log:
  "set (sys_log demo_sys) = {EvCommit 2 1 0 7, EvCommit 1 1 0 7, EvPrecommit 2 1 0 7, EvPrecommit 1 1 0 7,
     EvPrevote 2 1 0 7, EvPrevote 1 1 0 7}"
  using demo_run_log by (simp add: demo_run)

lemma demo_correct: "net_correct demo_cfg 1" "net_correct demo_cfg 2"
  by (simp_all add: net_correct_def demo_cfg_def)

lemma demo_valid: "net_valid demo_cfg"
proof -
  have "vs_inv demo_vset" "3 * stake_in demo_vset {4} < unat (vs_total_stake demo_vset)" by code_simp+
  then show ?thesis by (simp add: net_valid_def demo_cfg_def)
qed

lemma demo_reach: "sys_reach demo_cfg demo_crypto demo_sys"
proof -
  have "node_initial demo_cfg p (demo_node p)" for p
    by (auto simp: node_initial_def demo_node_def demo_cfg_def)
  then have "sys_reach demo_cfg demo_crypto demo_init"
    by (intro reach_init) (simp_all add: demo_init_def)
  then show ?thesis
    using sys_run_reach [OF demo_run] by (simp add: demo_cx_def)
qed

lemma demo_committed:
  "tm_height (ns_tm (sys_nodes demo_sys 1)) = 1" "tm_committed_hash (ns_tm (sys_nodes demo_sys 1)) = Some 7"
  "tm_height (ns_tm (sys_nodes demo_sys 2)) = 1" "tm_committed_hash (ns_tm (sys_nodes demo_sys 2)) = Some 7"
proof -
  have "map_option (\<lambda>s. map (\<lambda>p. (tm_height (ns_tm (sys_nodes s p)), tm_committed_hash (ns_tm (sys_nodes s p)))) [1, 2])
      (sys_run demo_cfg demo_cx demo_init demo_inputs) = Some [(1, Some 7), (1, Some 7)]"
    by code_simp
  then show "tm_height (ns_tm (sys_nodes demo_sys 1)) = 1" "tm_committed_hash (ns_tm (sys_nodes demo_sys 1)) = Some 7"
    "tm_height (ns_tm (sys_nodes demo_sys 2)) = 1" "tm_committed_hash (ns_tm (sys_nodes demo_sys 2)) = Some 7"
    by (simp_all add: demo_run)
qed

end
