(* ===== verification/Stores.thy ===== *)
theory Stores
  imports Ace_Prelude
begin

text \<open>
  Keyed stores. A \<open>BTreeMap\<close> of the Rust standard library is an association list with
  strictly increasing keys, so that iteration in key order is the list itself; a \<open>BTreeSet\<close>
  is the sorted list of its elements. The locale \<open>kv_store\<close> is what the components rely on
  in a keyed store, ordered or hashed: what a lookup returns after an insertion or a removal
  and how a total over the values changes. It is interpreted on both representations.
\<close>

section \<open>Ordered maps\<close>

type_synonym ('k, 'v) bmap = "('k \<times> 'v) list"

fun bt_insert :: "'k::linorder \<Rightarrow> 'v \<Rightarrow> ('k, 'v) bmap \<Rightarrow> ('k, 'v) bmap" where
  "bt_insert k v [] = [(k, v)]"
| "bt_insert k v ((k', v') # m) =
    (if k < k' then (k, v) # (k', v') # m
     else if k = k' then (k, v) # m
     else (k', v') # bt_insert k v m)"

definition bt_remove :: "'k \<Rightarrow> ('k, 'v) bmap \<Rightarrow> ('k, 'v) bmap" where
  "bt_remove k m = filter (\<lambda>(k', v). k' \<noteq> k) m"

definition bt_wf :: "('k::linorder, 'v) bmap \<Rightarrow> bool" where
  "bt_wf m = sorted_wrt (<) (map fst m)"

text \<open>\<open>get_mut\<close> followed by a write through the reference.\<close>

definition bt_modify :: "'k \<Rightarrow> ('v \<Rightarrow> 'v) \<Rightarrow> ('k, 'v) bmap \<Rightarrow> ('k, 'v) bmap" where
  "bt_modify k f m = map (\<lambda>(k', v). (k', if k' = k then f v else v)) m"

definition bt_contains :: "'k \<Rightarrow> ('k, 'v) bmap \<Rightarrow> bool" where
  "bt_contains k m = (map_of m k \<noteq> None)"

lemma bt_keys_insert: "set (map fst (bt_insert k v m)) = insert k (set (map fst m))"
  by (induction k v m rule: bt_insert.induct) auto

lemma bt_wf_Nil [simp]: "bt_wf []"
  by (simp add: bt_wf_def)

lemma bt_wf_Cons [simp]:
  "bt_wf ((k, v) # m) \<longleftrightarrow> (\<forall>k' \<in> set (map fst m). k < k') \<and> bt_wf m"
  by (simp add: bt_wf_def)

lemma bt_wf_distinct: "bt_wf m \<Longrightarrow> distinct (map fst m)"
  unfolding bt_wf_def by (simp add: strict_sorted_iff)

lemma bt_wf_hm_wf: "bt_wf m \<Longrightarrow> hm_wf m"
  by (simp add: bt_wf_distinct hm_wf_def)

lemma bt_wf_insert [simp]: "bt_wf m \<Longrightarrow> bt_wf (bt_insert k v m)"
proof (induction k v m rule: bt_insert.induct)
  case (2 k v k' v' m)
  then show ?case
    using bt_keys_insert [of k v m] by (auto simp: not_less_iff_gr_or_eq)
qed simp

lemma map_fst_bt_modify [simp]: "map fst (bt_modify k f m) = map fst m"
  by (simp add: bt_modify_def comp_def case_prod_unfold)

lemma bt_wf_modify [simp]: "bt_wf (bt_modify k f m) = bt_wf m"
  by (simp add: bt_wf_def)

lemma bt_wf_remove [simp]: "bt_wf m \<Longrightarrow> bt_wf (bt_remove k m)"
  unfolding bt_wf_def bt_remove_def by (induction m) auto

lemma bt_wf_filter [simp]: "bt_wf m \<Longrightarrow> bt_wf (filter P m)"
  unfolding bt_wf_def by (induction m) auto

lemma set_bt_insert_cases:
  "p \<in> set (bt_insert k v m) \<Longrightarrow> p = (k, v) \<or> p \<in> set m"
  by (induction k v m rule: bt_insert.induct) (auto split: if_splits)

lemma set_bt_remove_sub: "p \<in> set (bt_remove k m) \<Longrightarrow> p \<in> set m"
  by (simp add: bt_remove_def)

lemma set_bt_modify_cases:
  "p \<in> set (bt_modify k f m) \<Longrightarrow> p \<in> set m \<or> (\<exists>v. (k, v) \<in> set m \<and> p = (k, f v))"
  by (auto simp: bt_modify_def)

lemma map_of_bt_insert [hmap_simps]:
  "bt_wf m \<Longrightarrow> map_of (bt_insert k v m) = (map_of m)(k \<mapsto> v)"
proof (induction k v m rule: bt_insert.induct)
  case (2 k v k' v' m)
  have "k < k' \<Longrightarrow> map_of m k = None"
    using "2.prems" by (force simp: map_of_eq_None_iff)
  with 2 show ?case by (auto simp: fun_eq_iff)
qed simp

lemma map_of_bt_remove [hmap_simps, simp]:
  "map_of (bt_remove k m) = (map_of m)(k := None)"
  by (induction m) (auto simp: bt_remove_def fun_eq_iff)

lemma map_of_bt_modify [hmap_simps, simp]:
  "map_of (bt_modify k f m) k' = (if k' = k then map_option f (map_of m k) else map_of m k')"
  by (induction m) (auto simp: bt_modify_def)

text \<open>The order of insertion does not matter: ordered maps are determined by their lookups.\<close>

lemma bt_of_keys: "bt_wf m \<Longrightarrow> map (\<lambda>k. (k, the (map_of m k))) (map fst m) = m"
  unfolding map_map by (rule map_idI) (auto simp: bt_wf_distinct)

lemma bt_ext:
  assumes "bt_wf m" and "bt_wf m'" and eq: "map_of m = map_of m'"
  shows "m = m'"
proof -
  have "set (map fst m) = set (map fst m')"
    using arg_cong [OF eq, of dom] by (simp add: dom_map_of_conv_image_fst)
  then have "map fst m = map fst m'"
    using assms(1,2) by (simp add: bt_wf_def strict_sorted_equal)
  then have "map (\<lambda>k. (k, the (map_of m k))) (map fst m)
      = map (\<lambda>k. (k, the (map_of m' k))) (map fst m')"
    by (simp only: eq)
  then show ?thesis
    by (simp only: bt_of_keys assms(1,2))
qed

text \<open>Inserting in key order appends, so folding over an ordered map rebuilds it.\<close>

lemma bt_insert_above:
  "(\<And>k'. k' \<in> set (map fst m) \<Longrightarrow> k' < k) \<Longrightarrow> bt_insert k v m = m @ [(k, v)]"
proof (induction m)
  case (Cons p m)
  have "fst p < k" using Cons.prems [of "fst p"] by simp
  moreover have "bt_insert k v m = m @ [(k, v)]" using Cons by simp
  ultimately show ?case by (cases p) auto
qed simp

lemma foldl_bt_insert:
  assumes "bt_wf (m0 @ m)"
  shows "foldl (\<lambda>acc (k, v). bt_insert k (f k v) acc) (map (\<lambda>(k, v). (k, f k v)) m0) m
    = map (\<lambda>(k, v). (k, f k v)) (m0 @ m)"
  using assms
proof (induction m arbitrary: m0)
  case (Cons p m)
  obtain k v where p: "p = (k, v)" by (cases p)
  have "k' < k" if "k' \<in> set (map fst (map (\<lambda>(k, v). (k, f k v)) m0))" for k'
    using that Cons.prems p by (auto simp: bt_wf_def sorted_wrt_append)
  then have "bt_insert k (f k v) (map (\<lambda>(k, v). (k, f k v)) m0)
      = map (\<lambda>(k, v). (k, f k v)) (m0 @ [p])"
    by (subst bt_insert_above) (auto simp: p)
  then show ?case
    using Cons.IH [of "m0 @ [p]"] Cons.prems p by simp
qed simp

section \<open>Ordered sets\<close>

definition bs_insert :: "'a::linorder \<Rightarrow> 'a list \<Rightarrow> 'a list" where
  "bs_insert x xs = (if x \<in> set xs then xs else insort x xs)"

definition bs_remove :: "'a \<Rightarrow> 'a list \<Rightarrow> 'a list" where
  "bs_remove x xs = filter (\<lambda>y. y \<noteq> x) xs"

definition bs_wf :: "'a::linorder list \<Rightarrow> bool" where
  "bs_wf xs = (sorted xs \<and> distinct xs)"

lemma set_bs_insert [simp]: "set (bs_insert x xs) = insert x (set xs)"
  by (auto simp: bs_insert_def set_insort_key)

lemma set_bs_remove [simp]: "set (bs_remove x xs) = set xs - {x}"
  by (auto simp: bs_remove_def)

lemma bs_wf_insert [simp]: "bs_wf xs \<Longrightarrow> bs_wf (bs_insert x xs)"
  by (auto simp: bs_insert_def bs_wf_def sorted_insort distinct_insort)

lemma bs_wf_remove [simp]: "bs_wf xs \<Longrightarrow> bs_wf (bs_remove x xs)"
  by (simp add: bs_remove_def bs_wf_def sorted_filter [where f = id, simplified])

section \<open>The interface of a keyed store\<close>

definition opt_val :: "('v \<Rightarrow> nat) \<Rightarrow> 'v option \<Rightarrow> nat" where
  "opt_val f v = (case v of None \<Rightarrow> 0 | Some x \<Rightarrow> f x)"

lemma opt_val_simps [simp]: "opt_val f None = 0" "opt_val f (Some x) = f x"
  by (simp_all add: opt_val_def)

locale kv_store =
  fixes wf :: "'s \<Rightarrow> bool"
    and get :: "'s \<Rightarrow> 'k \<Rightarrow> 'v option"
    and put :: "'k \<Rightarrow> 'v \<Rightarrow> 's \<Rightarrow> 's"
    and del :: "'k \<Rightarrow> 's \<Rightarrow> 's"
    and tot :: "('v \<Rightarrow> nat) \<Rightarrow> 's \<Rightarrow> nat"
  assumes wf_put: "wf s \<Longrightarrow> wf (put k v s)"
    and wf_del: "wf s \<Longrightarrow> wf (del k s)"
    and get_put: "wf s \<Longrightarrow> get (put k v s) k' = (if k' = k then Some v else get s k')"
    and get_del: "wf s \<Longrightarrow> get (del k s) k' = (if k' = k then None else get s k')"
    and tot_put: "wf s \<Longrightarrow> tot f (put k v s) + opt_val f (get s k) = tot f s + f v"
    and tot_del: "wf s \<Longrightarrow> tot f (del k s) + opt_val f (get s k) = tot f s"
begin

lemma lookup_le_tot: "wf s \<Longrightarrow> get s k = Some v \<Longrightarrow> f v \<le> tot f s"
  using tot_del [of s f k] by simp

lemma two_lookups_le_tot:
  assumes "wf s" and "get s k = Some v" and "get s k' = Some w" and "k \<noteq> k'"
  shows "f v + f w \<le> tot f s"
proof -
  have "f w \<le> tot f (del k s)"
    using assms by (intro lookup_le_tot) (auto simp: get_del wf_del)
  then show ?thesis
    using tot_del [OF assms(1), of f k] assms(2) by simp
qed

text \<open>Moving an amount from one entry to another conserves the total.\<close>

lemma move_conserves:
  assumes "wf s" and "get s k = Some a" and "get s k' = Some b" and "k \<noteq> k'"
    and "f a' + d = f a" and "f b' = f b + d"
  shows "tot f (put k' b' (put k a' s)) = tot f s"
proof -
  have "tot f (put k' b' (put k a' s)) + f b = tot f (put k a' s) + f b'"
    using tot_put [of "put k a' s" f k' b'] assms by (simp add: wf_put get_put)
  moreover have "tot f (put k a' s) + f a = tot f s + f a'"
    using tot_put [of s f k a'] assms by simp
  ultimately show ?thesis using assms(5,6) by simp
qed

end

lemma hm_total_remove:
  "hm_wf m \<Longrightarrow> hm_total f (hm_remove k m) + opt_val f (map_of m k) = hm_total f m"
proof (induction m)
  case (Cons p m)
  have "map_of m k = None" if "fst p = k"
    using Cons.prems that by (auto simp: hm_wf_def map_of_eq_None_iff)
  moreover have "hm_remove k m = m" if "map_of m k = None"
    using that by (simp add: hm_remove_def delete_id map_of_eq_None_iff)
  ultimately show ?case
    using Cons by (cases p) (auto simp: hm_total_def hm_remove_def hm_wf_def)
qed (simp add: hm_remove_def)

lemma bt_remove_hm_remove: "bt_remove k m = hm_remove k m"
  by (induction m) (auto simp: bt_remove_def hm_remove_def)

lemma bt_total_remove:
  "bt_wf m \<Longrightarrow> hm_total f (bt_remove k m) + opt_val f (map_of m k) = hm_total f m"
  unfolding bt_remove_hm_remove by (rule hm_total_remove [OF bt_wf_hm_wf])

lemma hm_total_bt_insert:
  "bt_wf m \<Longrightarrow> hm_total f (bt_insert k v m) + opt_val f (map_of m k) = hm_total f m + f v"
proof (induction k v m rule: bt_insert.induct)
  case (2 k v k' v' m)
  have "k < k' \<Longrightarrow> map_of m k = None"
    using "2.prems" by (force simp: map_of_eq_None_iff)
  with 2 show ?case by (auto simp: hm_total_def)
qed (simp add: hm_total_def)

lemma hm_total_Cons: "hm_total g ((k, v) # m) = g v + hm_total g m"
  by (simp add: hm_total_def)

lemma bt_modify_Cons:
  "bt_modify k f ((k', v) # m) = (k', if k' = k then f v else v) # bt_modify k f m"
  by (simp add: bt_modify_def)

lemma bt_modify_absent: "k \<notin> fst ` set m \<Longrightarrow> bt_modify k f m = m"
  by (force simp: bt_modify_def intro!: map_idI)

lemma hm_total_bt_modify:
  "hm_wf m \<Longrightarrow> map_of m k = Some v \<Longrightarrow> hm_total g (bt_modify k f m) + g v = hm_total g m + g (f v)"
proof (induction m)
  case (Cons p m)
  then show ?case
    by (cases p) (auto simp: hm_total_Cons bt_modify_Cons hm_wf_def bt_modify_absent split: if_splits)
qed simp

interpretation hm: kv_store hm_wf map_of hm_insert hm_remove hm_total
proof
  fix m :: "('a, 'b) hmap" and k v and f :: "'b \<Rightarrow> nat"
  assume "hm_wf m"
  then show "hm_total f (hm_insert k v m) + opt_val f (map_of m k) = hm_total f m + f v"
    using hm_total_insert_absent [of m k f v] hm_total_insert_present [of m k _ f v]
    by (cases "map_of m k") auto
qed (auto simp: hm_total_remove)

interpretation bt: kv_store bt_wf map_of bt_insert bt_remove hm_total
  by unfold_locales
     (simp_all add: map_of_bt_insert hm_total_bt_insert bt_total_remove)

end
