(* ===== verification/Accounts.thy ===== *)
theory Accounts
  imports Stores Signatures
begin

text \<open>
  The account model of \<open>ace-model/src/account.rs\<close>: the account record with its chain
  aliases and authentication keys, the byte string that is hashed into the state root, the
  stub of an expired account and the proof that brings it back.

  The main result on this component is that the byte string is injective: two accounts with
  their contract storage that serialise alike agree on every field that is committed to.
  A 20-byte address is a 160-bit word, like the 32-byte arrays most significant byte first.
\<close>

section \<open>Records\<close>

type_synonym addr20 = "160 word"
type_synonym storage = "(hash32, hash32) bmap"

record account =
  acc_id :: account_id
  acc_balance :: u64
  acc_nonce :: u64
  acc_code_hash :: "hash32 option"
  acc_code :: "bytes option"
  acc_storage_root :: hash32
  acc_xid :: "hash32 option"
  acc_xaddress :: "hash32 option"
  acc_evm_address :: "addr20 option"
  acc_tron_address :: "addr20 option"
  acc_solana_address :: "hash32 option"
  acc_btc_address :: "bytes option"
  acc_auth_pubkey :: tagged_pubkey
  acc_auth_keys :: "tagged_pubkey list"
  acc_last_touched_slot :: u64

definition default_pubkey :: tagged_pubkey where
  "default_pubkey = \<lparr>pk_alg = Ed25519, pk_bytes = replicate 32 0\<rparr>"

definition account_new :: "account_id \<Rightarrow> account" where
  "account_new i = \<lparr>acc_id = i, acc_balance = 0, acc_nonce = 0, acc_code_hash = None,
     acc_code = None, acc_storage_root = 0, acc_xid = None, acc_xaddress = None,
     acc_evm_address = None, acc_tron_address = None, acc_solana_address = None,
     acc_btc_address = None, acc_auth_pubkey = default_pubkey, acc_auth_keys = [],
     acc_last_touched_slot = 0\<rparr>"

definition account_with_balance :: "account_id \<Rightarrow> u64 \<Rightarrow> account" where
  "account_with_balance i b = (account_new i)\<lparr>acc_balance := b\<rparr>"

definition account_with_auth :: "account_id \<Rightarrow> u64 \<Rightarrow> tagged_pubkey \<Rightarrow> account" where
  "account_with_auth i b k = (account_new i)\<lparr>acc_balance := b, acc_auth_pubkey := k\<rparr>"

definition account_with_xid :: "account_id \<Rightarrow> hash32 \<Rightarrow> tagged_pubkey \<Rightarrow> account" where
  "account_with_xid i x k = (account_new i)\<lparr>acc_xid := Some x, acc_auth_pubkey := k\<rparr>"

definition account_with_evm_address :: "account_id \<Rightarrow> addr20 \<Rightarrow> account" where
  "account_with_evm_address i a = (account_new i)\<lparr>acc_evm_address := Some a\<rparr>"

definition account_with_tron_address :: "account_id \<Rightarrow> addr20 \<Rightarrow> account" where
  "account_with_tron_address i a = (account_new i)\<lparr>acc_tron_address := Some a\<rparr>"

section \<open>Authentication keys\<close>

definition MAX_AUTH_KEYS :: nat where "MAX_AUTH_KEYS = 4"

definition auth_key_for_algorithm :: "account \<Rightarrow> signature_algorithm \<Rightarrow> tagged_pubkey option" where
  "auth_key_for_algorithm a alg =
    (if \<not> pk_is_zero (acc_auth_pubkey a) \<and> pk_alg (acc_auth_pubkey a) = alg
     then Some (acc_auth_pubkey a)
     else find (\<lambda>k. pk_alg k = alg) (acc_auth_keys a))"

definition all_auth_keys :: "account \<Rightarrow> tagged_pubkey list" where
  "all_auth_keys a = acc_auth_pubkey a # acc_auth_keys a"

definition has_provisioned_auth_key :: "account \<Rightarrow> bool" where
  "has_provisioned_auth_key a =
    (\<not> pk_is_zero (acc_auth_pubkey a) \<or> list_ex (\<lambda>k. \<not> pk_is_zero k) (acc_auth_keys a))"

datatype auth_key_error = PrimaryAlgorithmTaken | AlgorithmTaken | TooManyAuthKeys

definition add_auth_key :: "account \<Rightarrow> tagged_pubkey \<Rightarrow> auth_key_error + account" where
  "add_auth_key a key =
    (if pk_is_zero (acc_auth_pubkey a) then Inr (a\<lparr>acc_auth_pubkey := key\<rparr>)
     else if pk_alg (acc_auth_pubkey a) = pk_alg key then Inl PrimaryAlgorithmTaken
     else if list_ex (\<lambda>k. pk_alg k = pk_alg key) (acc_auth_keys a) then Inl AlgorithmTaken
     else if MAX_AUTH_KEYS \<le> length (acc_auth_keys a) + 1 then Inl TooManyAuthKeys
     else Inr (a\<lparr>acc_auth_keys := sort_key (\<lambda>k. alg_tag (pk_alg k)) (acc_auth_keys a @ [key])\<rparr>))"

section \<open>Serialisation for hashing\<close>

definition bytes20 :: "addr20 \<Rightarrow> bytes" where
  "bytes20 a = rev (le_bytes 20 (unat a))"

definition opt_bytes :: "u8 \<Rightarrow> ('a \<Rightarrow> bytes) \<Rightarrow> 'a option \<Rightarrow> bytes" where
  "opt_bytes tag enc v = (case v of Some x \<Rightarrow> tag # enc x | None \<Rightarrow> [0])"

definition script_bytes :: "bytes \<Rightarrow> bytes" where
  "script_bytes s = u16_le (word_of_nat (length s)) @ s"

definition auth_keys_bytes :: "crypto \<Rightarrow> tagged_pubkey list \<Rightarrow> bytes" where
  "auth_keys_bytes cr ks =
    (if ks = [] then []
     else 6 # word_of_nat (length ks) # concat (map bytes32 (sort (map (pk_fingerprint cr) ks))))"

definition to_hash_bytes :: "crypto \<Rightarrow> account \<Rightarrow> bytes" where
  "to_hash_bytes cr a =
    bytes32 (acc_id a) @ u64_le (acc_balance a) @ u64_le (acc_nonce a)
    @ bytes32 (acc_storage_root a)
    @ opt_bytes 0x10 bytes32 (acc_xid a)
    @ opt_bytes 0x11 bytes32 (acc_xaddress a)
    @ opt_bytes 0x01 bytes20 (acc_evm_address a)
    @ opt_bytes 0x02 bytes20 (acc_tron_address a)
    @ opt_bytes 0x03 bytes32 (acc_solana_address a)
    @ opt_bytes 0x04 script_bytes (acc_btc_address a)
    @ opt_bytes 0x05 bytes32 (acc_code_hash a)
    @ bytes32 (pk_fingerprint cr (acc_auth_pubkey a))
    @ auth_keys_bytes cr (acc_auth_keys a)
    @ u64_le (acc_last_touched_slot a)"

definition storage_bytes :: "storage option \<Rightarrow> bytes" where
  "storage_bytes st =
    (case st of None \<Rightarrow> [] | Some m \<Rightarrow> concat (map (\<lambda>(slot, v). bytes32 slot @ bytes32 v) m))"

definition compute_stub_hash :: "crypto \<Rightarrow> account \<Rightarrow> storage option \<Rightarrow> hash32" where
  "compute_stub_hash cr a st =
    sha256 cr (ascii ''ACE-STUB-V1'' @ to_hash_bytes cr a @ storage_bytes st)"

section \<open>Stubs of expired accounts\<close>

record account_stub =
  stub_id :: account_id
  stub_hash :: hash32
  expired_at_slot :: u64

record resurrection_proof =
  proof_account :: account
  proof_storage :: storage

definition proof_verify :: "crypto \<Rightarrow> resurrection_proof \<Rightarrow> account_stub \<Rightarrow> bool" where
  "proof_verify cr p stub =
    (acc_id (proof_account p) = stub_id stub
     \<and> compute_stub_hash cr (proof_account p) (Some (proof_storage p)) = stub_hash stub)"

section \<open>Injectivity of the serialisation\<close>

text \<open>
  An encoding is a prefix code on the values that satisfy \<open>ok\<close> when what follows it can
  always be split off again.
\<close>

definition prefix_code :: "('a \<Rightarrow> bool) \<Rightarrow> ('a \<Rightarrow> bytes) \<Rightarrow> bool" where
  "prefix_code ok enc \<longleftrightarrow> (\<forall>x y r r'. ok x \<longrightarrow> ok y \<longrightarrow> enc x @ r = enc y @ r' \<longrightarrow> x = y \<and> r = r')"

lemma prefix_codeD:
  "prefix_code ok enc \<Longrightarrow> enc x @ r = enc y @ r' \<Longrightarrow> ok x \<Longrightarrow> ok y \<Longrightarrow> x = y \<and> r = r'"
  unfolding prefix_code_def by blast

lemma prefix_code_iff:
  "prefix_code ok enc \<Longrightarrow> ok x \<Longrightarrow> ok y \<Longrightarrow> enc x @ r = enc y @ r' \<longleftrightarrow> x = y \<and> r = r'"
  by (blast dest: prefix_codeD)

lemma prefix_code_fixed:
  assumes "\<And>x. length (enc x) = n" and "\<And>x y. enc x = enc y \<Longrightarrow> x = y"
  shows "prefix_code ok enc"
  unfolding prefix_code_def using assms by (simp add: append_eq_append_conv)

lemma bytes20_inj: "bytes20 a = bytes20 b \<Longrightarrow> a = b"
proof -
  assume "bytes20 a = bytes20 b"
  then have "le_bytes 20 (unat a) = le_bytes 20 (unat b)"
    by (simp add: bytes20_def)
  then have "unat a = unat b"
    by (rule le_bytes_inj) (use unat_lt [of a] unat_lt [of b] in simp_all)
  then show "a = b" by (rule unsigned_word_eqI)
qed

lemma prefix_code_bytes32 [intro]: "prefix_code ok bytes32"
  by (rule prefix_code_fixed [where n = 32]) simp_all

lemma prefix_code_u64 [intro]: "prefix_code ok u64_le"
  by (rule prefix_code_fixed [where n = 8]) simp_all

lemma prefix_code_bytes20 [intro]: "prefix_code ok bytes20"
  by (rule prefix_code_fixed [where n = 20]) (simp_all add: bytes20_def bytes20_inj)

lemma u16_le_nat_inj:
  assumes "u16_le (word_of_nat m) = u16_le (word_of_nat n)" and "m < 2 ^ 16" and "n < 2 ^ 16"
  shows "m = n"
proof -
  have "(word_of_nat m :: u16) = word_of_nat n"
    using arg_cong [OF assms(1), of u16_from_le] by simp
  then show ?thesis
    using assms(2,3) by (simp add: word_of_nat_eq_iff take_bit_nat_eq_self)
qed

lemma prefix_code_script [intro]: "prefix_code (\<lambda>s. length s < 2 ^ 16) script_bytes"
  unfolding prefix_code_def
proof (intro allI impI)
  fix x y r r' :: bytes
  assume l: "length x < 2 ^ 16" "length y < 2 ^ 16" and e: "script_bytes x @ r = script_bytes y @ r'"
  then have "u16_le (word_of_nat (length x)) = u16_le (word_of_nat (length y))" and "x @ r = y @ r'"
    by (simp_all add: script_bytes_def append_eq_append_conv)
  with l u16_le_nat_inj show "x = y \<and> r = r'"
    by (metis append_eq_append_conv)
qed

lemma prefix_code_opt [intro]:
  assumes "prefix_code ok enc" and "tag \<noteq> 0"
  shows "prefix_code (\<lambda>v. \<forall>x. v = Some x \<longrightarrow> ok x) (opt_bytes tag enc)"
  unfolding prefix_code_def
proof (intro allI impI)
  fix x y :: "'a option" and r r' :: bytes
  assume ok: "\<forall>z. x = Some z \<longrightarrow> ok z" "\<forall>z. y = Some z \<longrightarrow> ok z"
    and e: "opt_bytes tag enc x @ r = opt_bytes tag enc y @ r'"
  show "x = y \<and> r = r'"
    using ok e assms(2) prefix_codeD [OF assms(1), of _ r _ r']
    by (cases x; cases y) (auto simp: opt_bytes_def)
qed

lemma opt_bytes_split:
  assumes "tag \<noteq> 0"
  shows "opt_bytes tag bytes32 x @ r = opt_bytes tag bytes32 y @ r' \<longleftrightarrow> x = y \<and> r = r'"
    and "opt_bytes tag bytes20 u @ r = opt_bytes tag bytes20 v @ r' \<longleftrightarrow> u = v \<and> r = r'"
  by (simp_all add: prefix_code_iff [OF prefix_code_opt [OF prefix_code_bytes32 [of "\<lambda>_. True"] assms]]
      prefix_code_iff [OF prefix_code_opt [OF prefix_code_bytes20 [of "\<lambda>_. True"] assms]])

lemma length_concat_const: "(\<And>x. length (f x) = n) \<Longrightarrow> length (concat (map f xs)) = length xs * n"
  by (induction xs) auto

lemma concat_bytes32_inj:
  "length xs = length ys \<Longrightarrow> concat (map bytes32 xs) = concat (map bytes32 ys) \<Longrightarrow> xs = ys"
  by (induction xs ys rule: list_induct2) (simp_all add: append_eq_append_conv)

lemma storage_bytes_simps [simp]:
  "storage_bytes None = []" "storage_bytes (Some []) = []"
  "storage_bytes (Some ((k, v) # m)) = bytes32 k @ bytes32 v @ storage_bytes (Some m)"
  by (simp_all add: storage_bytes_def)

lemma bytes32_not_Nil [simp]: "bytes32 h \<noteq> []"
  using length_byte_forms(4) [of h] by (metis list.size(3) zero_neq_numeral)

lemma storage_bytes_inj:
  "storage_bytes (Some m) = storage_bytes (Some m') \<Longrightarrow> m = m'"
proof (induction m arbitrary: m')
  case Nil
  then show ?case by (cases m') auto
next
  case (Cons p m)
  then obtain q m1 where m': "m' = q # m1"
    by (cases p; cases m') auto
  with Cons show ?case
    by (cases p; cases q) (simp add: append_eq_append_conv)
qed

lemma length_storage_bytes: "\<exists>n. length (storage_bytes st) = n * 64"
proof (cases st)
  case (Some m)
  have "length (storage_bytes (Some m)) = length m * 64" by (induction m) auto
  with Some show ?thesis by blast
qed simp

text \<open>
  The end of a leaf is not self-delimiting: the block of additional keys is left out when
  there are none. Its length tells the two forms apart, modulo 32.
\<close>

lemma length_auth_keys_bytes:
  "length (auth_keys_bytes cr ks) = (if ks = [] then 0 else 2 + length ks * 32)"
  by (simp add: auth_keys_bytes_def length_concat_const)

lemma leaf_tail_inj:
  assumes eq: "auth_keys_bytes cr ks @ u64_le s @ storage_bytes st
      = auth_keys_bytes cr ks' @ u64_le s' @ storage_bytes st'"
    and len: "length ks < 256" "length ks' < 256"
  shows "sort (map (pk_fingerprint cr) ks) = sort (map (pk_fingerprint cr) ks')
    \<and> s = s' \<and> storage_bytes st = storage_bytes st'"
proof -
  obtain n n' where n: "length (storage_bytes st) = n * 64" "length (storage_bytes st') = n' * 64"
    using length_storage_bytes by metis
  have lens: "length (auth_keys_bytes cr ks) + n * 64 = length (auth_keys_bytes cr ks') + n' * 64"
    using arg_cong [OF eq, of length] n by simp
  have same: "ks = [] \<longleftrightarrow> ks' = []"
  proof (rule ccontr)
    assume "(ks = []) \<noteq> (ks' = [])"
    then consider k where "2 + k * 32 + n * 64 = n' * 64" | k where "2 + k * 32 + n' * 64 = n * 64"
      using lens by (auto simp: length_auth_keys_bytes split: if_splits)
    then show False by cases presburger+
  qed
  show ?thesis
  proof (cases "ks = []")
    case True
    with same eq show ?thesis
      by (simp add: auth_keys_bytes_def append_eq_append_conv)
  next
    case False
    with same have ne: "ks \<noteq> []" "ks' \<noteq> []" by auto
    then have "(word_of_nat (length ks) :: u8) = word_of_nat (length ks')"
      using eq by (simp add: auth_keys_bytes_def)
    then have l: "length ks = length ks'"
      using len by (simp add: word_of_nat_eq_iff take_bit_nat_eq_self)
    then have "concat (map bytes32 (sort (map (pk_fingerprint cr) ks)))
        = concat (map bytes32 (sort (map (pk_fingerprint cr) ks')))
      \<and> u64_le s @ storage_bytes st = u64_le s' @ storage_bytes st'"
      using eq ne by (simp add: auth_keys_bytes_def append_eq_append_conv length_concat_const)
    moreover have "length (sort (map (pk_fingerprint cr) ks))
        = length (sort (map (pk_fingerprint cr) ks'))"
      using l by simp
    ultimately show ?thesis
      using concat_bytes32_inj by (simp add: append_eq_append_conv)
  qed
qed

definition account_ok :: "account \<Rightarrow> bool" where
  "account_ok a \<longleftrightarrow> (\<forall>s. acc_btc_address a = Some s \<longrightarrow> length s < 2 ^ 16)
     \<and> length (acc_auth_keys a) < 256"

text \<open>What a leaf of the state tree says about an account: everything but the bytecode itself.\<close>

definition same_commitment :: "crypto \<Rightarrow> account \<Rightarrow> account \<Rightarrow> bool" where
  "same_commitment cr a b \<longleftrightarrow>
     acc_id a = acc_id b \<and> acc_balance a = acc_balance b \<and> acc_nonce a = acc_nonce b
   \<and> acc_storage_root a = acc_storage_root b \<and> acc_xid a = acc_xid b
   \<and> acc_xaddress a = acc_xaddress b \<and> acc_evm_address a = acc_evm_address b
   \<and> acc_tron_address a = acc_tron_address b \<and> acc_solana_address a = acc_solana_address b
   \<and> acc_btc_address a = acc_btc_address b \<and> acc_code_hash a = acc_code_hash b
   \<and> pk_fingerprint cr (acc_auth_pubkey a) = pk_fingerprint cr (acc_auth_pubkey b)
   \<and> sort (map (pk_fingerprint cr) (acc_auth_keys a))
       = sort (map (pk_fingerprint cr) (acc_auth_keys b))
   \<and> acc_last_touched_slot a = acc_last_touched_slot b"

lemma leaf_inj:
  assumes eq: "to_hash_bytes cr a @ storage_bytes st = to_hash_bytes cr b @ storage_bytes st'"
    and ok: "account_ok a" "account_ok b"
  shows "same_commitment cr a b \<and> storage_bytes st = storage_bytes st'"
proof -
  have scr: "opt_bytes 4 script_bytes (acc_btc_address a) @ r = opt_bytes 4 script_bytes (acc_btc_address b) @ r'
      \<longleftrightarrow> acc_btc_address a = acc_btc_address b \<and> r = r'" for r r'
    by (rule prefix_code_iff [OF prefix_code_opt [OF prefix_code_script]])
       (use ok in \<open>simp_all add: account_ok_def\<close>)
  have head: "acc_id a = acc_id b \<and> acc_balance a = acc_balance b \<and> acc_nonce a = acc_nonce b
   \<and> acc_storage_root a = acc_storage_root b \<and> acc_xid a = acc_xid b
   \<and> acc_xaddress a = acc_xaddress b \<and> acc_evm_address a = acc_evm_address b
   \<and> acc_tron_address a = acc_tron_address b \<and> acc_solana_address a = acc_solana_address b
   \<and> acc_btc_address a = acc_btc_address b \<and> acc_code_hash a = acc_code_hash b
   \<and> pk_fingerprint cr (acc_auth_pubkey a) = pk_fingerprint cr (acc_auth_pubkey b)"
    and tail: "auth_keys_bytes cr (acc_auth_keys a) @ u64_le (acc_last_touched_slot a) @ storage_bytes st
      = auth_keys_bytes cr (acc_auth_keys b) @ u64_le (acc_last_touched_slot b) @ storage_bytes st'"
    using eq by (simp_all add: to_hash_bytes_def append_eq_append_conv opt_bytes_split scr)
  show ?thesis
    using head leaf_tail_inj [OF tail] ok by (simp add: same_commitment_def account_ok_def)
qed

section \<open>Authentication keys: one per algorithm\<close>

definition auth_keys_wf :: "account \<Rightarrow> bool" where
  "auth_keys_wf a \<longleftrightarrow> distinct (map pk_alg (all_auth_keys a))
     \<and> sorted (map (\<lambda>k. alg_tag (pk_alg k)) (acc_auth_keys a))
     \<and> length (all_auth_keys a) \<le> MAX_AUTH_KEYS
     \<and> (pk_is_zero (acc_auth_pubkey a) \<longrightarrow> acc_auth_keys a = [])"

lemma add_auth_key_wf:
  assumes "auth_keys_wf a" and "add_auth_key a key = Inr a'"
  shows "auth_keys_wf a'"
proof (cases "pk_is_zero (acc_auth_pubkey a)")
  case True
  then show ?thesis
    using assms by (auto simp: add_auth_key_def auth_keys_wf_def all_auth_keys_def)
next
  case False
  let ?ks = "acc_auth_keys a @ [key]"
  have a': "a' = a\<lparr>acc_auth_keys := sort_key (\<lambda>k. alg_tag (pk_alg k)) ?ks\<rparr>"
    and new: "pk_alg (acc_auth_pubkey a) \<noteq> pk_alg key" "pk_alg key \<notin> pk_alg ` set (acc_auth_keys a)"
    and room: "length (acc_auth_keys a) + 1 < MAX_AUTH_KEYS"
    using assms(2) False by (auto simp: add_auth_key_def list_ex_iff split: if_splits)
  have "mset (map pk_alg (sort_key (\<lambda>k. alg_tag (pk_alg k)) ?ks)) = mset (map pk_alg ?ks)"
    by simp
  then have "distinct (map pk_alg (sort_key (\<lambda>k. alg_tag (pk_alg k)) ?ks)) \<longleftrightarrow> distinct (map pk_alg ?ks)"
    by (rule mset_eq_imp_distinct_iff)
  then show ?thesis
    using assms(1) a' new room False
    by (auto simp: auth_keys_wf_def all_auth_keys_def)
qed

fun add_auth_keys :: "account \<Rightarrow> tagged_pubkey list \<Rightarrow> account" where
  "add_auth_keys a [] = a"
| "add_auth_keys a (k # ks) =
    (case add_auth_key a k of Inl e \<Rightarrow> add_auth_keys a ks | Inr a' \<Rightarrow> add_auth_keys a' ks)"

lemma add_auth_keys_wf: "auth_keys_wf a \<Longrightarrow> auth_keys_wf (add_auth_keys a ks)"
  by (induction a ks rule: add_auth_keys.induct) (auto simp: add_auth_key_wf split: sum.splits)

lemma find_by_key:
  "distinct (map f xs) \<Longrightarrow> k \<in> set xs \<Longrightarrow> find (\<lambda>x. f x = f k) xs = Some k"
  by (induction xs) (auto simp: image_iff)


definition sample_keys :: "tagged_pubkey list" where
  "sample_keys = [\<lparr>pk_alg = Secp256k1, pk_bytes = [7]\<rparr>, \<lparr>pk_alg = MlDsa44, pk_bytes = [8]\<rparr>,
     \<lparr>pk_alg = Secp256k1, pk_bytes = [9]\<rparr>, \<lparr>pk_alg = Ed25519, pk_bytes = [5]\<rparr>]"


end
