(* ===== verification/Addresses.thy ===== *)
theory Addresses
  imports Accounts
begin

text \<open>
  Account identities derived from chain-native addresses
  (\<open>ace-runtime/src/crypto/legacy.rs\<close>) and chain addresses derived from identities
  (\<open>derive_evm_address\<close> and \<open>derive_tron_address\<close> of \<open>ace-model/src/state_tree.rs\<close>). Every
  derivation hashes a domain prefix and the address bytes. The prefixes are not of one
  length and one is a prefix of another, so that the separation of the domains is a theorem
  and not a matter of course.
\<close>

definition legacy_idcom_evm :: "crypto \<Rightarrow> addr20 \<Rightarrow> hash32" where
  "legacy_idcom_evm cr a = sha256 cr (ascii ''ace-legacy-evm'' @ bytes20 a)"

definition legacy_idcom_solana :: "crypto \<Rightarrow> hash32 \<Rightarrow> hash32" where
  "legacy_idcom_solana cr k = sha256 cr (ascii ''ace-legacy-solana'' @ bytes32 k)"

definition legacy_idcom_btc :: "crypto \<Rightarrow> bytes \<Rightarrow> hash32" where
  "legacy_idcom_btc cr k = sha256 cr (ascii ''ace-legacy-btc'' @ k)"

definition legacy_idcom_tron :: "crypto \<Rightarrow> addr20 \<Rightarrow> hash32" where
  "legacy_idcom_tron cr a = sha256 cr (ascii ''ace-legacy-tron'' @ bytes20 a)"

definition idcom_xid :: "crypto \<Rightarrow> hash32 \<Rightarrow> hash32" where
  "idcom_xid cr x = sha256 cr (ascii ''ace-native-xid'' @ bytes32 x)"

definition xaddress_hash :: "crypto \<Rightarrow> bytes \<Rightarrow> hash32" where
  "xaddress_hash cr k = sha256 cr (ascii ''ace-xaddress-v1'' @ k)"

definition register_address_message :: "crypto \<Rightarrow> account_id \<Rightarrow> u8 \<Rightarrow> bytes \<Rightarrow> hash32" where
  "register_address_message cr sender ty addr =
    sha256 cr (ascii ''ace-register-address-v1'' @ bytes32 sender @ [ty] @ addr)"

definition legacy_idcom_btc_script :: "crypto \<Rightarrow> bytes \<Rightarrow> hash32" where
  "legacy_idcom_btc_script cr s = sha256 cr (ascii ''ace-legacy-btc-output'' @ s)"

text \<open>Bytes 12 to 31 of a hash are its low 160 bits.\<close>

definition derive_evm_address :: "crypto \<Rightarrow> account_id \<Rightarrow> addr20" where
  "derive_evm_address cr i = ucast (sha256 cr (ascii ''evm:'' @ bytes32 i))"

definition derive_tron_address :: "crypto \<Rightarrow> account_id \<Rightarrow> addr20" where
  "derive_tron_address cr i = ucast (sha256 cr (ascii ''tron:'' @ bytes32 i))"

section \<open>Domain separation\<close>

datatype chain_identity =
    EvmId addr20 | SolanaId hash32 | BtcKeyId bytes | TronId addr20 | XidId hash32 | BtcScriptId bytes

fun id_preimage :: "chain_identity \<Rightarrow> bytes" where
  "id_preimage (EvmId a) = ascii ''ace-legacy-evm'' @ bytes20 a"
| "id_preimage (SolanaId k) = ascii ''ace-legacy-solana'' @ bytes32 k"
| "id_preimage (BtcKeyId k) = ascii ''ace-legacy-btc'' @ k"
| "id_preimage (TronId a) = ascii ''ace-legacy-tron'' @ bytes20 a"
| "id_preimage (XidId x) = ascii ''ace-native-xid'' @ bytes32 x"
| "id_preimage (BtcScriptId s) = ascii ''ace-legacy-btc-output'' @ s"

fun chain_idcom :: "crypto \<Rightarrow> chain_identity \<Rightarrow> hash32" where
  "chain_idcom cr (EvmId a) = legacy_idcom_evm cr a"
| "chain_idcom cr (SolanaId k) = legacy_idcom_solana cr k"
| "chain_idcom cr (BtcKeyId k) = legacy_idcom_btc cr k"
| "chain_idcom cr (TronId a) = legacy_idcom_tron cr a"
| "chain_idcom cr (XidId x) = idcom_xid cr x"
| "chain_idcom cr (BtcScriptId s) = legacy_idcom_btc_script cr s"

lemma chain_idcom_preimage: "chain_idcom cr c = sha256 cr (id_preimage c)"
  by (cases c) (simp_all add: legacy_idcom_evm_def legacy_idcom_solana_def legacy_idcom_btc_def
      legacy_idcom_tron_def idcom_xid_def legacy_idcom_btc_script_def)

text \<open>A compressed secp256k1 key starts with 2 or 3.\<close>

fun chain_identity_ok :: "chain_identity \<Rightarrow> bool" where
  "chain_identity_ok (BtcKeyId k) = (k \<noteq> [] \<and> hd k \<in> {2, 3})"
| "chain_identity_ok _ = True"

lemma id_preimage_inj:
  assumes "id_preimage c = id_preimage d" and "chain_identity_ok c" and "chain_identity_ok d"
  shows "c = d"
  using assms by (cases c; cases d) (auto simp: ascii_def bytes20_inj hd_append Cons_eq_append_conv)

text \<open>
  C32: identities derived from different chains, or from different addresses of one chain,
  only coincide if SHA-256 collides: whenever two derivations give the same account, either
  they are derivations of the same address on the same chain, or two different byte strings
  with the same hash are exhibited. Keys of Bitcoin signers need their format byte for this,
  because the domain prefix of keys is a prefix of the one of scripts.
\<close>

theorem chain_identities_separated:
  assumes "chain_idcom cr c = chain_idcom cr d"
    and "chain_identity_ok c" and "chain_identity_ok d"
  shows "c = d \<or> (id_preimage c \<noteq> id_preimage d \<and>
    sha256 cr (id_preimage c) = sha256 cr (id_preimage d))"
  using assms id_preimage_inj by (auto simp: chain_idcom_preimage)

text \<open>With the length as a hash, every pair of addresses of a chain collides.\<close>

definition sample_crypto_len :: crypto where
  "sample_crypto_len = \<lparr>sha256 = (\<lambda>bs. word_of_nat (length bs)),
     ed25519_key = (\<lambda>_. True), ed25519_verify_strict = (\<lambda>_ _ _. True),
     k256_key = (\<lambda>_. True), k256_sig = (\<lambda>_. True), k256_verify = (\<lambda>_ _ _. True),
     ml_dsa_key = (\<lambda>_. True), ml_dsa_verify = (\<lambda>_ _ _. True),
     hmac_key = (\<lambda>_. True), hmac_verify_slice = (\<lambda>_ _ _. True)\<rparr>"

theorem chain_identities_separated_witness:
  "id_preimage (EvmId 5) \<noteq> id_preimage (EvmId 6) \<and>
    sha256 sample_crypto_len (id_preimage (EvmId 5)) = sha256 sample_crypto_len (id_preimage (EvmId 6))"
proof -
  have "chain_idcom sample_crypto_len (EvmId 5) = chain_idcom sample_crypto_len (EvmId 6)"
    by (simp add: legacy_idcom_evm_def sample_crypto_len_def bytes20_def)
  then show ?thesis
    using chain_identities_separated [of sample_crypto_len "EvmId 5" "EvmId 6"] by simp
qed

end
