(* ===== verification/Balances.thy ===== *)
theory Balances
  imports Accounts
begin

text \<open>
  Balances over any store of accounts. \<open>debit_balance\<close> and \<open>credit_balance\<close> of
  \<open>ace-node/src/governance.rs\<close> exist twice in the source, once over the sharded state and
  once over the state tree; they are defined here over the lookup and the in-place update of
  the store. The locale \<open>account_store\<close> states what the balance arguments need of a store.
  The state tree and the sharded state interpret it.
\<close>

datatype balance_error = AccountNotFound | InsufficientBalance | BalanceOverflow

definition bal :: "account \<Rightarrow> nat" where
  "bal a = unat (acc_balance a)"

definition debit ::
    "('s \<Rightarrow> account_id \<Rightarrow> account option) \<Rightarrow> (account_id \<Rightarrow> (account \<Rightarrow> account) \<Rightarrow> 's \<Rightarrow> 's)
     \<Rightarrow> 's \<Rightarrow> account_id \<Rightarrow> u64 \<Rightarrow> balance_error + 's" where
  "debit get modify s i amount =
    (if amount = 0 then Inr s
     else case get s i of
       None \<Rightarrow> Inl AccountNotFound
     | Some a \<Rightarrow>
         if acc_balance a < amount then Inl InsufficientBalance
         else Inr (modify i (\<lambda>a. a\<lparr>acc_balance := acc_balance a - amount\<rparr>) s))"

definition credit ::
    "('s \<Rightarrow> account_id \<Rightarrow> account option) \<Rightarrow> (account_id \<Rightarrow> (account \<Rightarrow> account) \<Rightarrow> 's \<Rightarrow> 's)
     \<Rightarrow> 's \<Rightarrow> account_id \<Rightarrow> u64 \<Rightarrow> balance_error + 's" where
  "credit get modify s i amount =
    (if amount = 0 then Inr s
     else case get s i of
       None \<Rightarrow> Inl AccountNotFound
     | Some a \<Rightarrow>
         case checked_add (acc_balance a) amount of
           None \<Rightarrow> Inl BalanceOverflow
         | Some b \<Rightarrow> Inr (modify i (\<lambda>a. a\<lparr>acc_balance := b\<rparr>) s))"

text \<open>\<open>if state.get(id).is_none() { state.insert(Account::new(id)) }\<close>\<close>

definition ensure_account ::
    "('s \<Rightarrow> account_id \<Rightarrow> account option) \<Rightarrow> (account \<Rightarrow> 's \<Rightarrow> 's) \<Rightarrow> account_id \<Rightarrow> 's \<Rightarrow> 's" where
  "ensure_account get ins i s = (if get s i = None then ins (account_new i) s else s)"

locale account_store =
  fixes swf :: "'s \<Rightarrow> bool"
    and sget :: "'s \<Rightarrow> account_id \<Rightarrow> account option"
    and smod :: "account_id \<Rightarrow> (account \<Rightarrow> account) \<Rightarrow> 's \<Rightarrow> 's"
    and sins :: "account \<Rightarrow> 's \<Rightarrow> 's"
    and stot :: "(account \<Rightarrow> nat) \<Rightarrow> 's \<Rightarrow> nat"
  assumes swf_mod: "swf s \<Longrightarrow> (\<And>a. acc_id (f a) = acc_id a) \<Longrightarrow> swf (smod i f s)"
    and swf_ins: "swf s \<Longrightarrow> swf (sins a s)"
    and sget_mod: "swf s \<Longrightarrow> sget (smod i f s) j = (if j = i then map_option f (sget s i) else sget s j)"
    and sget_ins: "swf s \<Longrightarrow> sget (sins a s) j = (if j = acc_id a then Some a else sget s j)"
    and stot_mod: "swf s \<Longrightarrow> sget s i = Some a \<Longrightarrow> stot g (smod i f s) + g a = stot g s + g (f a)"
    and stot_ins: "swf s \<Longrightarrow> stot g (sins a s) + opt_val g (sget s (acc_id a)) = stot g s + g a"
begin

lemma bal_le_total: "swf s \<Longrightarrow> sget s i = Some a \<Longrightarrow> bal a \<le> stot bal s"
  using stot_mod [of s i a bal "\<lambda>a. a\<lparr>acc_balance := 0\<rparr>"] by (simp add: bal_def)

lemma two_bals_le_total:
  assumes "swf s" and "sget s i = Some a" and "sget s j = Some b" and "i \<noteq> j"
  shows "bal a + bal b \<le> stot bal s"
proof -
  let ?s = "smod i (\<lambda>a. a\<lparr>acc_balance := 0\<rparr>) s"
  have "bal b \<le> stot bal ?s"
    using assms by (intro bal_le_total [of _ j]) (simp_all add: swf_mod sget_mod)
  then show ?thesis
    using stot_mod [OF assms(1,2), of bal "\<lambda>a. a\<lparr>acc_balance := 0\<rparr>"] by (simp add: bal_def)
qed

lemma debit_total:
  assumes "swf s" and "debit sget smod s i amount = Inr s'"
  shows "swf s' \<and> stot bal s' + unat amount = stot bal s"
proof (cases "amount = 0")
  case True
  then show ?thesis using assms by (simp add: debit_def)
next
  case False
  then obtain a where a: "sget s i = Some a" "\<not> acc_balance a < amount"
    and s': "s' = smod i (\<lambda>a. a\<lparr>acc_balance := acc_balance a - amount\<rparr>) s"
    using assms(2) by (auto simp: debit_def split: option.splits if_splits)
  have "unat (acc_balance a - amount) + unat amount = unat (acc_balance a)"
    using a(2) by (simp add: unat_sub_le word_le_nat_alt word_less_nat_alt)
  then show ?thesis
    using stot_mod [OF assms(1) a(1), of bal "\<lambda>a. a\<lparr>acc_balance := acc_balance a - amount\<rparr>"]
      swf_mod [OF assms(1)] s'
    by (simp add: bal_def)
qed

lemma credit_total:
  assumes "swf s" and "credit sget smod s i amount = Inr s'"
  shows "swf s' \<and> stot bal s' = stot bal s + unat amount"
proof (cases "amount = 0")
  case True
  then show ?thesis using assms by (simp add: credit_def)
next
  case False
  then obtain a b where a: "sget s i = Some a" and b: "checked_add (acc_balance a) amount = Some b"
    and s': "s' = smod i (\<lambda>a. a\<lparr>acc_balance := b\<rparr>) s"
    using assms(2) by (auto simp: credit_def split: option.splits if_splits)
  show ?thesis
    using stot_mod [OF assms(1) a, of bal "\<lambda>a. a\<lparr>acc_balance := b\<rparr>"]
      swf_mod [OF assms(1)] checked_add_Some [OF b] s'
    by (simp add: bal_def)
qed

text \<open>A credit only fails for a missing account when the total leaves room for it.\<close>

lemma credit_succeeds:
  assumes "swf s" and "sget s i = Some a" and "stot bal s + unat amount < 2 ^ 64"
  shows "\<exists>s'. credit sget smod s i amount = Inr s'"
proof -
  have "unat (acc_balance a) + unat amount < 2 ^ 64"
    using bal_le_total [OF assms(1,2)] assms(3) by (simp add: bal_def)
  then show ?thesis
    using assms(2) by (simp add: credit_def checked_add_def)
qed

lemma debit_get:
  assumes "swf s" and "debit sget smod s i amount = Inr s'"
  shows "sget s' j = (if j = i \<and> amount \<noteq> 0
    then map_option (\<lambda>a. a\<lparr>acc_balance := acc_balance a - amount\<rparr>) (sget s i) else sget s j)"
  using assms by (auto simp: debit_def sget_mod split: option.splits if_splits)

lemma credit_get:
  assumes "swf s" and "credit sget smod s i amount = Inr s'"
  shows "sget s' j = (if j = i
    then map_option (\<lambda>a. a\<lparr>acc_balance := acc_balance a + amount\<rparr>) (sget s i) else sget s j)"
  using assms
  by (cases "sget s j")
     (auto simp: credit_def sget_mod checked_add_def option.map_ident split: option.splits if_splits)

lemma ensure_account_total:
  assumes "swf s"
  shows "swf (ensure_account sget sins i s) \<and> stot bal (ensure_account sget sins i s) = stot bal s
    \<and> (\<exists>a. sget (ensure_account sget sins i s) i = Some a)
    \<and> (\<forall>j. j \<noteq> i \<longrightarrow> sget (ensure_account sget sins i s) j = sget s j)"
  using stot_ins [OF assms, of bal "account_new i"] assms
  by (auto simp: ensure_account_def swf_ins sget_ins bal_def account_new_def)

end

end
