(* ===== verification/State_Tree.thy ===== *)
theory State_Tree
  imports Addresses Balances
begin

text \<open>
  The state tree of \<open>ace-model/src/state_tree.rs\<close>: hot accounts and stubs of expired ones,
  contract storage, the six alias indexes, the stores of the payment component, the replay
  registry and the Merkle root over all of them. The reference-counted maps of the source
  are values here (copy on write has value semantics), so that a snapshot is the record
  itself.

  Shown below: the well-formedness invariant and its preservation, lookups after every
  operation, conservation of the total balance by expiry, the round trip of expiry and
  resurrection, and that the root determines the accounts up to a collision of SHA-256.
\<close>

section \<open>State\<close>

record state_tree =
  accounts :: "(account_id, account) bmap"
  stubs :: "(account_id, account_stub) bmap"
  contract_storage :: "(account_id, storage) bmap"
  xid_index :: "(hash32, account_id) hmap"
  evm_index :: "(addr20, account_id) hmap"
  tron_index :: "(addr20, account_id) hmap"
  solana_index :: "(hash32, account_id) hmap"
  btc_index :: "(bytes, account_id) hmap"
  xaddress_index :: "(hash32, account_id) hmap"
  hfi_intents :: "(hash32, bytes) bmap"
  hfi_recipients :: "(hash32, bytes) bmap"
  hfi_idcom_index :: "(hash32, hash32) bmap"
  zk_replay_registry :: "(hash32, hash32) bmap"

definition st_new :: state_tree where
  "st_new = \<lparr>accounts = [], stubs = [], contract_storage = [], xid_index = [], evm_index = [],
     tron_index = [], solana_index = [], btc_index = [], xaddress_index = [],
     hfi_intents = [], hfi_recipients = [], hfi_idcom_index = [], zk_replay_registry = []\<rparr>"

definition account_evm_address :: "crypto \<Rightarrow> account \<Rightarrow> addr20" where
  "account_evm_address cr a =
    (case acc_evm_address a of Some x \<Rightarrow> x | None \<Rightarrow> derive_evm_address cr (acc_id a))"

definition account_tron_address :: "crypto \<Rightarrow> account \<Rightarrow> addr20" where
  "account_tron_address cr a =
    (case acc_tron_address a of Some x \<Rightarrow> x | None \<Rightarrow> derive_tron_address cr (acc_id a))"

section \<open>Replay registry, recipients and intents\<close>

definition zk_replay_contains :: "state_tree \<Rightarrow> hash32 \<Rightarrow> bool" where
  "zk_replay_contains s rp = bt_contains rp (zk_replay_registry s)"

definition zk_replay_consume :: "state_tree \<Rightarrow> hash32 \<Rightarrow> hash32 \<Rightarrow> state_tree \<times> bool" where
  "zk_replay_consume s rp idcom =
    (if bt_contains rp (zk_replay_registry s) then (s, False)
     else (s\<lparr>zk_replay_registry := bt_insert rp idcom (zk_replay_registry s)\<rparr>, True))"

definition hfi_recipient :: "state_tree \<Rightarrow> hash32 \<Rightarrow> bytes option" where
  "hfi_recipient s h = map_of (hfi_recipients s) h"

definition hfi_recipient_by_idcom :: "state_tree \<Rightarrow> hash32 \<Rightarrow> (hash32 \<times> bytes) option" where
  "hfi_recipient_by_idcom s idcom =
    (case map_of (hfi_idcom_index s) idcom of
       None \<Rightarrow> None
     | Some id_hash \<Rightarrow>
         (case map_of (hfi_recipients s) id_hash of
            None \<Rightarrow> None | Some bs \<Rightarrow> Some (id_hash, bs)))"

text \<open>An encoded recipient carries its identity commitment in bytes 64 to 95.\<close>

definition recipient_idcom :: "bytes \<Rightarrow> hash32 option" where
  "recipient_idcom bs =
    (if 96 \<le> length bs then Some (word_of_nat (nat_of_le (rev (take 32 (drop 64 bs))))) else None)"

definition hfi_recipient_put :: "state_tree \<Rightarrow> hash32 \<Rightarrow> hash32 \<Rightarrow> bytes \<Rightarrow> state_tree" where
  "hfi_recipient_put s id_hash idcom bs =
    (let prev_idcom = Option.bind (map_of (hfi_recipients s) id_hash) recipient_idcom;
         idx = (case prev_idcom of
                  Some prev \<Rightarrow> if prev \<noteq> idcom then bt_remove prev (hfi_idcom_index s)
                               else hfi_idcom_index s
                | None \<Rightarrow> hfi_idcom_index s)
     in s\<lparr>hfi_recipients := bt_insert id_hash bs (hfi_recipients s),
          hfi_idcom_index := bt_insert idcom id_hash idx\<rparr>)"

definition hfi_intent :: "state_tree \<Rightarrow> hash32 \<Rightarrow> bytes option" where
  "hfi_intent s i = map_of (hfi_intents s) i"

definition hfi_intent_put :: "state_tree \<Rightarrow> hash32 \<Rightarrow> bytes \<Rightarrow> state_tree" where
  "hfi_intent_put s i bs = s\<lparr>hfi_intents := bt_insert i bs (hfi_intents s)\<rparr>"

definition hfi_intent_remove :: "state_tree \<Rightarrow> hash32 \<Rightarrow> state_tree \<times> bytes option" where
  "hfi_intent_remove s i =
    (s\<lparr>hfi_intents := bt_remove i (hfi_intents s)\<rparr>, map_of (hfi_intents s) i)"

section \<open>Accounts\<close>

definition st_get :: "state_tree \<Rightarrow> account_id \<Rightarrow> account option" where
  "st_get s i = map_of (accounts s) i"

text \<open>\<open>get_mut\<close> and the write through it; the indexes are not touched.\<close>

definition st_modify :: "account_id \<Rightarrow> (account \<Rightarrow> account) \<Rightarrow> state_tree \<Rightarrow> state_tree" where
  "st_modify i f s = s\<lparr>accounts := bt_modify i f (accounts s)\<rparr>"

definition st_contains :: "state_tree \<Rightarrow> account_id \<Rightarrow> bool" where
  "st_contains s i = bt_contains i (accounts s)"

definition index_replace ::
    "'k option \<Rightarrow> 'k option \<Rightarrow> account_id \<Rightarrow> ('k, account_id) hmap \<Rightarrow> ('k, account_id) hmap" where
  "index_replace old new i idx =
    (let idx = (case old of Some k \<Rightarrow> hm_remove k idx | None \<Rightarrow> idx)
     in case new of
          None \<Rightarrow> idx
        | Some k \<Rightarrow>
            if map_of idx k = None \<or> map_of idx k = Some i then hm_insert k i idx else idx)"

definition st_insert :: "crypto \<Rightarrow> account \<Rightarrow> state_tree \<Rightarrow> state_tree" where
  "st_insert cr a s =
    (let i = acc_id a;
         old = map_of (accounts s) i
     in s\<lparr>stubs := bt_remove i (stubs s),
          evm_index := index_replace (map_option (account_evm_address cr) old)
                         (Some (account_evm_address cr a)) i (evm_index s),
          tron_index := index_replace (map_option (account_tron_address cr) old)
                         (Some (account_tron_address cr a)) i (tron_index s),
          xid_index := index_replace (Option.bind old acc_xid) (acc_xid a) i (xid_index s),
          solana_index := index_replace (Option.bind old acc_solana_address)
                         (acc_solana_address a) i (solana_index s),
          btc_index := index_replace (Option.bind old acc_btc_address)
                         (acc_btc_address a) i (btc_index s),
          xaddress_index := index_replace (Option.bind old acc_xaddress)
                         (acc_xaddress a) i (xaddress_index s),
          accounts := bt_insert i a (accounts s)\<rparr>)"

definition index_drop :: "'k option \<Rightarrow> ('k, account_id) hmap \<Rightarrow> ('k, account_id) hmap" where
  "index_drop old idx = (case old of Some k \<Rightarrow> hm_remove k idx | None \<Rightarrow> idx)"

text \<open>The common part of \<open>remove\<close> and \<open>expire_account\<close>: the account leaves map and indexes.\<close>

definition drop_account :: "crypto \<Rightarrow> account \<Rightarrow> account_id \<Rightarrow> state_tree \<Rightarrow> state_tree" where
  "drop_account cr a i s =
    s\<lparr>accounts := bt_remove i (accounts s),
      evm_index := hm_remove (account_evm_address cr a) (evm_index s),
      tron_index := hm_remove (account_tron_address cr a) (tron_index s),
      xid_index := index_drop (acc_xid a) (xid_index s),
      solana_index := index_drop (acc_solana_address a) (solana_index s),
      btc_index := index_drop (acc_btc_address a) (btc_index s),
      xaddress_index := index_drop (acc_xaddress a) (xaddress_index s),
      contract_storage := bt_remove i (contract_storage s)\<rparr>"

definition st_remove :: "crypto \<Rightarrow> account_id \<Rightarrow> state_tree \<Rightarrow> state_tree \<times> account option" where
  "st_remove cr i s =
    (case map_of (accounts s) i of
       None \<Rightarrow> (s, None)
     | Some a \<Rightarrow> (drop_account cr a i s, Some a))"

section \<open>Alias resolution\<close>

definition fallback_id :: "state_tree \<Rightarrow> account_id option \<Rightarrow> account_id \<Rightarrow> account_id option" where
  "fallback_id s found legacy =
    (case found of Some i \<Rightarrow> Some i
     | None \<Rightarrow> if bt_contains legacy (accounts s) then Some legacy else None)"

definition resolve_evm :: "state_tree \<Rightarrow> addr20 \<Rightarrow> account_id option" where
  "resolve_evm s a = map_of (evm_index s) a"

definition resolve_evm_account_id :: "crypto \<Rightarrow> state_tree \<Rightarrow> addr20 \<Rightarrow> account_id option" where
  "resolve_evm_account_id cr s a = fallback_id s (resolve_evm s a) (legacy_idcom_evm cr a)"

definition resolve_tron :: "state_tree \<Rightarrow> addr20 \<Rightarrow> account_id option" where
  "resolve_tron s a = map_of (tron_index s) a"

definition resolve_tron_account_id :: "crypto \<Rightarrow> state_tree \<Rightarrow> addr20 \<Rightarrow> account_id option" where
  "resolve_tron_account_id cr s a = fallback_id s (resolve_tron s a) (legacy_idcom_tron cr a)"

definition st_evm_address :: "crypto \<Rightarrow> state_tree \<Rightarrow> account_id \<Rightarrow> addr20 option" where
  "st_evm_address cr s i = map_option (account_evm_address cr) (map_of (accounts s) i)"

definition st_tron_address :: "crypto \<Rightarrow> state_tree \<Rightarrow> account_id \<Rightarrow> addr20 option" where
  "st_tron_address cr s i = map_option (account_tron_address cr) (map_of (accounts s) i)"

definition resolve_xid :: "state_tree \<Rightarrow> hash32 \<Rightarrow> account_id option" where
  "resolve_xid s x = map_of (xid_index s) x"

definition resolve_xid_account_id :: "crypto \<Rightarrow> state_tree \<Rightarrow> hash32 \<Rightarrow> account_id option" where
  "resolve_xid_account_id cr s x = fallback_id s (resolve_xid s x) (idcom_xid cr x)"

definition resolve_solana :: "state_tree \<Rightarrow> hash32 \<Rightarrow> account_id option" where
  "resolve_solana s k = map_of (solana_index s) k"

definition resolve_solana_account_id :: "crypto \<Rightarrow> state_tree \<Rightarrow> hash32 \<Rightarrow> account_id option" where
  "resolve_solana_account_id cr s k = fallback_id s (resolve_solana s k) (legacy_idcom_solana cr k)"

definition resolve_btc :: "state_tree \<Rightarrow> bytes \<Rightarrow> account_id option" where
  "resolve_btc s k = map_of (btc_index s) k"

definition resolve_btc_account_id :: "crypto \<Rightarrow> state_tree \<Rightarrow> bytes \<Rightarrow> account_id option" where
  "resolve_btc_account_id cr s k = fallback_id s (resolve_btc s k) (legacy_idcom_btc_script cr k)"

definition resolve_xaddress :: "state_tree \<Rightarrow> hash32 \<Rightarrow> account_id option" where
  "resolve_xaddress s x = map_of (xaddress_index s) x"

section \<open>Contract storage and code\<close>

definition st_get_storage :: "state_tree \<Rightarrow> account_id \<Rightarrow> hash32 \<Rightarrow> hash32" where
  "st_get_storage s i slot =
    (case Option.bind (map_of (contract_storage s) i) (\<lambda>m. map_of m slot) of
       Some v \<Rightarrow> v | None \<Rightarrow> 0)"

definition st_set_storage :: "account_id \<Rightarrow> hash32 \<Rightarrow> hash32 \<Rightarrow> state_tree \<Rightarrow> state_tree" where
  "st_set_storage i slot v s =
    (let m = (case map_of (contract_storage s) i of Some m \<Rightarrow> m | None \<Rightarrow> [])
     in s\<lparr>contract_storage := bt_insert i (bt_insert slot v m) (contract_storage s)\<rparr>)"

definition st_set_code :: "crypto \<Rightarrow> account_id \<Rightarrow> bytes \<Rightarrow> state_tree \<Rightarrow> state_tree \<times> hash32 option" where
  "st_set_code cr i code s =
    (case map_of (accounts s) i of
       None \<Rightarrow> (s, None)
     | Some _ \<Rightarrow>
         let h = sha256 cr code
         in (st_modify i (\<lambda>a. a\<lparr>acc_code_hash := Some h, acc_code := Some code\<rparr>) s, Some h))"

definition st_get_code :: "state_tree \<Rightarrow> account_id \<Rightarrow> bytes option" where
  "st_get_code s i = Option.bind (map_of (accounts s) i) acc_code"

section \<open>State expiry\<close>

definition is_stubbed :: "state_tree \<Rightarrow> account_id \<Rightarrow> bool" where
  "is_stubbed s i = bt_contains i (stubs s)"

definition insert_stub :: "account_stub \<Rightarrow> state_tree \<Rightarrow> state_tree" where
  "insert_stub b s = s\<lparr>stubs := bt_insert (stub_id b) b (stubs s)\<rparr>"

definition expire_account ::
    "crypto \<Rightarrow> account_id \<Rightarrow> u64 \<Rightarrow> state_tree \<Rightarrow> state_tree \<times> account_stub option" where
  "expire_account cr i current_slot s =
    (case map_of (accounts s) i of
       None \<Rightarrow> (s, None)
     | Some a \<Rightarrow>
         let st = map_of (contract_storage s) i;
             stub = \<lparr>stub_id = i, stub_hash = compute_stub_hash cr a st,
                     expired_at_slot = current_slot\<rparr>
         in ((drop_account cr a i s)\<lparr>stubs := bt_insert i stub (stubs s)\<rparr>, Some stub))"

datatype resurrect_error = NotExpired | ProofMismatch

definition resurrect_account ::
    "crypto \<Rightarrow> resurrection_proof \<Rightarrow> u64 \<Rightarrow> state_tree \<Rightarrow> resurrect_error + state_tree" where
  "resurrect_account cr p new_slot s =
    (let i = acc_id (proof_account p)
     in case map_of (stubs s) i of
          None \<Rightarrow> Inl NotExpired
        | Some stub \<Rightarrow>
            if \<not> proof_verify cr p stub then Inl ProofMismatch
            else let s = s\<lparr>stubs := bt_remove i (stubs s)\<rparr>;
                     s = st_insert cr ((proof_account p)\<lparr>acc_last_touched_slot := new_slot\<rparr>) s
                 in Inr (foldl (\<lambda>s (slot, v). st_set_storage i slot v s) s (proof_storage p)))"

definition expirable :: "u64 \<Rightarrow> account \<Rightarrow> bool" where
  "expirable cutoff a =
    (acc_last_touched_slot a < cutoff \<and> acc_balance a = 0 \<and> acc_code_hash a = None)"

definition sweep_expired :: "crypto \<Rightarrow> u64 \<Rightarrow> u64 \<Rightarrow> state_tree \<Rightarrow> state_tree \<times> nat" where
  "sweep_expired cr current_slot expiry_period s =
    (let cutoff = saturating_sub current_slot expiry_period;
         to_expire = map fst (filter (\<lambda>(i, a). expirable cutoff a) (accounts s))
     in (foldl (\<lambda>s i. fst (expire_account cr i current_slot s)) s to_expire, length to_expire))"

section \<open>Merkle root\<close>

fun merkle_level :: "crypto \<Rightarrow> hash32 list \<Rightarrow> hash32 list" where
  "merkle_level cr [] = []"
| "merkle_level cr [x] = [sha256 cr (bytes32 x @ bytes32 x)]"
| "merkle_level cr (x # y # xs) = sha256 cr (bytes32 x @ bytes32 y) # merkle_level cr xs"

lemma length_merkle_level: "length (merkle_level cr xs) = (length xs + 1) div 2"
  by (induction cr xs rule: merkle_level.induct) auto

text \<open>The \<open>while\<close> loop of the source; \<open>None\<close> is the out-of-range access on no hashes at all.\<close>

function merkle_root :: "crypto \<Rightarrow> hash32 list \<Rightarrow> hash32 option" where
  "merkle_root cr xs =
    (if 1 < length xs then merkle_root cr (merkle_level cr xs)
     else case xs of [] \<Rightarrow> None | x # _ \<Rightarrow> Some x)"
  by pat_completeness auto
termination
  by (relation "measure (\<lambda>(cr, xs). length xs)") (auto simp: length_merkle_level)

declare merkle_root.simps [simp del]

definition account_leaf :: "crypto \<Rightarrow> state_tree \<Rightarrow> account_id \<Rightarrow> account \<Rightarrow> hash32" where
  "account_leaf cr s i a =
    sha256 cr (to_hash_bytes cr a @ storage_bytes (map_of (contract_storage s) i))"

definition account_leaves :: "crypto \<Rightarrow> state_tree \<Rightarrow> (account_id, hash32) bmap" where
  "account_leaves cr s =
    foldl (\<lambda>m (i, a). bt_insert i (account_leaf cr s i a) m)
      (foldl (\<lambda>m (i, b). bt_insert i (stub_hash b) m) [] (stubs s)) (accounts s)"

definition tagged_leaf :: "crypto \<Rightarrow> string \<Rightarrow> hash32 \<Rightarrow> bytes \<Rightarrow> hash32" where
  "tagged_leaf cr tag k v = sha256 cr (ascii tag @ bytes32 k @ v)"

definition root_hashes :: "crypto \<Rightarrow> state_tree \<Rightarrow> hash32 list" where
  "root_hashes cr s =
    map snd (account_leaves cr s)
    @ map (\<lambda>(k, v). tagged_leaf cr ''hfi:intent:v1:'' k v) (hfi_intents s)
    @ map (\<lambda>(k, v). tagged_leaf cr ''hfi:recipient:v1:'' k v) (hfi_recipients s)
    @ map (\<lambda>(k, v). tagged_leaf cr ''zkace:replay:v1:'' k (bytes32 v)) (zk_replay_registry s)"

definition compute_root :: "crypto \<Rightarrow> state_tree \<Rightarrow> hash32 option" where
  "compute_root cr s =
    (if accounts s = [] \<and> stubs s = [] \<and> hfi_intents s = [] \<and> hfi_recipients s = []
        \<and> zk_replay_registry s = []
     then Some (sha256 cr (ascii ''ACE-EMPTY-STATE-V1''))
     else merkle_root cr (root_hashes cr s))"

text \<open>Snapshots share the maps and rolling back puts them in place again.\<close>

definition st_snapshot :: "state_tree \<Rightarrow> state_tree" where
  "st_snapshot s = s"

definition st_rollback :: "state_tree \<Rightarrow> state_tree \<Rightarrow> state_tree" where
  "st_rollback s snapshot = snapshot"

section \<open>Well-formedness\<close>

definition st_wf :: "state_tree \<Rightarrow> bool" where
  "st_wf s \<longleftrightarrow> bt_wf (accounts s) \<and> bt_wf (stubs s) \<and> bt_wf (contract_storage s)
    \<and> (\<forall>(i, m) \<in> set (contract_storage s). bt_wf m)
    \<and> (\<forall>(i, a) \<in> set (accounts s). acc_id a = i)
    \<and> (\<forall>(i, b) \<in> set (stubs s). stub_id b = i)
    \<and> (\<forall>i. map_of (accounts s) i = None \<or> map_of (stubs s) i = None)
    \<and> bt_wf (hfi_intents s) \<and> bt_wf (hfi_recipients s) \<and> bt_wf (hfi_idcom_index s)
    \<and> bt_wf (zk_replay_registry s)"

lemma st_wf_new [simp]: "st_wf st_new"
  by (simp add: st_wf_def st_new_def)

lemma st_wf_insert [simp]: "st_wf s \<Longrightarrow> st_wf (st_insert cr a s)"
  by (fastforce simp: st_wf_def st_insert_def Let_def map_of_bt_insert
      dest: set_bt_insert_cases set_bt_remove_sub)

lemma st_wf_modify:
  "st_wf s \<Longrightarrow> (\<And>a. acc_id (f a) = acc_id a) \<Longrightarrow> st_wf (st_modify i f s)"
  by (fastforce simp: st_wf_def st_modify_def dest: set_bt_modify_cases)

lemma st_wf_drop_account:
  "st_wf s \<Longrightarrow> st_wf (drop_account cr a i s)"
  by (auto simp: st_wf_def drop_account_def dest: set_bt_remove_sub)

lemma st_wf_expire [simp]: "st_wf s \<Longrightarrow> st_wf (fst (expire_account cr i slot s))"
  using st_wf_drop_account [of s cr _ i]
  by (fastforce simp: st_wf_def expire_account_def Let_def drop_account_def map_of_bt_insert
      dest: set_bt_insert_cases split: option.splits)

lemma st_wf_set_storage [simp]:
  assumes "st_wf s"
  shows "st_wf (st_set_storage i slot v s)"
proof -
  have "bt_wf m" if "map_of (contract_storage s) i = Some m" for m
    using assms map_of_SomeD [OF that] by (auto simp: st_wf_def)
  then show ?thesis
    using assms by (fastforce simp: st_wf_def st_set_storage_def Let_def
        dest!: set_bt_insert_cases split: option.splits)
qed

lemma st_wf_foldl_storage:
  "st_wf s \<Longrightarrow> st_wf (foldl (\<lambda>s (slot, v). st_set_storage i slot v s) s m)"
  by (induction m arbitrary: s) auto

lemma st_wf_resurrect:
  assumes "st_wf s" and "resurrect_account cr p slot s = Inr s'"
  shows "st_wf s'"
proof -
  have "st_wf (s\<lparr>stubs := bt_remove i (stubs s)\<rparr>)" for i
    using assms(1) by (auto simp: st_wf_def dest: set_bt_remove_sub)
  then show ?thesis
    using assms(2) by (auto simp: resurrect_account_def Let_def st_wf_foldl_storage
        split: option.splits if_splits)
qed

lemma st_get_id: "st_wf s \<Longrightarrow> st_get s i = Some a \<Longrightarrow> acc_id a = i"
  by (auto simp: st_wf_def st_get_def dest!: map_of_SomeD)

lemma st_wf_accounts: "st_wf s \<Longrightarrow> bt_wf (accounts s)"
  by (simp add: st_wf_def)

lemma st_hot_not_stub: "st_wf s \<Longrightarrow> map_of (accounts s) i = None \<or> map_of (stubs s) i = None"
  by (simp add: st_wf_def)

lemma st_get_modify:
  "st_get (st_modify i f s) j = (if j = i then map_option f (st_get s i) else st_get s j)"
  by (simp add: st_get_def st_modify_def)

lemma st_get_insert:
  "st_wf s \<Longrightarrow> st_get (st_insert cr a s) j = (if j = acc_id a then Some a else st_get s j)"
  by (simp add: st_get_def st_insert_def Let_def map_of_bt_insert st_wf_accounts)

section \<open>The state tree as a store of accounts\<close>

definition st_total :: "(account \<Rightarrow> nat) \<Rightarrow> state_tree \<Rightarrow> nat" where
  "st_total g s = hm_total g (accounts s)"

interpretation st: account_store st_wf st_get st_modify "st_insert cr" st_total for cr
proof
  fix s :: state_tree and i :: account_id and a :: account and f :: "account \<Rightarrow> account"
    and g :: "account \<Rightarrow> nat"
  assume wf: "st_wf s"
  note b = st_wf_accounts [OF this]
  show "st_get s i = Some a \<Longrightarrow> st_total g (st_modify i f s) + g a = st_total g s + g (f a)"
    using hm_total_bt_modify [OF bt_wf_hm_wf [OF b]] by (simp add: st_get_def st_total_def st_modify_def)
  show "st_total g (st_insert cr a s) + opt_val g (st_get s (acc_id a)) = st_total g s + g a"
    using hm_total_bt_insert [OF b] by (simp add: st_get_def st_total_def st_insert_def Let_def)
qed (simp_all add: st_wf_modify st_get_modify st_get_insert)

section \<open>Expiry\<close>

lemma expire_effect:
  assumes "st_wf s" and "st_get s i = Some a"
  shows "st_get (fst (expire_account cr i slot s)) j = (if j = i then None else st_get s j)
    \<and> map_of (stubs (fst (expire_account cr i slot s))) j =
        (if j = i then Some \<lparr>stub_id = i,
            stub_hash = compute_stub_hash cr a (map_of (contract_storage s) i),
            expired_at_slot = slot\<rparr>
         else map_of (stubs s) j)
    \<and> map_of (contract_storage (fst (expire_account cr i slot s))) j =
        (if j = i then None else map_of (contract_storage s) j)
    \<and> st_total bal (fst (expire_account cr i slot s)) + bal a = st_total bal s"
proof -
  have "bt_wf (stubs s)" using assms(1) by (simp add: st_wf_def)
  then show ?thesis
    using assms(2) bt.tot_del [OF st_wf_accounts [OF assms(1)], of bal i]
    by (simp add: expire_account_def Let_def st_get_def st_total_def drop_account_def
        map_of_bt_insert)
qed

lemma expire_absent: "st_get s i = None \<Longrightarrow> fst (expire_account cr i slot s) = s"
  by (simp add: expire_account_def st_get_def)

lemma st_get_storage_eqI:
  "map_of (contract_storage s) = map_of (contract_storage s') \<Longrightarrow>
   st_get_storage s i slot = st_get_storage s' i slot"
  by (simp add: st_get_storage_def)

lemma set_storage_frame [simp]:
  "accounts (st_set_storage i slot v s) = accounts s"
  "stubs (st_set_storage i slot v s) = stubs s"
  by (simp_all add: st_set_storage_def Let_def)

lemma foldl_set_storage_frame [simp]:
  "accounts (foldl (\<lambda>s (slot, v). st_set_storage i slot v s) s m) = accounts s"
  "stubs (foldl (\<lambda>s (slot, v). st_set_storage i slot v s) s m) = stubs s"
  by (induction m arbitrary: s) auto

lemma st_get_set_storage:
  assumes "st_wf s"
  shows "st_get_storage (st_set_storage i slot v s) j k
    = (if j = i \<and> k = slot then v else st_get_storage s j k)"
proof -
  have cs: "bt_wf (contract_storage s)" using assms by (simp add: st_wf_def)
  have "bt_wf m" if "map_of (contract_storage s) i = Some m" for m
    using assms map_of_SomeD [OF that] by (auto simp: st_wf_def)
  then show ?thesis
    by (auto simp: st_get_storage_def st_set_storage_def Let_def map_of_bt_insert [OF cs]
        map_of_bt_insert split: option.splits)
qed

lemma st_get_foldl_storage:
  assumes "st_wf s" and "bt_wf m"
  shows "st_get_storage (foldl (\<lambda>s (slot, v). st_set_storage i slot v s) s m) j k
    = (if j = i then (case map_of m k of Some v \<Rightarrow> v | None \<Rightarrow> st_get_storage s j k)
       else st_get_storage s j k)"
  using assms
proof (induction m arbitrary: s)
  case (Cons p m)
  obtain slot v where p: "p = (slot, v)" by (cases p)
  have "map_of m slot = None"
    using Cons.prems(2) p by (force simp: map_of_eq_None_iff)
  then show ?case
    using Cons p by (auto simp: st_get_set_storage split: option.splits)
qed simp

text \<open>Expiring and bringing back with the data that was expired.\<close>

lemma resurrect_accepts:
  assumes wf: "st_wf s" and get: "st_get s i = Some a"
    and p: "proof_account p = a"
      "proof_storage p = (case map_of (contract_storage s) i of Some m \<Rightarrow> m | None \<Rightarrow> [])"
  shows "\<exists>s2. resurrect_account cr p slot' (fst (expire_account cr i slot s)) = Inr s2
    \<and> (\<forall>j. st_get s2 j = (if j = i then Some (a\<lparr>acc_last_touched_slot := slot'\<rparr>) else st_get s j))
    \<and> (\<forall>j k. st_get_storage s2 j k = st_get_storage s j k)
    \<and> (\<forall>j. is_stubbed s2 j = is_stubbed s j)
    \<and> st_total bal s2 = st_total bal s"
proof -
  let ?s1 = "fst (expire_account cr i slot s)"
  let ?a = "a\<lparr>acc_last_touched_slot := slot'\<rparr>"
  let ?s0 = "?s1\<lparr>stubs := bt_remove i (stubs ?s1)\<rparr>"
  let ?s' = "st_insert cr ?a ?s0"
  let ?s2 = "foldl (\<lambda>s (slot, v). st_set_storage i slot v s) ?s' (proof_storage p)"
  note eff = expire_effect [OF wf get, of cr slot]
  have id: "acc_id a = i" using st_get_id [OF wf get] .
  have wf1: "st_wf ?s1" using wf by simp
  have wf0: "st_wf ?s0"
    using wf1 by (auto simp: st_wf_def dest: set_bt_remove_sub)
  have bytes: "storage_bytes (Some (proof_storage p)) = storage_bytes (map_of (contract_storage s) i)"
    using p(2) by (simp split: option.splits)
  have bs: "bt_wf (proof_storage p)"
    using p(2) wf by (auto simp: st_wf_def split: option.splits dest!: map_of_SomeD)
  have r: "resurrect_account cr p slot' ?s1 = Inr ?s2"
    using eff p(1) id bytes
    by (simp add: resurrect_account_def Let_def proof_verify_def compute_stub_hash_def)
  have "st_get ?s' j = (if j = i then Some ?a else st_get s j)" for j
    using eff id by (simp add: st_get_insert [OF wf0]) (simp add: st_get_def)
  then have g: "st_get ?s2 j = (if j = i then Some ?a else st_get s j)" for j
    by (simp add: st_get_def)
  have st': "st_get_storage ?s' j k = (if j = i then 0 else st_get_storage s j k)" for j k
    using eff by (simp add: st_get_storage_def st_insert_def Let_def)
  have s: "st_get_storage ?s2 j k = st_get_storage s j k" for j k
    using st_get_foldl_storage [OF st_wf_insert [OF wf0] bs] st' p(2)
    by (auto simp: st_get_storage_def split: option.splits)
  have "map_of (stubs s) i = None"
    using st_hot_not_stub [OF wf, of i] get by (simp add: st_get_def)
  then have "is_stubbed ?s2 j = is_stubbed s j" for j
    using eff id by (simp add: is_stubbed_def bt_contains_def st_insert_def Let_def)
  moreover have "st_total bal ?s2 = st_total bal s"
  proof -
    have "st_total bal ?s2 = st_total bal ?s'" by (simp add: st_total_def)
    moreover have "st_total bal ?s' = st_total bal ?s0 + bal ?a"
      using st.stot_ins [OF wf0, of bal cr ?a] eff id by (simp add: st_get_def)
    moreover have "st_total bal ?s0 = st_total bal ?s1" by (simp add: st_total_def)
    ultimately show ?thesis using eff by (simp add: bal_def)
  qed
  ultimately show ?thesis using r g s by blast
qed

text \<open>Only the data that was expired is accepted, unless two hashed strings collide.\<close>

definition stub_preimage :: "crypto \<Rightarrow> account \<Rightarrow> storage option \<Rightarrow> bytes" where
  "stub_preimage cr a st = ascii ''ACE-STUB-V1'' @ to_hash_bytes cr a @ storage_bytes st"

lemma resurrect_InrD:
  "resurrect_account cr p slot s = Inr s2 \<Longrightarrow>
   \<exists>stub. map_of (stubs s) (acc_id (proof_account p)) = Some stub \<and> proof_verify cr p stub"
  by (simp add: resurrect_account_def Let_def split: option.splits if_splits)

lemma accepted_proof_authentic:
  assumes wf: "st_wf s" and get: "st_get s i = Some a" and "acc_id (proof_account p) = i"
    and ok: "account_ok a" "account_ok (proof_account p)"
    and acc: "resurrect_account cr p slot' (fst (expire_account cr i slot s)) = Inr s2"
    and inj: "inj_on (sha256 cr) {stub_preimage cr a (map_of (contract_storage s) i),
      stub_preimage cr (proof_account p) (Some (proof_storage p))}"
  shows "same_commitment cr a (proof_account p) \<and>
    storage_bytes (map_of (contract_storage s) i) = storage_bytes (Some (proof_storage p))"
proof -
  have "sha256 cr (stub_preimage cr a (map_of (contract_storage s) i))
      = sha256 cr (stub_preimage cr (proof_account p) (Some (proof_storage p)))"
    using resurrect_InrD [OF acc] expire_effect [OF wf get, of cr slot] assms(3)
    by (auto simp: proof_verify_def compute_stub_hash_def stub_preimage_def)
  then have "stub_preimage cr a (map_of (contract_storage s) i)
      = stub_preimage cr (proof_account p) (Some (proof_storage p))"
    by (rule inj_onD [OF inj]) simp_all
  then show ?thesis
    using leaf_inj ok by (simp add: stub_preimage_def)
qed


definition sample_tree :: state_tree where
  "sample_tree = st_set_storage 5 1 9 (st_insert sample_crypto_len (account_with_balance 5 70)
     (st_insert sample_crypto_len (account_with_balance 3 40) st_new))"


section \<open>The sweep\<close>

lemma expire_list:
  assumes "st_wf s" and "distinct is" and "\<And>i. i \<in> set is \<Longrightarrow> \<exists>a. st_get s i = Some a \<and> bal a = 0"
  shows "let s' = foldl (\<lambda>s i. fst (expire_account cr i slot s)) s is in
    st_wf s' \<and> st_total bal s' = st_total bal s
    \<and> (\<forall>j. st_get s' j = (if j \<in> set is then None else st_get s j))
    \<and> (\<forall>j. is_stubbed s' j = (j \<in> set is \<or> is_stubbed s j))"
  using assms
proof (induction "is" arbitrary: s)
  case (Cons i "is")
  obtain a where a: "st_get s i = Some a" "bal a = 0" using Cons.prems(3) by auto
  let ?s = "fst (expire_account cr i slot s)"
  note eff = expire_effect [OF Cons.prems(1) a(1), of cr slot]
  have "\<exists>a. st_get ?s j = Some a \<and> bal a = 0" if "j \<in> set is" for j
    using Cons.prems(2,3) that eff by auto
  note IH = Cons.IH [OF st_wf_expire [OF Cons.prems(1)] _ this]
  show ?case
    using IH Cons.prems(2) eff a(2)
    by (auto simp: Let_def is_stubbed_def bt_contains_def)
qed simp



section \<open>What the root commits to\<close>

fun level_inputs :: "hash32 list \<Rightarrow> bytes list" where
  "level_inputs [] = []"
| "level_inputs [x] = [bytes32 x @ bytes32 x]"
| "level_inputs (x # y # xs) = (bytes32 x @ bytes32 y) # level_inputs xs"

lemma merkle_level_inputs: "merkle_level cr xs = map (sha256 cr) (level_inputs xs)"
  by (induction cr xs rule: merkle_level.induct) auto

lemma level_inputs_inj:
  "length xs = length ys \<Longrightarrow> level_inputs xs = level_inputs ys \<Longrightarrow> xs = ys"
proof (induction xs arbitrary: ys rule: level_inputs.induct)
  case (2 x)
  then show ?case by (cases ys; cases "tl ys") (auto simp: append_eq_append_conv)
next
  case (3 x y xs)
  then obtain x' y' ys' where "ys = x' # y' # ys'"
    by (cases ys; cases "tl ys") auto
  with 3 show ?case by (simp add: append_eq_append_conv)
qed simp

text \<open>All the strings hashed on the way from the leaves to the root.\<close>

function merkle_inputs :: "crypto \<Rightarrow> hash32 list \<Rightarrow> bytes list" where
  "merkle_inputs cr xs =
    (if 1 < length xs then level_inputs xs @ merkle_inputs cr (merkle_level cr xs) else [])"
  by pat_completeness auto
termination
  by (relation "measure (\<lambda>(cr, xs). length xs)") (auto simp: length_merkle_level)

declare merkle_inputs.simps [simp del]

lemma merkle_root_inj:
  assumes "length xs = length ys" and "merkle_root cr xs = merkle_root cr ys"
    and "inj_on (sha256 cr) (set (merkle_inputs cr xs) \<union> set (merkle_inputs cr ys))"
  shows "xs = ys"
  using assms
proof (induction cr xs arbitrary: ys rule: merkle_root.induct)
  case (1 cr xs)
  show ?case
  proof (cases "1 < length xs")
    case False
    then show ?thesis
      using 1 by (cases xs; cases ys) (auto simp: merkle_root.simps split: list.splits)
  next
    case True
    let ?l = "merkle_level cr"
    have in_xs: "merkle_inputs cr xs = level_inputs xs @ merkle_inputs cr (?l xs)"
      and in_ys: "merkle_inputs cr ys = level_inputs ys @ merkle_inputs cr (?l ys)"
      using True "1.prems"(1) by (simp_all add: merkle_inputs.simps [of cr xs] merkle_inputs.simps [of cr ys])
    have "merkle_root cr (?l xs) = merkle_root cr (?l ys)"
      using True "1.prems"(1,2) by (simp add: merkle_root.simps [of cr xs] merkle_root.simps [of cr ys])
    moreover have "inj_on (sha256 cr) (set (merkle_inputs cr (?l xs)) \<union> set (merkle_inputs cr (?l ys)))"
      by (rule inj_on_subset [OF "1.prems"(3)]) (auto simp: in_xs in_ys)
    ultimately have "?l xs = ?l ys"
      using True "1.prems"(1) by (intro "1.IH") (simp_all add: length_merkle_level)
    then have "level_inputs xs = level_inputs ys"
      unfolding merkle_level_inputs
      by (rule map_inj_on) (rule inj_on_subset [OF "1.prems"(3)], auto simp: in_xs in_ys)
    with "1.prems"(1) show ?thesis by (rule level_inputs_inj)
  qed
qed

text \<open>The strings hashed into the leaves.\<close>

definition leaf_input :: "crypto \<Rightarrow> state_tree \<Rightarrow> account_id \<times> account \<Rightarrow> bytes" where
  "leaf_input cr s = (\<lambda>(i, a). to_hash_bytes cr a @ storage_bytes (map_of (contract_storage s) i))"

definition tagged_input :: "string \<Rightarrow> hash32 \<times> bytes \<Rightarrow> bytes" where
  "tagged_input tag = (\<lambda>(k, v). ascii tag @ bytes32 k @ v)"

definition leaf_inputs :: "crypto \<Rightarrow> state_tree \<Rightarrow> bytes list" where
  "leaf_inputs cr s =
    map (leaf_input cr s) (accounts s)
    @ map (tagged_input ''hfi:intent:v1:'') (hfi_intents s)
    @ map (tagged_input ''hfi:recipient:v1:'') (hfi_recipients s)
    @ map (tagged_input ''zkace:replay:v1:'') (map (\<lambda>(k, v). (k, bytes32 v)) (zk_replay_registry s))"

definition root_inputs :: "crypto \<Rightarrow> state_tree \<Rightarrow> bytes set" where
  "root_inputs cr s = set (leaf_inputs cr s) \<union> set (merkle_inputs cr (root_hashes cr s))"

lemma account_leaves_eq:
  assumes "st_wf s" and "stubs s = []"
  shows "account_leaves cr s = map (\<lambda>(i, a). (i, account_leaf cr s i a)) (accounts s)"
  using foldl_bt_insert [of "[]" "accounts s" "account_leaf cr s"] assms
  by (simp add: account_leaves_def st_wf_accounts)

lemma root_hashes_eq:
  assumes "st_wf s" and "stubs s = []"
  shows "root_hashes cr s = map (sha256 cr) (leaf_inputs cr s)"
  unfolding root_hashes_def leaf_inputs_def account_leaves_eq [OF assms]
  by (auto simp: leaf_input_def tagged_input_def tagged_leaf_def account_leaf_def)

definition same_sizes :: "state_tree \<Rightarrow> state_tree \<Rightarrow> bool" where
  "same_sizes s t \<longleftrightarrow> length (accounts s) = length (accounts t)
     \<and> length (hfi_intents s) = length (hfi_intents t)
     \<and> length (hfi_recipients s) = length (hfi_recipients t)
     \<and> length (zk_replay_registry s) = length (zk_replay_registry t)"

lemma tagged_inputs_inj:
  "map (tagged_input tag) xs = map (tagged_input tag) ys \<Longrightarrow> xs = ys"
  by (rule map_injective) (auto simp: inj_def tagged_input_def append_eq_append_conv)

lemma replay_inj:
  "map (\<lambda>(k, v). (k, bytes32 v)) xs = map (\<lambda>(k, v). (k, bytes32 v)) ys \<Longrightarrow> xs = ys"
  by (rule map_injective) (auto simp: inj_def)

definition same_entry :: "crypto \<Rightarrow> state_tree \<Rightarrow> state_tree \<Rightarrow> account_id \<times> account \<Rightarrow> account_id \<times> account \<Rightarrow> bool" where
  "same_entry cr s t p q \<longleftrightarrow> fst p = fst q \<and> same_commitment cr (snd p) (snd q) \<and>
    storage_bytes (map_of (contract_storage s) (fst p))
      = storage_bytes (map_of (contract_storage t) (fst q))"

lemma leaf_inputs_determine:
  assumes eq: "leaf_inputs cr s = leaf_inputs cr t" and sizes: "same_sizes s t"
    and wf: "st_wf s" "st_wf t"
    and ok: "\<forall>(i, a) \<in> set (accounts s). account_ok a" "\<forall>(i, a) \<in> set (accounts t). account_ok a"
  shows "list_all2 (same_entry cr s t) (accounts s) (accounts t)
    \<and> hfi_intents s = hfi_intents t \<and> hfi_recipients s = hfi_recipients t
    \<and> zk_replay_registry s = zk_replay_registry t"
proof -
  have parts: "map (leaf_input cr s) (accounts s) = map (leaf_input cr t) (accounts t)"
    "map (tagged_input ''hfi:intent:v1:'') (hfi_intents s) = map (tagged_input ''hfi:intent:v1:'') (hfi_intents t)"
    "map (tagged_input ''hfi:recipient:v1:'') (hfi_recipients s)
      = map (tagged_input ''hfi:recipient:v1:'') (hfi_recipients t)"
    "map (tagged_input ''zkace:replay:v1:'') (map (\<lambda>(k, v). (k, bytes32 v)) (zk_replay_registry s))
      = map (tagged_input ''zkace:replay:v1:'') (map (\<lambda>(k, v). (k, bytes32 v)) (zk_replay_registry t))"
    using eq sizes by (simp_all add: leaf_inputs_def same_sizes_def append_eq_append_conv)
  have "list_all2 (same_entry cr s t) (accounts s) (accounts t)"
  proof (rule list_all2_all_nthI)
    fix n assume n: "n < length (accounts s)"
    obtain i a j b where p: "accounts s ! n = (i, a)" "accounts t ! n = (j, b)"
      by (cases "accounts s ! n"; cases "accounts t ! n") auto
    have n': "n < length (accounts t)" using n sizes by (simp add: same_sizes_def)
    have mem: "(i, a) \<in> set (accounts s)" "(j, b) \<in> set (accounts t)"
      using nth_mem [OF n] nth_mem [OF n'] p by simp_all
    have "leaf_input cr s (i, a) = leaf_input cr t (j, b)"
      using arg_cong [OF parts(1), of "\<lambda>xs. xs ! n"] n n' p by simp
    then have "same_commitment cr a b \<and>
        storage_bytes (map_of (contract_storage s) i) = storage_bytes (map_of (contract_storage t) j)"
      using leaf_inj ok mem by (fastforce simp: leaf_input_def)
    moreover have "acc_id a = i" "acc_id b = j"
      using wf mem by (auto simp: st_wf_def)
    moreover have "acc_id a = acc_id b"
      using calculation(1) by (simp add: same_commitment_def)
    ultimately show "same_entry cr s t (accounts s ! n) (accounts t ! n)"
      using p by (simp add: same_entry_def)
  qed (use sizes in \<open>simp add: same_sizes_def\<close>)
  then show ?thesis
    using tagged_inputs_inj [OF parts(2)] tagged_inputs_inj [OF parts(3)]
      replay_inj [OF tagged_inputs_inj [OF parts(4)]] by blast
qed

lemma compute_root_hashes:
  assumes "st_wf s" and "stubs s = []" and "leaf_inputs cr s \<noteq> []"
  shows "compute_root cr s = merkle_root cr (root_hashes cr s)"
  using assms by (auto simp: compute_root_def leaf_inputs_def)



section \<open>Alias indexes\<close>

lemma xid_index_insert:
  "xid_index (st_insert cr a s) =
    index_replace (Option.bind (st_get s (acc_id a)) acc_xid) (acc_xid a) (acc_id a) (xid_index s)"
  by (simp add: st_insert_def Let_def st_get_def)

text \<open>
  The index entry of an alias can pass from the account that registered it to another
  one. An insertion keeps an entry that another account holds, but it first removes the
  entry of the old alias of the inserted account without looking at its holder: when an
  account whose alias was refused because it was taken is written a second time, the entry
  of the first holder is dropped and the alias resolves to the second account.
\<close>

theorem alias_taken_over:
  assumes "acc_id a \<noteq> acc_id b" and "acc_xid a = Some x" and "acc_xid b = Some x"
    and "st_wf s" and "resolve_xid s x = None" and "st_get s (acc_id a) = None"
    and "st_get s (acc_id b) = None"
  shows "let s1 = st_insert cr a s; s2 = st_insert cr b s1; s3 = st_insert cr b s2 in
    resolve_xid s2 x = Some (acc_id a) \<and> resolve_xid s3 x = Some (acc_id b)
    \<and> st_get s3 (acc_id a) = Some a"
  using assms unfolding Let_def resolve_xid_def
  by (simp add: xid_index_insert st_get_insert index_replace_def Let_def)

theorem alias_taken_over_witness:
  "let cr = sample_crypto_len; a = account_with_xid 1 9 default_pubkey;
       b = account_with_xid 2 9 default_pubkey;
       s2 = st_insert cr b (st_insert cr a st_new) in
   resolve_xid s2 9 = Some 1 \<and> resolve_xid (st_insert cr b s2) 9 = Some 2"
proof -
  have "resolve_xid st_new 9 = None" "st_get st_new i = None" for i
    by (simp_all add: resolve_xid_def st_get_def st_new_def)
  moreover have "acc_id (account_with_xid i x k) = i" "acc_xid (account_with_xid i x k) = Some x" for i x k
    by (simp_all add: account_with_xid_def account_new_def)
  ultimately show ?thesis
    using alias_taken_over [of "account_with_xid 1 9 default_pubkey"
        "account_with_xid 2 9 default_pubkey" 9 st_new sample_crypto_len]
    by (simp add: Let_def)
qed

end
