(* ===== verification/Sharded_State.thy ===== *)
theory Sharded_State
  imports State_Tree
begin

text \<open>
  The sharded state of \<open>ace-model/src/sharded_state.rs\<close>: an ordered map of state trees and
  an index of manual placements. Lookups go to the target shard and fall back to the default
  shard. The invariant says where an account may live; under it the whole container behaves
  like one store of accounts, which is shown by interpreting \<open>account_store\<close>. Two places
  where the source leaves the invariant are stated at the end.
\<close>

section \<open>State and routing\<close>

record sharded_state =
  shards :: "(u64, state_tree) bmap"
  shard_index :: "(account_id, u64) hmap"

definition NUM_VIRTUAL_SHARDS :: u64 where "NUM_VIRTUAL_SHARDS = 1024"

definition ss_new :: sharded_state where
  "ss_new = \<lparr>shards = [(0, st_new)], shard_index = []\<rparr>"

definition deterministic_shard :: "account_id \<Rightarrow> u64" where
  "deterministic_shard i = ucast (drop_bit 240 i) mod NUM_VIRTUAL_SHARDS"

definition target_shard :: "sharded_state \<Rightarrow> account_id \<Rightarrow> u64" where
  "target_shard s i =
    (case map_of (shard_index s) i of Some k \<Rightarrow> k | None \<Rightarrow> deterministic_shard i)"

definition from_state_tree :: "state_tree \<Rightarrow> sharded_state" where
  "from_state_tree t = \<lparr>shards = [(0, t)], shard_index = []\<rparr>"

definition into_default_state_tree :: "sharded_state \<Rightarrow> state_tree" where
  "into_default_state_tree s = (case map_of (shards s) 0 of Some t \<Rightarrow> t | None \<Rightarrow> st_new)"

text \<open>\<open>default_shard\<close> panics when the shard is missing.\<close>

definition default_shard :: "sharded_state \<Rightarrow> state_tree option" where
  "default_shard s = map_of (shards s) 0"

text \<open>\<open>shards.entry(k).or_default()\<close> and a change of the tree found there.\<close>

definition shard_update :: "u64 \<Rightarrow> (state_tree \<Rightarrow> state_tree) \<Rightarrow> sharded_state \<Rightarrow> sharded_state" where
  "shard_update k f s =
    s\<lparr>shards := bt_insert k (f (case map_of (shards s) k of Some t \<Rightarrow> t | None \<Rightarrow> st_new)) (shards s)\<rparr>"

section \<open>Accounts\<close>

definition shard_get :: "sharded_state \<Rightarrow> u64 \<Rightarrow> account_id \<Rightarrow> account option" where
  "shard_get s k i = Option.bind (map_of (shards s) k) (\<lambda>t. st_get t i)"

definition ss_get :: "sharded_state \<Rightarrow> account_id \<Rightarrow> account option" where
  "ss_get s i =
    (let k = target_shard s i
     in case shard_get s k i of
          Some a \<Rightarrow> Some a
        | None \<Rightarrow> if k \<noteq> 0 then shard_get s 0 i else None)"

definition ss_modify :: "account_id \<Rightarrow> (account \<Rightarrow> account) \<Rightarrow> sharded_state \<Rightarrow> sharded_state" where
  "ss_modify i f s =
    (let k = target_shard s i
     in if shard_get s k i \<noteq> None then s\<lparr>shards := bt_modify k (st_modify i f) (shards s)\<rparr>
        else if k \<noteq> 0 \<and> shard_get s 0 i \<noteq> None
        then s\<lparr>shards := bt_modify 0 (st_modify i f) (shards s)\<rparr>
        else s)"

definition ss_contains :: "sharded_state \<Rightarrow> account_id \<Rightarrow> bool" where
  "ss_contains s i =
    (let k = target_shard s i
     in shard_get s k i \<noteq> None \<or> (k \<noteq> 0 \<and> shard_get s 0 i \<noteq> None))"

definition total_account_count :: "sharded_state \<Rightarrow> nat" where
  "total_account_count s = sum_list (map (\<lambda>(k, t). length (accounts t)) (shards s))"

text \<open>\<open>if let Some(state) = self.shards.get_mut(k) { state.remove(id); }\<close>\<close>

definition shard_remove :: "crypto \<Rightarrow> u64 \<Rightarrow> account_id \<Rightarrow> sharded_state \<Rightarrow> sharded_state" where
  "shard_remove cr k i s = s\<lparr>shards := bt_modify k (\<lambda>t. fst (st_remove cr i t)) (shards s)\<rparr>"

definition ss_insert :: "crypto \<Rightarrow> account \<Rightarrow> sharded_state \<Rightarrow> sharded_state" where
  "ss_insert cr a s =
    (let i = acc_id a;
         k = target_shard s i;
         s = (case map_of (shard_index s) i of
                Some old \<Rightarrow> if old \<noteq> k then shard_remove cr old i s else s
              | None \<Rightarrow> if k \<noteq> 0 then shard_remove cr 0 i s else s);
         s = shard_update k (st_insert cr a) s
     in s\<lparr>shard_index := hm_insert i k (shard_index s)\<rparr>)"

definition insert_into_shard :: "crypto \<Rightarrow> u64 \<Rightarrow> account \<Rightarrow> sharded_state \<Rightarrow> sharded_state" where
  "insert_into_shard cr k a s =
    (let i = acc_id a;
         s = (case map_of (shard_index s) i of
                Some old \<Rightarrow> if old \<noteq> k then shard_remove cr old i s else s
              | None \<Rightarrow> s);
         s = shard_update k (st_insert cr a) s
     in s\<lparr>shard_index := hm_insert i k (shard_index s)\<rparr>)"

text \<open>The first shard, in the order of the ids, that satisfies a test.\<close>

definition first_shard :: "(state_tree \<Rightarrow> bool) \<Rightarrow> sharded_state \<Rightarrow> (u64 \<times> state_tree) option" where
  "first_shard P s = find (\<lambda>(k, t). P t) (shards s)"

definition ss_remove :: "crypto \<Rightarrow> account_id \<Rightarrow> sharded_state \<Rightarrow> sharded_state \<times> account option" where
  "ss_remove cr i s =
    (case first_shard (\<lambda>t. st_contains t i) s of
       None \<Rightarrow> (s, None)
     | Some (k, t) \<Rightarrow>
         let a = snd (st_remove cr i t);
             s = shard_remove cr k i s
         in (if a \<noteq> None then s\<lparr>shard_index := hm_remove i (shard_index s)\<rparr> else s, a))"

section \<open>Loops over the shards\<close>

text \<open>The first answer of the shards, in the order of their ids.\<close>

fun first_answer :: "(state_tree \<Rightarrow> 'a option) \<Rightarrow> (u64, state_tree) bmap \<Rightarrow> 'a option" where
  "first_answer f [] = None"
| "first_answer f ((k, t) # ts) = (case f t of Some x \<Rightarrow> Some x | None \<Rightarrow> first_answer f ts)"

definition ss_resolve_evm :: "sharded_state \<Rightarrow> addr20 \<Rightarrow> account_id option" where
  "ss_resolve_evm s x = first_answer (\<lambda>t. resolve_evm t x) (shards s)"

definition ss_resolve_evm_account_id :: "crypto \<Rightarrow> sharded_state \<Rightarrow> addr20 \<Rightarrow> account_id option" where
  "ss_resolve_evm_account_id cr s x = first_answer (\<lambda>t. resolve_evm_account_id cr t x) (shards s)"

definition ss_resolve_tron_account_id :: "crypto \<Rightarrow> sharded_state \<Rightarrow> addr20 \<Rightarrow> account_id option" where
  "ss_resolve_tron_account_id cr s x = first_answer (\<lambda>t. resolve_tron_account_id cr t x) (shards s)"

definition ss_resolve_solana_account_id :: "crypto \<Rightarrow> sharded_state \<Rightarrow> hash32 \<Rightarrow> account_id option" where
  "ss_resolve_solana_account_id cr s x = first_answer (\<lambda>t. resolve_solana_account_id cr t x) (shards s)"

definition ss_resolve_btc_account_id :: "crypto \<Rightarrow> sharded_state \<Rightarrow> bytes \<Rightarrow> account_id option" where
  "ss_resolve_btc_account_id cr s x = first_answer (\<lambda>t. resolve_btc_account_id cr t x) (shards s)"

definition ss_resolve_xid_account_id :: "crypto \<Rightarrow> sharded_state \<Rightarrow> hash32 \<Rightarrow> account_id option" where
  "ss_resolve_xid_account_id cr s x = first_answer (\<lambda>t. resolve_xid_account_id cr t x) (shards s)"

definition ss_resolve_xaddress_account_id :: "sharded_state \<Rightarrow> hash32 \<Rightarrow> account_id option" where
  "ss_resolve_xaddress_account_id s x = first_answer (\<lambda>t. resolve_xaddress t x) (shards s)"

definition ss_evm_address :: "crypto \<Rightarrow> sharded_state \<Rightarrow> account_id \<Rightarrow> addr20 option" where
  "ss_evm_address cr s i = first_answer (\<lambda>t. st_evm_address cr t i) (shards s)"

definition ss_tron_address :: "crypto \<Rightarrow> sharded_state \<Rightarrow> account_id \<Rightarrow> addr20 option" where
  "ss_tron_address cr s i = first_answer (\<lambda>t. st_tron_address cr t i) (shards s)"

definition ss_get_storage :: "sharded_state \<Rightarrow> account_id \<Rightarrow> hash32 \<Rightarrow> hash32" where
  "ss_get_storage s i slot =
    (case first_shard (\<lambda>t. st_contains t i) s of
       Some (k, t) \<Rightarrow> st_get_storage t i slot | None \<Rightarrow> 0)"

definition ss_set_storage :: "account_id \<Rightarrow> hash32 \<Rightarrow> hash32 \<Rightarrow> sharded_state \<Rightarrow> sharded_state" where
  "ss_set_storage i slot v s =
    (let k = (case first_shard (\<lambda>t. st_contains t i) s of Some (k, t) \<Rightarrow> k | None \<Rightarrow> 0)
     in s\<lparr>shards := bt_modify k (st_set_storage i slot v) (shards s)\<rparr>)"

definition ss_set_code :: "crypto \<Rightarrow> account_id \<Rightarrow> bytes \<Rightarrow> sharded_state \<Rightarrow> sharded_state \<times> hash32 option" where
  "ss_set_code cr i code s =
    (case first_shard (\<lambda>t. st_contains t i) s of
       None \<Rightarrow> (s, None)
     | Some (k, t) \<Rightarrow>
         (s\<lparr>shards := bt_modify k (\<lambda>t. fst (st_set_code cr i code t)) (shards s)\<rparr>,
          snd (st_set_code cr i code t)))"

definition ss_get_code :: "sharded_state \<Rightarrow> account_id \<Rightarrow> bytes option" where
  "ss_get_code s i = first_answer (\<lambda>t. st_get_code t i) (shards s)"

definition ss_is_stubbed :: "sharded_state \<Rightarrow> account_id \<Rightarrow> bool" where
  "ss_is_stubbed s i = list_ex (\<lambda>(k, t). is_stubbed t i) (shards s)"

definition ss_get_stub :: "sharded_state \<Rightarrow> account_id \<Rightarrow> account_stub option" where
  "ss_get_stub s i = first_answer (\<lambda>t. map_of (stubs t) i) (shards s)"

definition ss_insert_stub :: "account_stub \<Rightarrow> sharded_state \<Rightarrow> sharded_state" where
  "ss_insert_stub b s = s\<lparr>shards := bt_modify 0 (insert_stub b) (shards s)\<rparr>"

definition ss_expire_account ::
    "crypto \<Rightarrow> account_id \<Rightarrow> u64 \<Rightarrow> sharded_state \<Rightarrow> sharded_state \<times> account_stub option" where
  "ss_expire_account cr i slot s =
    (case first_shard (\<lambda>t. st_contains t i) s of
       None \<Rightarrow> (s, None)
     | Some (k, t) \<Rightarrow>
         let b = snd (expire_account cr i slot t);
             s = s\<lparr>shards := bt_modify k (\<lambda>t. fst (expire_account cr i slot t)) (shards s)\<rparr>
         in (if b \<noteq> None then s\<lparr>shard_index := hm_remove i (shard_index s)\<rparr> else s, b))"

definition ss_resurrect_account ::
    "crypto \<Rightarrow> resurrection_proof \<Rightarrow> u64 \<Rightarrow> sharded_state \<Rightarrow> resurrect_error + sharded_state" where
  "ss_resurrect_account cr p new_slot s =
    (let i = acc_id (proof_account p)
     in case first_shard (\<lambda>t. is_stubbed t i) s of
          None \<Rightarrow> Inl NotExpired
        | Some (k, t) \<Rightarrow>
            (case resurrect_account cr p new_slot t of
               Inl e \<Rightarrow> Inl e
             | Inr t' \<Rightarrow> Inr (s\<lparr>shards := bt_modify k (\<lambda>_. t') (shards s),
                               shard_index := hm_insert i k (shard_index s)\<rparr>)))"

definition ss_sweep_expired :: "crypto \<Rightarrow> u64 \<Rightarrow> u64 \<Rightarrow> sharded_state \<Rightarrow> sharded_state \<times> nat" where
  "ss_sweep_expired cr slot period s =
    (s\<lparr>shards := map (\<lambda>(k, t). (k, fst (sweep_expired cr slot period t))) (shards s)\<rparr>,
     sum_list (map (\<lambda>(k, t). snd (sweep_expired cr slot period t)) (shards s)))"

section \<open>Root, snapshot and rollback\<close>

text \<open>\<open>None\<close> where a panic of \<open>compute_root\<close> of a shard would surface, which never happens.\<close>

definition ss_compute_root :: "crypto \<Rightarrow> sharded_state \<Rightarrow> hash32 option" where
  "ss_compute_root cr s =
    (case shards s of
       [(k, t)] \<Rightarrow> compute_root cr t
     | _ \<Rightarrow>
        (let shard_roots = sort_key fst (map (\<lambda>(k, t). (k, compute_root cr t)) (shards s))
         in if list_all (\<lambda>(k, r). r \<noteq> None) shard_roots
            then Some (sha256 cr (ascii ''ACE-SHARDED-STATE-V1''
                   @ concat (map (\<lambda>(k, r). u64_le k @ bytes32 (the r)) shard_roots)))
            else None))"

record sharded_snapshot =
  snap_shards :: "(u64, state_tree) bmap"
  snap_index :: "(account_id, u64) hmap"

definition ss_snapshot :: "sharded_state \<Rightarrow> sharded_snapshot" where
  "ss_snapshot s = \<lparr>snap_shards = map (\<lambda>(k, t). (k, st_snapshot t)) (shards s),
                    snap_index = shard_index s\<rparr>"

definition restore_shard :: "(u64, state_tree) bmap \<Rightarrow> u64 \<times> state_tree \<Rightarrow> (u64, state_tree) bmap" where
  "restore_shard m = (\<lambda>(k, snap).
    case map_of m k of
      Some t \<Rightarrow> bt_modify k (\<lambda>t. st_rollback t snap) m
    | None \<Rightarrow> bt_insert k (st_rollback st_new snap) m)"

definition ss_rollback :: "sharded_snapshot \<Rightarrow> sharded_state \<Rightarrow> sharded_state" where
  "ss_rollback snap s =
    \<lparr>shards = foldl restore_shard
        (filter (\<lambda>(k, t). bt_contains k (snap_shards snap)) (shards s)) (snap_shards snap),
     shard_index = snap_index snap\<rparr>"

section \<open>Where accounts live\<close>

definition placed :: "sharded_state \<Rightarrow> account_id \<Rightarrow> u64 \<Rightarrow> bool" where
  "placed s i k = (case map_of (shard_index s) i of
     Some k' \<Rightarrow> k = k' | None \<Rightarrow> k = 0 \<or> k = deterministic_shard i)"

definition ss_wf :: "sharded_state \<Rightarrow> bool" where
  "ss_wf s \<longleftrightarrow> bt_wf (shards s) \<and> hm_wf (shard_index s) \<and> map_of (shards s) 0 \<noteq> None
    \<and> (\<forall>k t. map_of (shards s) k = Some t \<longrightarrow> st_wf t)
    \<and> (\<forall>k i. shard_get s k i \<noteq> None \<longrightarrow> placed s i k)
    \<and> (\<forall>i k k'. shard_get s k i \<noteq> None \<longrightarrow> shard_get s k' i \<noteq> None \<longrightarrow> k = k')"

lemma ss_wfD:
  assumes "ss_wf s"
  shows "bt_wf (shards s)" and "hm_wf (shard_index s)" and "map_of (shards s) 0 \<noteq> None"
    and "map_of (shards s) k = Some t \<Longrightarrow> st_wf t"
    and "shard_get s k i = Some a \<Longrightarrow> placed s i k"
    and "shard_get s k i = Some a \<Longrightarrow> shard_get s k' i = Some b \<Longrightarrow> k = k'"
  using assms unfolding ss_wf_def by (blast, blast, blast, blast, simp, metis option.distinct(1))

lemma ss_wfI:
  assumes "bt_wf (shards s)" and "hm_wf (shard_index s)" and "map_of (shards s) 0 \<noteq> None"
    and "\<And>k t. map_of (shards s) k = Some t \<Longrightarrow> st_wf t"
    and "\<And>k i a. shard_get s k i = Some a \<Longrightarrow> placed s i k"
    and "\<And>i k k' a b. shard_get s k i = Some a \<Longrightarrow> shard_get s k' i = Some b \<Longrightarrow> k = k'"
  shows "ss_wf s"
  using assms unfolding ss_wf_def by (metis option.exhaust)

lemma shard_get_id: "ss_wf s \<Longrightarrow> shard_get s k i = Some a \<Longrightarrow> acc_id a = i"
  using ss_wfD(4) st_get_id by (fastforce simp: shard_get_def bind_eq_Some_conv)

lemma ss_get_shard:
  assumes "ss_wf s"
  shows "ss_get s i = Some a \<longleftrightarrow> (\<exists>k. shard_get s k i = Some a)"
proof
  assume "\<exists>k. shard_get s k i = Some a"
  then obtain k where k: "shard_get s k i = Some a" ..
  have "k = target_shard s i \<or> k = 0"
    using ss_wfD(5) [OF assms k] by (auto simp: placed_def target_shard_def split: option.splits)
  then show "ss_get s i = Some a"
    using k ss_wfD(6) [OF assms k, of "target_shard s i"]
    by (auto simp: ss_get_def Let_def split: option.splits)
qed (auto simp: ss_get_def Let_def split: option.splits if_splits)

text \<open>Changing the tree of one shard in place.\<close>

lemma shard_get_modify:
  "shard_get (s\<lparr>shards := bt_modify k F (shards s)\<rparr>) k' j =
    (if k' = k then Option.bind (map_option F (map_of (shards s) k)) (\<lambda>t. st_get t j)
     else shard_get s k' j)"
  by (simp add: shard_get_def)

lemma shard_get_st_modify:
  "shard_get (s\<lparr>shards := bt_modify k (st_modify i f) (shards s)\<rparr>) k' j =
    (if k' = k \<and> j = i then map_option f (shard_get s k i) else shard_get s k' j)"
  by (cases "map_of (shards s) k") (auto simp: shard_get_modify shard_get_def st_get_modify)

lemma st_remove_effect:
  assumes "st_wf t"
  shows "st_wf (fst (st_remove cr i t)) \<and>
    st_get (fst (st_remove cr i t)) j = (if j = i then None else st_get t j) \<and>
    snd (st_remove cr i t) = st_get t i \<and>
    st_total g (fst (st_remove cr i t)) + opt_val g (st_get t i) = st_total g t"
proof (cases "st_get t i")
  case None
  then show ?thesis using assms by (simp add: st_remove_def st_get_def)
next
  case (Some a)
  then show ?thesis
    using assms bt.tot_del [OF st_wf_accounts [OF assms], of g i]
    by (simp add: st_remove_def st_get_def st_wf_drop_account st_total_def)
       (simp add: drop_account_def)
qed

lemma shard_get_remove:
  assumes "ss_wf s"
  shows "shard_get (shard_remove cr k i s) k' j =
    (if k' = k \<and> j = i then None else shard_get s k' j)"
proof (cases "map_of (shards s) k")
  case (Some t)
  then show ?thesis
    using st_remove_effect [OF ss_wfD(4) [OF assms Some], of cr i j]
    by (auto simp: shard_remove_def shard_get_modify shard_get_def)
qed (auto simp: shard_remove_def shard_get_modify shard_get_def)

lemma shard_get_update:
  assumes "ss_wf s"
  shows "shard_get (shard_update k (st_insert cr a) s) k' j =
    (if k' = k \<and> j = acc_id a then Some a else shard_get s k' j)"
proof (cases "map_of (shards s) k")
  case None
  have "st_get (st_insert cr a st_new) j = (if j = acc_id a then Some a else None)" for j
    by (simp add: st_get_insert) (simp add: st_get_def st_new_def)
  then show ?thesis
    using None by (simp add: shard_update_def shard_get_def map_of_bt_insert ss_wfD(1) [OF assms])
next
  case (Some t)
  then show ?thesis
    by (simp add: shard_update_def shard_get_def map_of_bt_insert ss_wfD(1) [OF assms]
        st_get_insert [OF ss_wfD(4) [OF assms Some]])
qed

section \<open>Totals over the shards\<close>

definition ss_total :: "(account \<Rightarrow> nat) \<Rightarrow> sharded_state \<Rightarrow> nat" where
  "ss_total g s = hm_total (st_total g) (shards s)"

lemma ss_total_modify:
  assumes "ss_wf s" and "map_of (shards s) k = Some t"
  shows "ss_total g (s\<lparr>shards := bt_modify k F (shards s)\<rparr>) + st_total g t
    = ss_total g s + st_total g (F t)"
  using hm_total_bt_modify [OF bt_wf_hm_wf [OF ss_wfD(1) [OF assms(1)]] assms(2)]
  by (simp add: ss_total_def)

lemma ss_total_remove:
  assumes "ss_wf s"
  shows "ss_total g (shard_remove cr k i s) + opt_val g (shard_get s k i) = ss_total g s"
proof (cases "map_of (shards s) k")
  case None
  then have "bt_modify k F (shards s) = shards s" for F
    by (simp add: bt_modify_absent map_of_eq_None_iff)
  then show ?thesis using None by (simp add: shard_remove_def shard_get_def)
next
  case (Some t)
  then show ?thesis
    using ss_total_modify [OF assms Some, of g "\<lambda>t. fst (st_remove cr i t)"]
      st_remove_effect [OF ss_wfD(4) [OF assms Some], of cr i undefined g]
    by (simp add: shard_remove_def shard_get_def)
qed

lemma ss_total_update:
  assumes "ss_wf s"
  shows "ss_total g (shard_update k (st_insert cr a) s) + opt_val g (shard_get s k (acc_id a))
    = ss_total g s + g a"
proof (cases "map_of (shards s) k")
  case None
  have "st_total g (st_insert cr a st_new) = g a"
    using st.stot_ins [OF st_wf_new, of g cr a] by (simp add: st_get_def st_new_def st_total_def)
  then show ?thesis
    using None hm_total_bt_insert [OF ss_wfD(1) [OF assms], of "st_total g" k "st_insert cr a st_new"]
    by (simp add: shard_update_def ss_total_def shard_get_def)
next
  case (Some t)
  then show ?thesis
    using hm_total_bt_insert [OF ss_wfD(1) [OF assms], of "st_total g" k "st_insert cr a t"]
      st.stot_ins [OF ss_wfD(4) [OF assms Some], of g cr a]
    by (simp add: shard_update_def ss_total_def shard_get_def)
qed

section \<open>The operations keep the invariant\<close>

lemma shard_index_frame [simp]:
  "shard_index (shard_remove cr k i s) = shard_index s"
  "shard_index (shard_update k F s) = shard_index s"
  by (simp_all add: shard_remove_def shard_update_def)

lemma ss_wf_remove:
  assumes "ss_wf s"
  shows "ss_wf (shard_remove cr k i s)"
proof (rule ss_wfI)
  fix k' t' assume "map_of (shards (shard_remove cr k i s)) k' = Some t'"
  then show "st_wf t'"
    using st_remove_effect [OF ss_wfD(4) [OF assms]] ss_wfD(4) [OF assms]
    by (auto simp: shard_remove_def split: if_splits)
next
  fix k' j a assume "shard_get (shard_remove cr k i s) k' j = Some a"
  then show "placed (shard_remove cr k i s) j k'"
    using ss_wfD(5) [OF assms] by (auto simp: shard_get_remove [OF assms] placed_def
        split: if_splits)
next
  fix j k1 k2 a b
  assume "shard_get (shard_remove cr k i s) k1 j = Some a" "shard_get (shard_remove cr k i s) k2 j = Some b"
  then show "k1 = k2"
    using ss_wfD(6) [OF assms] by (auto simp: shard_get_remove [OF assms] split: if_splits)
qed (use ss_wfD [OF assms] in \<open>auto simp: shard_remove_def\<close>)

lemma ss_wf_st_modify:
  assumes "ss_wf s" and f: "\<And>a. acc_id (f a) = acc_id a"
  shows "ss_wf (s\<lparr>shards := bt_modify k (st_modify i f) (shards s)\<rparr>)" (is "ss_wf ?s")
proof (rule ss_wfI)
  fix k' t' assume "map_of (shards ?s) k' = Some t'"
  then show "st_wf t'"
    using ss_wfD(4) [OF assms(1)] st_wf_modify [OF _ f] by (auto split: if_splits)
next
  fix k' j a assume "shard_get ?s k' j = Some a"
  then obtain b where "shard_get s k' j = Some b"
    by (auto simp: shard_get_st_modify split: if_splits)
  then show "placed ?s j k'"
    using ss_wfD(5) [OF assms(1)] by (simp add: placed_def)
next
  fix j k1 k2 a b assume "shard_get ?s k1 j = Some a" "shard_get ?s k2 j = Some b"
  then obtain a' b' where "shard_get s k1 j = Some a'" "shard_get s k2 j = Some b'"
    by (auto simp: shard_get_st_modify split: if_splits)
  then show "k1 = k2" by (rule ss_wfD(6) [OF assms(1)])
qed (use ss_wfD [OF assms(1)] in auto)

text \<open>Writing an account that lives nowhere else into a shard and indexing it there.\<close>

definition place_in :: "crypto \<Rightarrow> u64 \<Rightarrow> account \<Rightarrow> sharded_state \<Rightarrow> sharded_state" where
  "place_in cr k a s =
    (shard_update k (st_insert cr a) s)\<lparr>shard_index := hm_insert (acc_id a) k (shard_index s)\<rparr>"

lemma place_account:
  assumes wf: "ss_wf s" and alone: "\<And>k'. k' \<noteq> k \<Longrightarrow> shard_get s k' (acc_id a) = None"
  shows "ss_wf (place_in cr k a s)
    \<and> (\<forall>j. ss_get (place_in cr k a s) j = (if j = acc_id a then Some a else ss_get s j))
    \<and> ss_total g (place_in cr k a s) + opt_val g (ss_get s (acc_id a)) = ss_total g s + g a"
proof -
  define s' where s'_def: "s' = (shard_update k (st_insert cr a) s)
    \<lparr>shard_index := hm_insert (acc_id a) k (shard_index s)\<rparr>"
  have sg: "shard_get s' k' j = (if k' = k \<and> j = acc_id a then Some a else shard_get s k' j)" for k' j
    using shard_get_update [OF wf, of k cr a k' j] by (simp add: s'_def shard_get_def)
  have idx: "shard_index s' = hm_insert (acc_id a) k (shard_index s)"
    by (simp add: s'_def)
  have wf': "ss_wf s'"
  proof (rule ss_wfI)
    fix k' t' assume "map_of (shards s') k' = Some t'"
    then show "st_wf t'"
      using ss_wfD(4) [OF wf]
      by (auto simp: s'_def shard_update_def map_of_bt_insert [OF ss_wfD(1) [OF wf]]
          split: if_splits option.splits)
  next
    fix k' j b assume "shard_get s' k' j = Some b"
    then show "placed s' j k'"
      using ss_wfD(5) [OF wf, of k' j] alone
      by (cases "j = acc_id a") (auto simp: sg placed_def idx split: if_splits)
  next
    fix j k1 k2 b c assume "shard_get s' k1 j = Some b" "shard_get s' k2 j = Some c"
    then show "k1 = k2"
      using ss_wfD(6) [OF wf] alone by (cases "j = acc_id a") (auto simp: sg split: if_splits)
  qed (use ss_wfD [OF wf] in \<open>auto simp: s'_def shard_update_def map_of_bt_insert\<close>)
  have same: "ss_get s (acc_id a) = shard_get s k (acc_id a)"
  proof (cases "shard_get s k (acc_id a)")
    case None
    then have "shard_get s k' (acc_id a) = None" for k' using alone by (cases "k' = k") auto
    then show ?thesis
      using ss_get_shard [OF wf, of "acc_id a"] None by (metis option.distinct(1) option.exhaust)
  next
    case (Some b)
    then show ?thesis using ss_get_shard [OF wf] by auto
  qed
  have get: "ss_get s' j = (if j = acc_id a then Some a else ss_get s j)" for j
  proof (cases "j = acc_id a")
    case True
    then show ?thesis using ss_get_shard [OF wf', of j a] sg by auto
  next
    case False
    then have "ss_get s' j = Some b \<longleftrightarrow> ss_get s j = Some b" for b
      by (simp add: ss_get_shard wf wf' sg)
    with False show ?thesis by (metis option.exhaust)
  qed
  moreover have "ss_total g s' + opt_val g (ss_get s (acc_id a)) = ss_total g s + g a"
    using ss_total_update [OF wf, of g k cr a] by (simp add: same s'_def ss_total_def)
  ultimately show ?thesis using wf' by (simp add: place_in_def s'_def [symmetric])
qed

lemma ss_insert_effect:
  assumes wf: "ss_wf s"
  shows "ss_wf (ss_insert cr a s)
    \<and> (\<forall>j. ss_get (ss_insert cr a s) j = (if j = acc_id a then Some a else ss_get s j))
    \<and> ss_total g (ss_insert cr a s) + opt_val g (ss_get s (acc_id a)) = ss_total g s + g a"
proof -
  let ?i = "acc_id a"
  let ?k = "target_shard s ?i"
  show ?thesis
  proof (cases "map_of (shard_index s) ?i = None \<and> ?k \<noteq> 0 \<and> shard_get s 0 ?i \<noteq> None")
    case True
    let ?s = "shard_remove cr 0 ?i s"
    from True obtain b where b: "shard_get s 0 ?i = Some b" by auto
    have none: "shard_get ?s k' ?i = None" for k'
      using ss_wfD(6) [OF wf b, of k'] by (cases "shard_get s k' ?i") (auto simp: shard_get_remove [OF wf])
    have ins: "ss_insert cr a s = place_in cr ?k a ?s"
      using True by (simp add: ss_insert_def place_in_def Let_def shard_update_def shard_remove_def)
    have other: "ss_get ?s j = ss_get s j" if "j \<noteq> ?i" for j
    proof -
      have "ss_get ?s j = Some c \<longleftrightarrow> ss_get s j = Some c" for c
        using that by (simp add: ss_get_shard wf ss_wf_remove shard_get_remove)
      then show ?thesis by (metis option.exhaust)
    qed
    have "ss_get ?s ?i = None"
      using ss_get_shard [OF ss_wf_remove [OF wf], of cr 0 ?i ?i] none by (metis option.distinct(1) option.exhaust)
    moreover have "ss_get s ?i = Some b" using b ss_get_shard [OF wf] by auto
    ultimately show ?thesis
      using place_account [OF ss_wf_remove [OF wf, of cr 0 ?i] none, where k = ?k and cr = cr and g = g] other
        ss_total_remove [OF wf, of g cr 0 ?i] b
      by (simp add: ins)
  next
    case False
    have alone: "shard_get s k' ?i = None" if "k' \<noteq> ?k" for k'
    proof (rule ccontr)
      assume "shard_get s k' ?i \<noteq> None"
      then obtain b where b: "shard_get s k' ?i = Some b" by auto
      then show False
        using ss_wfD(5) [OF wf b] that False
        by (auto simp: placed_def target_shard_def split: option.splits)
    qed
    have "shard_remove cr 0 ?i s = s" if "?k \<noteq> 0"
    proof -
      have "shard_get s 0 ?i = None" using alone that by auto
      then have "fst (st_remove cr ?i t) = t" if "map_of (shards s) 0 = Some t" for t
        using that by (simp add: shard_get_def st_get_def st_remove_def)
      then have "bt_modify 0 (\<lambda>t. fst (st_remove cr ?i t)) (shards s) = shards s"
        using bt_wf_distinct [OF ss_wfD(1) [OF wf]]
        by (auto simp: bt_modify_def intro!: map_idI)
      then show ?thesis by (simp add: shard_remove_def)
    qed
    then have "ss_insert cr a s = place_in cr ?k a s"
      by (auto simp: ss_insert_def place_in_def Let_def shard_update_def target_shard_def split: option.splits)
    then show ?thesis
      using place_account [OF wf, of ?k a cr g] alone by simp
  qed
qed

lemma ss_modify_absent:
  "ss_get s i = None \<Longrightarrow> ss_modify i f s = s"
  by (simp add: ss_modify_def ss_get_def Let_def split: option.splits if_splits)

lemma ss_modify_present:
  assumes "ss_wf s" and "shard_get s k i = Some a"
  shows "ss_modify i f s = s\<lparr>shards := bt_modify k (st_modify i f) (shards s)\<rparr>"
proof (cases "k = target_shard s i")
  case True
  then show ?thesis using assms(2) by (simp add: ss_modify_def Let_def)
next
  case False
  then have "k = 0" "k \<noteq> target_shard s i"
    using ss_wfD(5) [OF assms] by (auto simp: placed_def target_shard_def split: option.splits)
  moreover have "shard_get s (target_shard s i) i = None"
    using ss_wfD(6) [OF assms, of "target_shard s i"] False
    by (cases "shard_get s (target_shard s i) i") auto
  ultimately show ?thesis using assms(2) by (simp add: ss_modify_def Let_def)
qed

lemma ss_modify_effect:
  assumes wf: "ss_wf s" and f: "\<And>a. acc_id (f a) = acc_id a"
  shows "ss_wf (ss_modify i f s)"
proof (cases "ss_get s i")
  case (Some a)
  then obtain k where "shard_get s k i = Some a" using ss_get_shard [OF wf] by blast
  then show ?thesis by (simp add: ss_modify_present [OF wf] ss_wf_st_modify [OF wf f])
qed (simp add: ss_modify_absent wf)

lemma ss_get_modify:
  assumes wf: "ss_wf s"
  shows "ss_get (ss_modify i f s) j = (if j = i then map_option f (ss_get s i) else ss_get s j)"
proof (cases "ss_get s i")
  case (Some a)
  then obtain k where k: "shard_get s k i = Some a" using ss_get_shard [OF wf] by blast
  let ?s = "s\<lparr>shards := bt_modify k (st_modify i f) (shards s)\<rparr>"
  have t: "target_shard ?s j = target_shard s j" by (simp add: target_shard_def)
  have u: "k = target_shard s i \<or> k = 0 \<and> shard_get s (target_shard s i) i = None"
    using ss_wfD(5) [OF wf k] ss_wfD(6) [OF wf k, of "target_shard s i"]
    by (cases "shard_get s (target_shard s i) i")
       (auto simp: placed_def target_shard_def split: option.splits)
  show ?thesis
    unfolding ss_modify_present [OF wf k] ss_get_def [of ?s] Let_def t shard_get_st_modify
    using k u Some by (auto simp: ss_get_def Let_def split: option.splits)
qed (simp add: ss_modify_absent)

lemma ss_total_ss_modify:
  assumes wf: "ss_wf s" and a: "ss_get s i = Some a"
  shows "ss_total g (ss_modify i f s) + g a = ss_total g s + g (f a)"
proof -
  obtain k where k: "shard_get s k i = Some a" using ss_get_shard [OF wf] a by blast
  then obtain t where t: "map_of (shards s) k = Some t" "st_get t i = Some a"
    by (auto simp: shard_get_def bind_eq_Some_conv)
  show ?thesis
    using ss_total_modify [OF wf t(1), of g "st_modify i f"]
      st.stot_mod [OF ss_wfD(4) [OF wf t(1)] t(2), of g f]
    by (simp add: ss_modify_present [OF wf k])
qed

interpretation ss: account_store ss_wf ss_get ss_modify "ss_insert cr" ss_total for cr
  by unfold_locales (simp_all add: ss_modify_effect ss_get_modify ss_total_ss_modify ss_insert_effect)

text \<open>
  C6: under the invariant the sharded state is one map from identities to accounts. An
  insertion makes exactly the inserted account visible under its identity, wherever it lived
  before, and an update in place changes exactly that account; both keep the invariant and
  change the total of any quantity over all shards by the difference at that account. So
  no operation ever leaves two copies of an account behind.
\<close>

theorem sharded_state_refines_map:
  assumes "ss_wf s"
  shows "ss_wf (ss_insert cr a s)
    \<and> ss_get (ss_insert cr a s) = (ss_get s)(acc_id a \<mapsto> a)
    \<and> ss_total g (ss_insert cr a s) + opt_val g (ss_get s (acc_id a)) = ss_total g s + g a
    \<and> ss_get (ss_modify i f s) = (ss_get s)(i := map_option f (ss_get s i))
    \<and> ((\<forall>b. acc_id (f b) = acc_id b) \<longrightarrow> ss_wf (ss_modify i f s))
    \<and> (\<forall>k k'. shard_get (ss_insert cr a s) k i \<noteq> None \<longrightarrow>
         shard_get (ss_insert cr a s) k' i \<noteq> None \<longrightarrow> k = k')"
proof -
  have "ss_get (ss_insert cr a s) = (ss_get s)(acc_id a \<mapsto> a)"
    using ss_insert_effect [OF assms, of cr a] by (auto simp: fun_eq_iff)
  moreover have "ss_get (ss_modify i f s) = (ss_get s)(i := map_option f (ss_get s i))"
    using ss_get_modify [OF assms, of i f] by (auto simp: fun_eq_iff)
  moreover have "ss_wf (ss_insert cr a s)"
    using ss_insert_effect [OF assms, of cr a] by blast
  moreover from this have "k = k'"
    if "shard_get (ss_insert cr a s) k i \<noteq> None" "shard_get (ss_insert cr a s) k' i \<noteq> None" for k k'
    using that unfolding ss_wf_def by blast
  ultimately show ?thesis
    using ss_insert_effect [OF assms, of cr a] ss_modify_effect [OF assms, of f i] by blast
qed

lemma ss_wf_from_tree:
  assumes "st_wf t"
  shows "ss_wf (from_state_tree t)"
  by (rule ss_wfI) (use assms in \<open>auto simp: from_state_tree_def shard_get_def placed_def
    bind_eq_Some_conv split: if_splits\<close>)

definition sample_sharded :: sharded_state where
  "sample_sharded = from_state_tree sample_tree"

lemma ss_wf_sample: "ss_wf sample_sharded"
  unfolding sample_sharded_def by (rule ss_wf_from_tree) (simp add: sample_tree_def)

theorem sharded_state_refines_map_witness:
  "ss_get (ss_insert sample_crypto_len (account_with_balance 5 12) sample_sharded)
    = (ss_get sample_sharded)(5 \<mapsto> account_with_balance 5 12)"
  using sharded_state_refines_map [OF ss_wf_sample, of sample_crypto_len "account_with_balance 5 12" bal 0 id]
  by (simp add: account_with_balance_def account_new_def)

section \<open>Two ways out of the invariant\<close>

lemma det_shard_example: "deterministic_shard (3 * 2 ^ 240) = 3"
  by code_simp

text \<open>
  \<open>insert_into_shard\<close> does not look for an unindexed copy in the default shard. An
  account that lives there without an index entry (as \<open>from_state_tree\<close> and direct insertions
  into the default shard leave it) and is inserted into another shard exists twice
  afterwards, with both balances counted in the total.
\<close>

theorem insert_into_shard_duplicates:
  assumes "ss_wf s" and "map_of (shard_index s) (acc_id a) = None"
    and "shard_get s 0 (acc_id a) = Some b" and "k \<noteq> 0"
  shows "shard_get (insert_into_shard cr k a s) 0 (acc_id a) = Some b
    \<and> shard_get (insert_into_shard cr k a s) k (acc_id a) = Some a
    \<and> ss_total bal (insert_into_shard cr k a s) = ss_total bal s + bal a"
proof -
  have "shard_get s k (acc_id a) = None"
    using ss_wfD(6) [OF assms(1,3), of k] assms(4) by (cases "shard_get s k (acc_id a)") auto
  moreover have "insert_into_shard cr k a s = place_in cr k a s"
    using assms(2) by (simp add: insert_into_shard_def place_in_def Let_def)
  moreover have "shard_get (place_in cr k a s) k' j
      = shard_get (shard_update k (st_insert cr a) s) k' j" for k' j
    by (simp add: place_in_def shard_get_def)
  moreover have "ss_total bal (place_in cr k a s) = ss_total bal (shard_update k (st_insert cr a) s)"
    by (simp add: place_in_def ss_total_def)
  ultimately show ?thesis
    using ss_total_update [OF assms(1), of bal k cr a] shard_get_update [OF assms(1), of k cr a] assms(3,4)
    by simp
qed

theorem insert_into_shard_duplicates_witness:
  "shard_get (insert_into_shard sample_crypto_len 4 (account_with_balance 5 70) sample_sharded) 0 5
      = Some (account_with_balance 5 70)
   \<and> ss_total bal (insert_into_shard sample_crypto_len 4 (account_with_balance 5 70) sample_sharded)
      = ss_total bal sample_sharded + 70"
proof -
  have id: "acc_id (account_with_balance 5 70) = 5" and b: "bal (account_with_balance 5 70) = 70"
    by (simp_all add: account_with_balance_def account_new_def bal_def)
  have "map_of (shard_index sample_sharded) 5 = None"
    and "shard_get sample_sharded 0 5 = Some (account_with_balance 5 70)"
    by code_simp+
  then show ?thesis
    using insert_into_shard_duplicates [OF ss_wf_sample, of "account_with_balance 5 70"
        "account_with_balance 5 70" 4 sample_crypto_len] id b
    by simp
qed

text \<open>
  Moving an unindexed account out of the default shard on its next insertion loses its
  contract storage. The insertion removes the copy in the default shard, the removal deletes
  the storage with it, and nothing carries the storage over: every slot reads zero afterwards.
\<close>

theorem migration_drops_storage:
  assumes wf: "ss_wf s" and "map_of (shard_index s) (acc_id a) = None"
    and "shard_get s 0 (acc_id a) = Some b" and k: "deterministic_shard (acc_id a) \<noteq> 0"
    and fresh: "map_of (shards s) (deterministic_shard (acc_id a)) = None"
  shows "ss_get_storage (ss_insert cr a s) (acc_id a) slot = 0"
proof -
  let ?i = "acc_id a"
  let ?s' = "ss_insert cr a s"
  have wf': "ss_wf ?s'" using ss_insert_effect [OF wf] by blast
  have t: "target_shard s ?i = deterministic_shard ?i" using assms(2) by (simp add: target_shard_def)
  have shs: "shards ?s' = bt_insert (deterministic_shard ?i) (st_insert cr a st_new)
      (bt_modify 0 (\<lambda>t. fst (st_remove cr ?i t)) (shards s))"
    using assms(2) k fresh
    by (simp add: ss_insert_def Let_def t shard_update_def shard_remove_def)
  have here: "t' = st_insert cr a st_new"
    if "first_shard (\<lambda>t. st_contains t ?i) ?s' = Some (k', t')" for k' t'
  proof -
    have "(k', t') \<in> set (shards ?s')" "st_contains t' ?i"
      using that by (auto simp: first_shard_def find_Some_iff in_set_conv_nth)
    then have m: "map_of (shards ?s') k' = Some t'"
      using bt_wf_distinct [OF ss_wfD(1) [OF wf']] by (simp add: map_of_eq_Some_iff)
    then have "shard_get ?s' k' ?i \<noteq> None"
      using \<open>st_contains t' ?i\<close> by (simp add: shard_get_def st_contains_def bt_contains_def st_get_def)
    then have "placed ?s' ?i k'" using wf' by (simp add: ss_wf_def)
    moreover have "map_of (shard_index ?s') ?i = Some (deterministic_shard ?i)"
      using assms(2) k by (simp add: ss_insert_def Let_def t)
    ultimately have "k' = deterministic_shard ?i" by (simp add: placed_def)
    then show ?thesis
      using m ss_wfD(1) [OF wf] by (simp add: shs map_of_bt_insert)
  qed
  have "st_get_storage (st_insert cr a st_new) ?i slot = 0"
    by (simp add: st_get_storage_def st_insert_def st_new_def Let_def)
  then show ?thesis
    using here by (auto simp: ss_get_storage_def split: option.splits)
qed

definition contract_tree :: state_tree where
  "contract_tree = st_set_storage (3 * 2 ^ 240) 1 9
     (st_insert sample_crypto_len (account_with_balance (3 * 2 ^ 240) 70) st_new)"

theorem migration_drops_storage_witness:
  "ss_get_storage (from_state_tree contract_tree) (3 * 2 ^ 240) 1 = 9 \<and>
   ss_get_storage (ss_insert sample_crypto_len (account_with_balance (3 * 2 ^ 240) 71)
     (from_state_tree contract_tree)) (3 * 2 ^ 240) 1 = 0"
proof -
  have wf: "ss_wf (from_state_tree contract_tree)"
    by (rule ss_wf_from_tree) (simp add: contract_tree_def)
  have id: "acc_id (account_with_balance i b) = i" for i b
    by (simp add: account_with_balance_def account_new_def)
  have "shard_get (from_state_tree contract_tree) 0 (3 * 2 ^ 240)
      = Some (account_with_balance (3 * 2 ^ 240) 70)"
    by (simp add: from_state_tree_def shard_get_def contract_tree_def st_get_def st_set_storage_def
        st_insert_def st_new_def Let_def id)
  moreover have "ss_get_storage (from_state_tree contract_tree) (3 * 2 ^ 240) 1 = 9"
    by (simp add: from_state_tree_def ss_get_storage_def first_shard_def contract_tree_def
        st_set_storage_def st_insert_def st_new_def Let_def id st_contains_def bt_contains_def
        st_get_storage_def)
  ultimately show ?thesis
    using migration_drops_storage [OF wf, of "account_with_balance (3 * 2 ^ 240) 71" _ sample_crypto_len 1]
      det_shard_example
    by (simp add: id from_state_tree_def)
qed

section \<open>Rollback and sweep\<close>

lemma restore_shard_effect:
  assumes "bt_wf m"
  shows "bt_wf (restore_shard m p)
    \<and> map_of (restore_shard m p) k = (if k = fst p then Some (snd p) else map_of m k)"
  using assms
  by (cases p) (auto simp: restore_shard_def st_rollback_def map_of_bt_insert split: option.splits)

lemma foldl_restore_shard:
  assumes "bt_wf m" and "bt_wf snaps"
  shows "bt_wf (foldl restore_shard m snaps) \<and> map_of (foldl restore_shard m snaps) k
    = (case map_of snaps k of Some t \<Rightarrow> Some t | None \<Rightarrow> map_of m k)"
  using assms
proof (induction snaps arbitrary: m)
  case (Cons p snaps)
  have "map_of snaps (fst p) = None"
    using Cons.prems(2) by (cases p) (force simp: map_of_eq_None_iff)
  then show ?case
    using Cons.IH [of "restore_shard m p"] Cons.prems restore_shard_effect [OF Cons.prems(1), of p]
    by (cases p) (auto split: option.splits)
qed simp

text \<open>
  C29: rolling back restores the snapshot exactly, whatever happened to the state since it
  was taken: shards created in between are dropped, shards that disappeared come back, and
  every shard and the index are what they were.
\<close>

theorem rollback_restores_snapshot:
  assumes "bt_wf (shards s)" and "bt_wf (shards s')"
  shows "ss_rollback (ss_snapshot s) s' = s"
proof -
  let ?snaps = "snap_shards (ss_snapshot s)"
  let ?kept = "filter (\<lambda>(k, t). bt_contains k ?snaps) (shards s')"
  have snaps: "?snaps = shards s" by (simp add: ss_snapshot_def st_snapshot_def)
  have none: "map_of ?kept k = None" if "map_of (shards s) k = None" for k
    using that by (auto simp: snaps bt_contains_def map_of_eq_None_iff image_iff)
  have "foldl restore_shard ?kept ?snaps = shards s"
  proof (rule bt_ext)
    show "map_of (foldl restore_shard ?kept ?snaps) = map_of (shards s)"
      using foldl_restore_shard [of ?kept "shards s"] assms none
      by (auto simp: fun_eq_iff snaps split: option.splits)
  qed (use foldl_restore_shard [of ?kept "shards s"] assms snaps in auto)
  then show ?thesis
    by (simp add: ss_rollback_def) (simp add: ss_snapshot_def)
qed

theorem rollback_restores_snapshot_witness:
  "ss_rollback (ss_snapshot sample_sharded)
     (insert_into_shard sample_crypto_len 9 (account_with_balance 8 1) ss_new) = sample_sharded"
proof -
  have "bt_wf (shards sample_sharded)"
    using ss_wfD(1) [OF ss_wf_sample] .
  moreover have "bt_wf (shards (insert_into_shard sample_crypto_len 9 (account_with_balance 8 1) ss_new))"
    by (simp add: insert_into_shard_def ss_new_def shard_update_def Let_def)
  ultimately show ?thesis by (rule rollback_restores_snapshot)
qed

lemma merkle_root_defined: "xs \<noteq> [] \<Longrightarrow> merkle_root cr xs \<noteq> None"
proof (induction cr xs rule: merkle_root.induct)
  case (1 cr xs)
  have "merkle_level cr xs \<noteq> []" using 1 length_merkle_level [of cr xs] by (cases xs) auto
  with 1 show ?case by (auto simp: merkle_root.simps [of cr xs] split: list.splits)
qed

lemma foldl_bt_insert_ne:
  "m \<noteq> [] \<or> xs \<noteq> [] \<Longrightarrow> foldl (\<lambda>acc (k, v). bt_insert k (f k v) acc) m xs \<noteq> []"
proof (induction xs arbitrary: m)
  case (Cons p xs)
  have "bt_insert k v m \<noteq> []" for k v
    using bt_keys_insert [of k v m] by auto
  then show ?case using Cons.IH by (cases p) simp
qed simp

lemma account_leaves_ne: "accounts t \<noteq> [] \<or> stubs t \<noteq> [] \<Longrightarrow> account_leaves cr t \<noteq> []"
  unfolding account_leaves_def
  using foldl_bt_insert_ne [of "[]" "stubs t" "\<lambda>_. stub_hash"]
    foldl_bt_insert_ne [of "foldl (\<lambda>m (i, b). bt_insert i (stub_hash b) m) [] (stubs t)"
      "accounts t" "account_leaf cr t"]
  by auto

lemma root_defined: "compute_root cr t \<noteq> None"
proof (cases "accounts t = [] \<and> stubs t = [] \<and> hfi_intents t = [] \<and> hfi_recipients t = []
    \<and> zk_replay_registry t = []")
  case False
  then have "root_hashes cr t \<noteq> []"
    using account_leaves_ne [of t cr] by (auto simp: root_hashes_def)
  then show ?thesis
    using False merkle_root_defined by (simp add: compute_root_def)
qed (simp add: compute_root_def)

text \<open>
  The state root always exists. The access to the first hash after the Merkle loop and
  the \<open>expect\<close> on the first shard never fail, for any content of the shards.
\<close>

theorem sharded_root_defined: "ss_compute_root cr s \<noteq> None"
proof -
  have "list_all (\<lambda>(k, r). r \<noteq> None)
      (sort_key fst (map (\<lambda>(k, t). (k, compute_root cr t)) (shards s)))"
    using root_defined by (auto simp: list_all_iff)
  then show ?thesis
    using root_defined by (auto simp: ss_compute_root_def Let_def split: list.splits)
qed

end
