(* ===== verification/Rewards.thy ===== *)
theory Rewards
  imports Ace_Prelude
begin

text \<open>
  The reward engine, after \<open>ace-consensus/src/rewards.rs\<close>: the epoch tracker that counts
  blocks and collects fees, the issuance schedule with its warm-up and halvings, and the
  distribution of an epoch's pool over the validators in an equal, a performance-weighted
  and an age-weighted part, each with its rounding dust handed out by a rotating offset.

  Amounts are \<open>u64\<close> words with the saturating operations of the source; a \<open>usize\<close> is a
  natural number, except the rotation offset, which is a word because one addition to it may
  wrap. The slice access \<open>weights[index]\<close> of the source panics out of range, so the
  weighted distribution returns an option; \<open>distribute\<close> is shown never to meet that case.
\<close>

section \<open>Constants\<close>

definition BLOCKS_PER_EPOCH :: u64 where "BLOCKS_PER_EPOCH = 216000"
definition INITIAL_DAILY_REWARD :: u64 where "INITIAL_DAILY_REWARD = 100000 * 1000000000"
definition WARMUP_TARGET_VALIDATORS :: u64 where "WARMUP_TARGET_VALIDATORS = 1000"
definition TARGET_DAILY_REWARD_PER_VALIDATOR :: u64 where
  "TARGET_DAILY_REWARD_PER_VALIDATOR = INITIAL_DAILY_REWARD div WARMUP_TARGET_VALIDATORS"
definition TX_FEE :: u64 where "TX_FEE = 20000"
definition HALVING_INTERVAL_EPOCHS :: u64 where "HALVING_INTERVAL_EPOCHS = 1461"
definition MAX_SUPPLY :: u64 where "MAX_SUPPLY = 1000000000 * 1000000000"
definition BASE_REWARD_BPS :: u64 where "BASE_REWARD_BPS = 7500"
definition PERFORMANCE_REWARD_BPS :: u64 where "PERFORMANCE_REWARD_BPS = 1700"
definition BPS_DENOMINATOR :: u64 where "BPS_DENOMINATOR = 10000"
definition PERF_WEIGHT_FLOOR_BPS :: u16 where "PERF_WEIGHT_FLOOR_BPS = 8500"
definition PERF_WEIGHT_CEIL_BPS :: u16 where "PERF_WEIGHT_CEIL_BPS = 11500"
definition PERF_EMA_PREV_BPS :: u64 where "PERF_EMA_PREV_BPS = 9000"
definition PERF_EMA_CUR_BPS :: u64 where "PERF_EMA_CUR_BPS = 1000"
definition AGE_CAP_MONTHS :: u64 where "AGE_CAP_MONTHS = 60"

section \<open>The epoch tracker\<close>

record epoch_tracker =
  current_epoch :: u64
  accumulated_fees :: u64
  total_minted :: u64
  blocks_in_epoch :: u64
  epoch_tx_count :: u64
  last_epoch_tx_count :: u64

definition tracker_new :: epoch_tracker where
  "tracker_new = \<lparr>current_epoch = 0, accumulated_fees = 0, total_minted = 0,
     blocks_in_epoch = 0, epoch_tx_count = 0, last_epoch_tx_count = 0\<rparr>"

definition tracker_with_state :: "u64 \<Rightarrow> u64 \<Rightarrow> epoch_tracker" where
  "tracker_with_state epoch minted = \<lparr>current_epoch = epoch, accumulated_fees = 0,
     total_minted = minted, blocks_in_epoch = 0, epoch_tx_count = 0, last_epoch_tx_count = 0\<rparr>"

definition tracker_with_checkpoint :: "u64 \<Rightarrow> u64 \<Rightarrow> u64 \<Rightarrow> u64 \<Rightarrow> epoch_tracker" where
  "tracker_with_checkpoint epoch minted fees blocks = \<lparr>current_epoch = epoch,
     accumulated_fees = fees, total_minted = minted, blocks_in_epoch = blocks,
     epoch_tx_count = 0, last_epoch_tx_count = 0\<rparr>"

definition tracker_on_block :: "epoch_tracker \<Rightarrow> u64 \<Rightarrow> epoch_tracker \<times> u64 option" where
  "tracker_on_block t tx_count =
    (let t = t\<lparr>accumulated_fees :=
                 saturating_add (accumulated_fees t) (saturating_mul tx_count TX_FEE),
               epoch_tx_count := saturating_add (epoch_tx_count t) tx_count,
               blocks_in_epoch := blocks_in_epoch t + 1\<rparr>
     in if BLOCKS_PER_EPOCH \<le> blocks_in_epoch t
        then (t\<lparr>last_epoch_tx_count := epoch_tx_count t,
                current_epoch := current_epoch t + 1,
                blocks_in_epoch := 0,
                epoch_tx_count := 0\<rparr>, Some (current_epoch t))
        else (t, None))"

definition take_fees :: "epoch_tracker \<Rightarrow> epoch_tracker \<times> u64" where
  "take_fees t = (t\<lparr>accumulated_fees := 0\<rparr>, accumulated_fees t)"

definition record_mint :: "epoch_tracker \<Rightarrow> u64 \<Rightarrow> epoch_tracker" where
  "record_mint t amount = t\<lparr>total_minted := saturating_add (total_minted t) amount\<rparr>"

section \<open>Issuance and distribution\<close>

record reward_profile =
  rp_validator :: account_id
  perf_weight_bps :: u16
  age_weight_bps :: u16

definition epoch_reward_pool :: "u64 \<Rightarrow> u64 \<Rightarrow> u64 \<Rightarrow> u64" where
  "epoch_reward_pool epoch minted active =
    (if active = 0 then 0
     else let halvings = epoch div HALVING_INTERVAL_EPOCHS
       in if 20 \<le> halvings then 0
          else let warmup_validators = min active WARMUP_TARGET_VALIDATORS;
                   warmup_pool = saturating_mul warmup_validators TARGET_DAILY_REWARD_PER_VALIDATOR;
                   pool = drop_bit (unat halvings) warmup_pool;
                   remaining = saturating_sub MAX_SUPPLY minted
               in min pool remaining)"

definition gets_extra :: "nat \<Rightarrow> u64 \<Rightarrow> nat \<Rightarrow> nat \<Rightarrow> bool" where
  "gets_extra cnt rotation_offset remainder i =
    ((i + cnt - unat rotation_offset mod cnt) mod cnt < remainder)"

definition distribute_equal :: "u64 \<Rightarrow> u64 list \<Rightarrow> u64 \<Rightarrow> u64 list" where
  "distribute_equal amount outputs rotation_offset =
    (if outputs = [] \<or> amount = 0 then outputs
     else let cnt = length outputs;
              per = amount div of_nat cnt;
              remainder = unat (amount mod of_nat cnt)
       in map (\<lambda>(i, out). saturating_add out
                 (per + of_bool (gets_extra cnt rotation_offset remainder i)))
            (enumerate 0 outputs))"

definition weighted_share :: "u64 \<Rightarrow> u64 \<Rightarrow> u64 \<Rightarrow> u64" where
  "weighted_share amount total_weight w =
    ucast (saturating_mul (ucast amount :: u128) (ucast w) div (ucast total_weight))"

fun weighted_pass :: "u64 \<Rightarrow> u64 \<Rightarrow> u64 list \<Rightarrow> u64 list \<Rightarrow> u64 \<Rightarrow> (u64 list \<times> u64) option" where
  "weighted_pass amount total_weight ws [] distributed = Some ([], distributed)"
| "weighted_pass amount total_weight [] (out # outs) distributed = None"
| "weighted_pass amount total_weight (w # ws) (out # outs) distributed =
    (let share = weighted_share amount total_weight w
     in case weighted_pass amount total_weight ws outs (saturating_add distributed share) of
          None \<Rightarrow> None
        | Some (outs', d) \<Rightarrow> Some (saturating_add out share # outs', d))"

definition hand_out_dust :: "u64 \<Rightarrow> u64 list \<Rightarrow> nat \<Rightarrow> u64 list" where
  "hand_out_dust rotation_offset outputs n =
    foldl (\<lambda>outs j. let idx = unat (rotation_offset + of_nat j) mod length outs
                    in outs[idx := saturating_add (outs ! idx) 1]) outputs [0..<n]"

definition distribute_weighted ::
    "u64 \<Rightarrow> u64 list \<Rightarrow> u64 list \<Rightarrow> u64 \<Rightarrow> u64 list option" where
  "distribute_weighted amount weights outputs rotation_offset =
    (if outputs = [] \<or> amount = 0 then Some outputs
     else let total_weight = foldl saturating_add 0 weights
       in if total_weight = 0 then Some (distribute_equal amount outputs rotation_offset)
          else case weighted_pass amount total_weight weights outputs 0 of
            None \<Rightarrow> None
          | Some (outs, distributed) \<Rightarrow>
              let cnt = length outs;
                  remainder = unat (saturating_sub amount distributed)
              in Some (hand_out_dust rotation_offset outs (min remainder cnt)))"

definition perf_weight :: "reward_profile \<Rightarrow> u64" where
  "perf_weight p = ucast (max PERF_WEIGHT_FLOOR_BPS (min PERF_WEIGHT_CEIL_BPS (perf_weight_bps p)))"

definition distribute :: "u64 \<Rightarrow> u64 \<Rightarrow> u64 \<Rightarrow> reward_profile list \<Rightarrow> (account_id \<times> u64) list option" where
  "distribute epoch minted fees profiles =
    (if profiles = [] then Some []
     else let block_reward = epoch_reward_pool epoch minted (of_nat (length profiles));
              total_reward = saturating_add block_reward fees
       in if total_reward = 0 then Some []
          else let base_pool = saturating_mul total_reward BASE_REWARD_BPS div BPS_DENOMINATOR;
                   perf_pool = saturating_mul total_reward PERFORMANCE_REWARD_BPS div BPS_DENOMINATOR;
                   age_pool = saturating_sub (saturating_sub total_reward base_pool) perf_pool;
                   rotation = epoch;
                   rewards = distribute_equal base_pool (replicate (length profiles) 0) rotation
               in case distribute_weighted perf_pool (map perf_weight profiles) rewards rotation of
                    None \<Rightarrow> None
                  | Some rewards \<Rightarrow>
                    (case distribute_weighted age_pool
                            (map (\<lambda>p. ucast (age_weight_bps p)) profiles) rewards rotation of
                       None \<Rightarrow> None
                     | Some rewards \<Rightarrow>
                         Some (filter (\<lambda>(v, amount). 0 < amount)
                                (zip (map rp_validator profiles) rewards))))"

section \<open>Issuance\<close>

lemmas reward_constants = BLOCKS_PER_EPOCH_def INITIAL_DAILY_REWARD_def
  WARMUP_TARGET_VALIDATORS_def TARGET_DAILY_REWARD_PER_VALIDATOR_def TX_FEE_def
  HALVING_INTERVAL_EPOCHS_def MAX_SUPPLY_def BASE_REWARD_BPS_def PERFORMANCE_REWARD_BPS_def
  BPS_DENOMINATOR_def PERF_WEIGHT_FLOOR_BPS_def PERF_WEIGHT_CEIL_BPS_def

lemma pool_le_remaining:
  "unat (epoch_reward_pool epoch minted active) \<le> unat MAX_SUPPLY - unat minted"
  by (simp add: epoch_reward_pool_def Let_def unat_min unat_saturating_sub)

lemma warmup_pool_le:
  "unat (saturating_mul (min a WARMUP_TARGET_VALIDATORS) TARGET_DAILY_REWARD_PER_VALIDATOR)
     \<le> unat INITIAL_DAILY_REWARD"
proof -
  have "unat (min a WARMUP_TARGET_VALIDATORS) \<le> 1000"
    by (simp add: unat_min WARMUP_TARGET_VALIDATORS_def)
  then show ?thesis
    by (simp add: unat_saturating_mul reward_constants)
qed

lemma pool_le_schedule:
  "unat (epoch_reward_pool epoch minted active)
     \<le> unat INITIAL_DAILY_REWARD div 2 ^ (unat epoch div 1461)"
proof -
  have h: "unat (epoch div HALVING_INTERVAL_EPOCHS) = unat epoch div 1461"
    by (simp add: HALVING_INTERVAL_EPOCHS_def unat_div)
  have "unat (drop_bit (unat (epoch div HALVING_INTERVAL_EPOCHS))
          (saturating_mul (min active WARMUP_TARGET_VALIDATORS) TARGET_DAILY_REWARD_PER_VALIDATOR))
        \<le> unat INITIAL_DAILY_REWARD div 2 ^ (unat epoch div 1461)"
    unfolding h unat_drop_bit using warmup_pool_le by (rule div_le_mono)
  then show ?thesis
    by (simp add: epoch_reward_pool_def Let_def unat_min min.coboundedI1)
qed

lemma record_mint_bounded:
  assumes "unat (total_minted t) \<le> unat MAX_SUPPLY"
    and "amount = epoch_reward_pool epoch (total_minted t) active"
  shows "unat (total_minted (record_mint t amount)) = unat (total_minted t) + unat amount
    \<and> unat (total_minted (record_mint t amount)) \<le> unat MAX_SUPPLY"
proof -
  have "unat (total_minted t) + unat amount \<le> unat MAX_SUPPLY"
    using pool_le_remaining [of epoch "total_minted t" active] assms by simp
  moreover have "unat MAX_SUPPLY \<le> 2 ^ 64 - 1"
    by (simp add: MAX_SUPPLY_def)
  ultimately show ?thesis
    by (simp add: record_mint_def unat_saturating_add)
qed

section \<open>Sums of credited outputs\<close>

lemma nat_sum_map2_credit:
  fixes xs ys :: "'a::len word list"
  assumes "length xs = length ys" and "nat_sum xs + nat_sum ys < 2 ^ LENGTH('a)"
  shows "nat_sum (map2 saturating_add xs ys) = nat_sum xs + nat_sum ys"
  using assms
proof (induction xs ys rule: list_induct2)
  case Nil
  then show ?case by simp
next
  case (Cons x xs y ys)
  then have "unat x + unat y < 2 ^ LENGTH('a)" by simp
  then have "unat (saturating_add x y) = unat x + unat y"
    by (simp add: saturating_add_def unat_add_no_wrap)
  with Cons show ?case by simp
qed

lemma nat_sum_update_credit:
  fixes xs :: "'a::len word list"
  assumes "i < length xs" and "nat_sum xs + unat d < 2 ^ LENGTH('a)"
  shows "nat_sum (xs[i := saturating_add (xs ! i) d]) = nat_sum xs + unat d"
proof -
  have split: "nat_sum xs = unat (xs ! i) + nat_sum (take i xs @ drop (Suc i) xs)"
    using assms(1) by (subst id_take_nth_drop [OF assms(1)]) simp
  then have "unat (xs ! i) + unat d < 2 ^ LENGTH('a)"
    using assms(2) by simp
  then have "unat (saturating_add (xs ! i) d) = unat (xs ! i) + unat d"
    by (simp add: saturating_add_def unat_add_no_wrap)
  then show ?thesis
    using split assms(1) by (simp add: upd_conv_take_nth_drop)
qed

lemma nat_sum_replicate_0 [simp]: "nat_sum (replicate n (0 :: 'a::len word)) = 0"
  by (induction n) auto

lemma unat_foldl_saturating:
  "unat (foldl saturating_add (a :: 'a::len word) ws)
     = min (unat a + nat_sum ws) (2 ^ LENGTH('a) - 1)"
proof (induction ws arbitrary: a)
  case Nil
  have "unat a \<le> 2 ^ LENGTH('a) - 1"
    using unat_lt [of a] by linarith
  then show ?case by (simp add: min_absorb1)
next
  case (Cons w ws)
  then show ?case by (simp add: unat_saturating_add)
qed

text \<open>Exactly \<open>m\<close> of the \<open>n\<close> positions are shifted below \<open>m\<close>.\<close>

lemma card_shifted_below:
  fixes n k m :: nat
  assumes "0 < n" and "m \<le> n"
  shows "card {i. i < n \<and> (i + k) mod n < m} = m"
proof -
  let ?f = "\<lambda>i. (i + k) mod n"
  have inj: "inj_on ?f {..<n}"
  proof (rule inj_onI)
    fix x y assume xy: "x \<in> {..<n}" "y \<in> {..<n}" "?f x = ?f y"
    then have "int ((x + k) mod n) = int ((y + k) mod n)" by simp
    then have "int n dvd int (x + k) - int (y + k)"
      by (simp only: zmod_int mod_eq_dvd_iff)
    then have "int n dvd int x - int y" by simp
    then have "int (x mod n) = int (y mod n)"
      by (simp only: zmod_int mod_eq_dvd_iff)
    then show "x = y" using xy(1,2) by simp
  qed
  have onto: "?f ` {..<n} = {..<n}"
    by (rule endo_inj_surj) (use assms inj in auto)
  have "?f ` {i. i < n \<and> ?f i < m} = {y \<in> ?f ` {..<n}. y < m}"
    by blast
  also have "\<dots> = {..<m}"
    unfolding onto using assms(2) by auto
  finally have "?f ` {i. i < n \<and> ?f i < m} = {..<m}" .
  moreover have "inj_on ?f {i. i < n \<and> ?f i < m}"
    by (rule inj_on_subset [OF inj]) auto
  ultimately show ?thesis
    using card_image by fastforce
qed

section \<open>The equal distribution\<close>

lemma sum_extra:
  assumes "0 < n" and "m \<le> n"
  shows "(\<Sum>i<n. of_bool (gets_extra n r m i) :: nat) = m"
proof -
  define k where "k = n - unat r mod n"
  have "gets_extra n r m i \<longleftrightarrow> (i + k) mod n < m" for i
    using assms(1) mod_less_divisor [of n "unat r"] by (simp add: gets_extra_def k_def)
  then have "(\<Sum>i<n. of_bool (gets_extra n r m i) :: nat)
      = card {i. i < n \<and> (i + k) mod n < m}"
    by (simp add: of_bool_def sum.If_cases lessThan_def Collect_conj_eq)
  then show ?thesis
    by (simp add: card_shifted_below assms)
qed

definition equal_shares :: "u64 \<Rightarrow> nat \<Rightarrow> u64 \<Rightarrow> u64 list" where
  "equal_shares amount n r = map (\<lambda>i. amount div of_nat n
     + of_bool (gets_extra n r (unat (amount mod of_nat n)) i)) [0..<n]"

lemma unat_equal_share:
  assumes "0 < n" and "n < 2 ^ 64"
  shows "unat (amount div of_nat n + of_bool b :: u64) = unat amount div n + of_bool b
     \<or> (n = 1 \<and> b)"
proof -
  have n: "unat (of_nat n :: u64) = n"
    using assms by (simp add: unat_of_nat)
  show ?thesis
  proof (cases "n = 1")
    case True
    then show ?thesis by (cases b) simp_all
  next
    case False
    then have "unat amount div n \<le> unat amount div 2"
      using assms(1) by (intro div_le_mono2) auto
    then have "unat (amount div of_nat n :: u64) + unat (of_bool b :: u64) < 2 ^ 64"
      using unat_lt [of amount] by (cases b) (simp_all add: unat_div n)
    then show ?thesis
      by (subst unat_add_no_wrap) (simp_all add: unat_div n)
  qed
qed

lemma nat_sum_equal_shares:
  assumes "0 < n" and "n < 2 ^ 64"
  shows "nat_sum (equal_shares amount n r) = unat amount"
proof -
  have n: "unat (of_nat n :: u64) = n"
    using assms by (simp add: unat_of_nat)
  have m: "unat (amount mod of_nat n) = unat amount mod n"
    by (simp add: unat_mod n)
  have "unat (amount div of_nat n + of_bool (gets_extra n r (unat amount mod n) i) :: u64)
      = unat amount div n + of_bool (gets_extra n r (unat amount mod n) i)" for i
    using unat_equal_share [OF assms, of amount "gets_extra n r (unat amount mod n) i"]
    by (auto simp: gets_extra_def)
  then have "nat_sum (equal_shares amount n r)
      = (\<Sum>i<n. unat amount div n + of_bool (gets_extra n r (unat amount mod n) i))"
    unfolding nat_sum_def equal_shares_def m
    by (simp add: comp_def interv_sum_list_conv_sum_set_nat atLeast0LessThan)
  also have "\<dots> = n * (unat amount div n) + unat amount mod n"
    using assms(1) by (simp only: sum.distrib sum_extra mod_le_divisor) simp
  finally show ?thesis by simp
qed

lemma distribute_equal_map2:
  assumes "outputs \<noteq> []" and "amount \<noteq> 0"
  shows "distribute_equal amount outputs r
    = map2 saturating_add outputs (equal_shares amount (length outputs) r)"
  using assms
  by (intro nth_equalityI)
     (simp_all add: distribute_equal_def Let_def nth_enumerate_eq equal_shares_def)

lemma length_distribute_equal [simp]: "length (distribute_equal a os r) = length os"
  by (simp add: distribute_equal_def Let_def)

lemma nat_sum_distribute_equal:
  assumes "os \<noteq> []" and "length os < 2 ^ 64" and "nat_sum os + unat a < 2 ^ 64"
  shows "nat_sum (distribute_equal a os r) = nat_sum os + unat a"
proof (cases "a = 0")
  case True
  then show ?thesis by (simp add: distribute_equal_def)
next
  case False
  have "length (equal_shares a (length os) r) = length os"
    by (simp add: equal_shares_def)
  then show ?thesis
    using assms False nat_sum_map2_credit [of os "equal_shares a (length os) r"]
    by (simp add: distribute_equal_map2 nat_sum_equal_shares)
qed

section \<open>The weighted distribution\<close>

lemma unat_weighted_share:
  assumes "unat w \<le> unat t" and "0 < unat t"
  shows "unat (weighted_share a t w) = unat a * unat w div unat t"
proof -
  have u: "unat (ucast x :: u128) = unat x" for x :: u64
    by (simp add: unat_ucast_up)
  have "unat a * unat w \<le> (2 ^ 64 - 1) * (2 ^ 64 - 1)"
    using unat_lt [of a] unat_lt [of w] by (intro mult_mono) simp_all
  then have "unat (saturating_mul (ucast a :: u128) (ucast w)) = unat a * unat w"
    by (simp add: unat_saturating_mul u)
  moreover have "unat a * unat w div unat t \<le> unat a"
    using assms by (metis div_le_mono div_mult_self_is_m mult_le_mono2)
  then have "unat a * unat w div unat t < 2 ^ 64"
    using unat_lt [of a] by simp
  ultimately show ?thesis
    by (simp add: weighted_share_def unat_div u unsigned_ucast_eq take_bit_nat_eq_self)
qed

definition weighted_shares :: "u64 \<Rightarrow> u64 \<Rightarrow> u64 list \<Rightarrow> u64 list" where
  "weighted_shares a t ws = map (weighted_share a t) ws"

lemma weighted_pass_map2:
  "length ws = length os \<Longrightarrow> weighted_pass a t ws os d
    = Some (map2 saturating_add os (weighted_shares a t ws),
            foldl saturating_add d (weighted_shares a t ws))"
  by (induction ws os arbitrary: d rule: list_induct2)
     (simp_all add: weighted_shares_def Let_def)

lemma elem_le_nat_sum: "x \<in> set xs \<Longrightarrow> unat x \<le> nat_sum xs"
  by (induction xs) auto

lemma sum_floor_bounds:
  fixes a t :: nat
  assumes "0 < t"
  shows "t * sum_list (map (\<lambda>w. a * w div t) ws) \<le> a * sum_list ws
    \<and> a * sum_list ws \<le> t * sum_list (map (\<lambda>w. a * w div t) ws) + t * length ws"
proof (induction ws)
  case Nil
  then show ?case by simp
next
  case (Cons w ws)
  have "a * w = t * (a * w div t) + a * w mod t" by simp
  moreover have "a * w mod t \<le> t"
    using assms by simp
  ultimately have "t * (a * w div t) \<le> a * w" "a * w \<le> t * (a * w div t) + t"
    by linarith+
  with Cons show ?case
    unfolding list.map sum_list.Cons length_Cons distrib_left mult_Suc_right
    by (elim conjE, intro conjI; linarith)
qed

lemma nat_sum_weighted_shares:
  assumes "nat_sum ws = unat t" and "0 < unat t"
  shows "nat_sum (weighted_shares a t ws) \<le> unat a
    \<and> unat a \<le> nat_sum (weighted_shares a t ws) + length ws"
proof -
  let ?S = "sum_list (map (\<lambda>w. unat a * w div unat t) (map unat ws))"
  have "nat_sum (weighted_shares a t ws) = ?S"
    unfolding nat_sum_def weighted_shares_def map_map comp_def
    by (intro arg_cong [of _ _ sum_list] map_cong refl unat_weighted_share)
       (use assms elem_le_nat_sum in fastforce)+
  moreover have "unat t * ?S \<le> unat t * unat a"
    using sum_floor_bounds [OF assms(2), of "unat a" "map unat ws"] assms(1)
    by (simp add: nat_sum_def mult.commute)
  then have "?S \<le> unat a"
    using assms(2) by simp
  moreover have "unat a * unat t \<le> unat t * ?S + unat t * length ws"
    using sum_floor_bounds [OF assms(2), of "unat a" "map unat ws"] assms(1)
    by (simp add: nat_sum_def)
  then have "unat t * unat a \<le> unat t * (?S + length ws)"
    by (simp only: distrib_left mult.commute [of "unat a" "unat t"])
  then have "unat a \<le> ?S + length ws"
    using assms(2) by simp
  ultimately show ?thesis by simp
qed

lemma nat_sum_dust:
  assumes "os \<noteq> []" and "nat_sum os + n < 2 ^ 64"
  shows "nat_sum (hand_out_dust r os n) = nat_sum os + n
    \<and> length (hand_out_dust r os n) = length os"
  using assms(2)
proof (induction n)
  case 0
  then show ?case by (simp add: hand_out_dust_def)
next
  case (Suc n)
  let ?os = "hand_out_dust r os n"
  let ?i = "unat (r + of_nat n) mod length ?os"
  have IH: "nat_sum ?os = nat_sum os + n" "length ?os = length os"
    using Suc by auto
  have step: "hand_out_dust r os (Suc n) = ?os[?i := saturating_add (?os ! ?i) 1]"
    by (simp add: hand_out_dust_def Let_def)
  have "?i < length ?os"
    using IH(2) assms(1) by simp
  then show ?case
    unfolding step using Suc.prems IH nat_sum_update_credit [of ?i ?os 1] by simp
qed

lemma nat_sum_distribute_weighted:
  assumes "os \<noteq> []" and "length ws = length os" and "length os < 2 ^ 64"
    and "nat_sum ws < 2 ^ 64" and sum: "nat_sum os + unat a < 2 ^ 64"
  shows "\<exists>os'. distribute_weighted a ws os r = Some os' \<and> length os' = length os
    \<and> nat_sum os' = nat_sum os + unat a"
proof -
  let ?t = "foldl saturating_add 0 ws"
  let ?s = "weighted_shares a ?t ws"
  have t: "nat_sum ws = unat ?t"
    using assms(4) by (simp add: unat_foldl_saturating)
  consider "a = 0" | "a \<noteq> 0" "?t = 0" | "a \<noteq> 0" "?t \<noteq> 0" by blast
  then show ?thesis
  proof cases
    case 3
    then have "0 < unat ?t" by (simp add: unat_gt_0)
    note shares = nat_sum_weighted_shares [OF t this, of a]
    have len: "length ?s = length os" by (simp add: weighted_shares_def assms(2))
    let ?os = "map2 saturating_add os ?s"
    let ?d = "foldl saturating_add 0 ?s"
    have os: "nat_sum ?os = nat_sum os + nat_sum ?s"
      using nat_sum_map2_credit [of os ?s] len shares sum by simp
    have "unat ?d = nat_sum ?s"
      using shares unat_lt [of a] by (simp add: unat_foldl_saturating)
    then have d: "unat (saturating_sub a ?d) = unat a - nat_sum ?s"
      by (simp add: unat_saturating_sub)
    let ?n = "min (unat (saturating_sub a ?d)) (length ?os)"
    have "unat a - nat_sum ?s \<le> length ?os"
      using shares len assms(2) by auto
    then have n: "?n = unat a - nat_sum ?s"
      unfolding d by (rule min_absorb1)
    have "?os \<noteq> []" using assms(1) len by (cases os; cases ?s) simp_all
    then have "nat_sum (hand_out_dust r ?os ?n) = nat_sum os + unat a"
      and "length (hand_out_dust r ?os ?n) = length os"
      using nat_sum_dust [of ?os ?n r] os n shares sum len by simp_all
    moreover have "distribute_weighted a ws os r = Some (hand_out_dust r ?os ?n)"
      using 3 assms(1,2) by (simp add: distribute_weighted_def weighted_pass_map2 Let_def)
    ultimately show ?thesis by simp
  qed (use assms in \<open>simp_all add: distribute_weighted_def nat_sum_distribute_equal\<close>)
qed

section \<open>The whole distribution\<close>

lemma nat_sum_weights:
  assumes "\<And>p. unat (f p) < 2 ^ 16" and "length ps < 2 ^ 32"
  shows "nat_sum (map f ps) < (2 ^ 64 :: nat)"
proof -
  have "nat_sum (map f ps) \<le> length ps * 2 ^ 16"
    by (induction ps) (use assms(1) less_imp_le in \<open>auto intro: add_mono\<close>)
  also have "\<dots> < 2 ^ 32 * 2 ^ 16"
    using assms(2) by simp
  finally show ?thesis by simp
qed

lemma nat_sum_positive:
  "length vs = length xs \<Longrightarrow>
   nat_sum (map snd (filter (\<lambda>(v, a). 0 < a) (zip vs (xs :: u64 list)))) = nat_sum xs"
  by (induction vs xs rule: list_induct2) (auto simp: word_gt_0)

lemma bps_part_le:
  assumes "unat bps \<le> 10000"
  shows "unat (saturating_mul x bps div BPS_DENOMINATOR) \<le> unat (x :: u64) * unat bps div 10000"
  by (simp add: unat_div BPS_DENOMINATOR_def unat_saturating_mul div_le_mono)

lemma pools_add_up:
  fixes x :: u64
  defines "base \<equiv> saturating_mul x BASE_REWARD_BPS div BPS_DENOMINATOR"
    and "perf \<equiv> saturating_mul x PERFORMANCE_REWARD_BPS div BPS_DENOMINATOR"
  shows "unat base + unat perf + unat (saturating_sub (saturating_sub x base) perf) = unat x"
proof -
  have "unat base \<le> unat x * 7500 div 10000" "unat perf \<le> unat x * 1700 div 10000"
    unfolding base_def perf_def
    using bps_part_le [of BASE_REWARD_BPS x] bps_part_le [of PERFORMANCE_REWARD_BPS x]
    by (simp_all add: reward_constants)
  then have "unat base + unat perf \<le> unat x" by linarith
  then show ?thesis by (simp add: unat_saturating_sub)
qed

text \<open>
  The distribution of an epoch pays out exactly the pool: block reward and fees are split
  over three buckets and many roundings, and the amounts credited add up to the total again,
  with no panic and nothing saturating on the way.
\<close>

lemma distribute_total:
  assumes "ps \<noteq> []" and len: "length ps < 2 ^ 32"
  shows "\<exists>rs. distribute epoch minted fees ps = Some rs
    \<and> nat_sum (map snd rs)
        = unat (saturating_add (epoch_reward_pool epoch minted (of_nat (length ps))) fees)
    \<and> set (map fst rs) \<subseteq> set (map rp_validator ps)"
proof -
  define x where "x = saturating_add (epoch_reward_pool epoch minted (of_nat (length ps))) fees"
  define base where "base = saturating_mul x BASE_REWARD_BPS div BPS_DENOMINATOR"
  define perf where "perf = saturating_mul x PERFORMANCE_REWARD_BPS div BPS_DENOMINATOR"
  define age where "age = saturating_sub (saturating_sub x base) perf"
  define o0 where "o0 = distribute_equal base (replicate (length ps) 0) epoch"
  define aw :: "u64 list" where "aw = map (\<lambda>p. ucast (age_weight_bps p)) ps"
  have pools: "unat base + unat perf + unat age = unat x"
    unfolding base_def perf_def age_def by (rule pools_add_up)
  have x: "unat x < 2 ^ 64" using unat_lt [of x] by simp
  have len64: "length ps < 2 ^ 64" using len by simp
  have w1: "nat_sum (map perf_weight ps) < 2 ^ 64" and w2: "nat_sum aw < 2 ^ 64"
    unfolding aw_def
    by (rule nat_sum_weights [OF _ len],
        use unat_lt [where 'a = 16] in \<open>simp add: perf_weight_def unat_ucast_up\<close>)+
  have "replicate (length ps) (0 :: u64) \<noteq> []" using assms(1) by simp
  then have o0: "nat_sum o0 = unat base" "length o0 = length ps"
    using nat_sum_distribute_equal [of "replicate (length ps) 0" base epoch] len64 pools x
    by (simp_all add: o0_def)
  then have "o0 \<noteq> []" using assms(1) by auto
  then obtain o1 where o1: "distribute_weighted perf (map perf_weight ps) o0 epoch = Some o1"
      "length o1 = length ps" "nat_sum o1 = unat base + unat perf"
    using nat_sum_distribute_weighted [OF _ _ _ w1, of o0 perf epoch] o0 len64 pools x by auto
  have "o1 \<noteq> []" using o1(2) assms(1) by auto
  then obtain o2 where o2: "distribute_weighted age aw o1 epoch = Some o2"
      "length o2 = length ps" "nat_sum o2 = unat x"
    using nat_sum_distribute_weighted [OF _ _ _ w2, of o1 age epoch] o1(2,3) len64 pools x
    by (auto simp: aw_def)
  let ?rs = "filter (\<lambda>(v, a). 0 < a) (zip (map rp_validator ps) o2)"
  have "distribute epoch minted fees ps = Some (if x = 0 then [] else ?rs)"
    using assms(1) o1(1) o2(1)
    unfolding distribute_def Let_def x_def [symmetric] base_def [symmetric] perf_def [symmetric]
      age_def [symmetric] o0_def [symmetric] aw_def [symmetric]
    by simp
  moreover have "nat_sum (map snd ?rs) = unat x"
    using nat_sum_positive [of "map rp_validator ps" o2] o2(2,3) by simp
  moreover have "set (map fst ?rs) \<subseteq> set (map rp_validator ps)"
    by (auto dest: set_zip_leftD)
  ultimately show ?thesis by (simp add: x_def [symmetric])
qed

text \<open>
  C15: an epoch's settlement issues what the schedule allows and pays out every unit of it.
  The block reward is at most the initial reward halved once per 1461 epochs and never lifts
  the amount minted above \<open>MAX_SUPPLY\<close>; the rewards \<open>distribute\<close> returns (it never panics)
  add up exactly to block reward plus fees, whatever the weights of the validators.
\<close>

theorem epoch_payout_exact:
  assumes "ps \<noteq> []" and "length ps < 2 ^ 32" and "unat (total_minted t) \<le> unat MAX_SUPPLY"
  shows "let pool = epoch_reward_pool epoch (total_minted t) (of_nat (length ps)) in
    unat pool \<le> unat INITIAL_DAILY_REWARD div 2 ^ (unat epoch div 1461) \<and>
    unat (total_minted (record_mint t pool)) = unat (total_minted t) + unat pool \<and>
    unat (total_minted (record_mint t pool)) \<le> unat MAX_SUPPLY \<and>
    (\<exists>rs. distribute epoch (total_minted t) fees ps = Some rs \<and>
       nat_sum (map snd rs) = unat (saturating_add pool fees))"
  unfolding Let_def
  using pool_le_schedule record_mint_bounded [OF assms(3) refl] distribute_total [OF assms(1,2)]
  by blast

definition sample_profiles :: "reward_profile list" where
  "sample_profiles = [\<lparr>rp_validator = 1, perf_weight_bps = 10000, age_weight_bps = 1000\<rparr>,
     \<lparr>rp_validator = 2, perf_weight_bps = 11500, age_weight_bps = 8000\<rparr>]"

theorem epoch_payout_exact_witness:
  "distribute 3 0 5 sample_profiles = Some [(1, 92591731267), (2, 107408268738)] \<and>
   nat_sum (map snd [(1 :: account_id, 92591731267 :: u64), (2, 107408268738)])
     = unat (saturating_add (epoch_reward_pool 3 0 (of_nat (length sample_profiles))) 5)"
proof -
  have "distribute 3 0 5 sample_profiles = Some [(1, 92591731267), (2, 107408268738)]"
    by code_simp
  moreover have "\<exists>rs. distribute 3 (total_minted tracker_new) 5 sample_profiles = Some rs \<and>
       nat_sum (map snd rs)
         = unat (saturating_add
             (epoch_reward_pool 3 (total_minted tracker_new) (of_nat (length sample_profiles))) 5)"
    using epoch_payout_exact [of sample_profiles tracker_new 3 5]
    by (simp add: sample_profiles_def tracker_new_def Let_def)
  ultimately show ?thesis by (simp add: tracker_new_def)
qed

end
