(* ===== verification/Admission.thy ===== *)
theory Admission
  imports Ace_Prelude
begin

text \<open>
  The admission controller of \<open>ace-consensus/src/admission.rs\<close>: at every epoch boundary it
  smooths the load per active node and decides how many validator slots to release. The
  arithmetic is that of the source, on \<open>u64\<close> and \<open>u32\<close> words with saturation. The lemmas
  bound what one boundary and what a whole run of boundaries can release.
\<close>

definition TARGET_AVG_TXS_PER_NODE :: u64 where "TARGET_AVG_TXS_PER_NODE = 2000000"
definition EXPANSION_THRESHOLD_BPS :: u64 where "EXPANSION_THRESHOLD_BPS = 12000"
definition MAX_EXPANSION_RATE_BPS :: u64 where "MAX_EXPANSION_RATE_BPS = 2000"
definition MIN_EXPANSION_SLOTS :: u32 where "MIN_EXPANSION_SLOTS = 1"
definition MAX_EXPANSION_SLOTS :: u32 where "MAX_EXPANSION_SLOTS = 100"
definition LOAD_EMA_PREV_BPS :: u64 where "LOAD_EMA_PREV_BPS = 7000"
definition LOAD_EMA_CUR_BPS :: u64 where "LOAD_EMA_CUR_BPS = 3000"
definition BPS_DENOM :: u64 where "BPS_DENOM = 10000"
definition HARD_CAP_ACTIVE_NODES :: u32 where "HARD_CAP_ACTIVE_NODES = 10000"

lemmas admission_constants = TARGET_AVG_TXS_PER_NODE_def EXPANSION_THRESHOLD_BPS_def
  MAX_EXPANSION_RATE_BPS_def MIN_EXPANSION_SLOTS_def MAX_EXPANSION_SLOTS_def
  LOAD_EMA_PREV_BPS_def LOAD_EMA_CUR_BPS_def BPS_DENOM_def HARD_CAP_ACTIVE_NODES_def

record admission_decision =
  new_active_target :: u32
  slots_to_release :: u32
  load_factor_bps :: u64
  expanding :: bool

record admission_controller =
  load_ema_bps :: u64
  active_target :: u32
  total_slots_released :: u32
  last_adjustment_epoch :: u64

definition admission_new :: "u32 \<Rightarrow> admission_controller" where
  "admission_new initial = \<lparr>load_ema_bps = BPS_DENOM,
     active_target = min initial HARD_CAP_ACTIVE_NODES,
     total_slots_released = 0, last_adjustment_epoch = 0\<rparr>"

definition set_active_target :: "admission_controller \<Rightarrow> u32 \<Rightarrow> admission_controller" where
  "set_active_target c target = c\<lparr>active_target := min target HARD_CAP_ACTIVE_NODES\<rparr>"

definition current_load :: "u64 \<Rightarrow> u32 \<Rightarrow> u64" where
  "current_load epoch_total_txs active =
    (let avg_txs_per_node = epoch_total_txs div ucast active
     in if TARGET_AVG_TXS_PER_NODE = 0 then BPS_DENOM
        else saturating_mul avg_txs_per_node BPS_DENOM div TARGET_AVG_TXS_PER_NODE)"

definition smoothed_load :: "u64 \<Rightarrow> u64 \<Rightarrow> u64" where
  "smoothed_load prev current =
    saturating_add (saturating_mul prev LOAD_EMA_PREV_BPS)
      (saturating_mul current LOAD_EMA_CUR_BPS) div BPS_DENOM"

definition expansion_slots :: "u64 \<Rightarrow> u32 \<Rightarrow> u32" where
  "expansion_slots load active =
    (let excess_bps = saturating_sub load BPS_DENOM;
         raw_expansion = saturating_mul (ucast active) excess_bps div BPS_DENOM;
         max_rate_expansion = saturating_mul (ucast active) MAX_EXPANSION_RATE_BPS div BPS_DENOM
     in ucast (min (max (min raw_expansion max_rate_expansion) (ucast MIN_EXPANSION_SLOTS))
                   (ucast MAX_EXPANSION_SLOTS)))"

definition on_epoch_boundary ::
    "admission_controller \<Rightarrow> u64 \<Rightarrow> u64 \<Rightarrow> u32 \<Rightarrow> admission_controller \<times> admission_decision" where
  "on_epoch_boundary c epoch epoch_total_txs active =
    (if active = 0
     then (c, \<lparr>new_active_target = active_target c, slots_to_release = 0,
               load_factor_bps = 0, expanding = False\<rparr>)
     else let load = smoothed_load (load_ema_bps c) (current_load epoch_total_txs active);
              c = c\<lparr>load_ema_bps := load, last_adjustment_epoch := epoch\<rparr>
       in if EXPANSION_THRESHOLD_BPS < load_ema_bps c \<and> active_target c < HARD_CAP_ACTIVE_NODES
          then let expansion = expansion_slots (load_ema_bps c) active;
                   new_target = min (saturating_add (active_target c) expansion)
                                    HARD_CAP_ACTIVE_NODES;
                   actual_released = saturating_sub new_target (active_target c);
                   c = c\<lparr>active_target := new_target,
                         total_slots_released :=
                           saturating_add (total_slots_released c) actual_released\<rparr>
               in (c, \<lparr>new_active_target = active_target c, slots_to_release = actual_released,
                       load_factor_bps = load_ema_bps c, expanding = True\<rparr>)
          else (c, \<lparr>new_active_target = active_target c, slots_to_release = 0,
                    load_factor_bps = load_ema_bps c, expanding = False\<rparr>))"

section \<open>One boundary\<close>

lemma expansion_slots_bounds:
  "1 \<le> unat (expansion_slots load active) \<and>
   unat (expansion_slots load active) \<le> min 100 (max 1 (unat active div 5))"
proof -
  let ?raw = "saturating_mul (ucast active) (saturating_sub load BPS_DENOM) div BPS_DENOM"
  let ?rate = "saturating_mul (ucast active) MAX_EXPANSION_RATE_BPS div BPS_DENOM"
  have a: "unat active < 2 ^ 32" using unat_lt [of active] by simp
  have "unat ?rate = unat active * 2000 div 10000"
    using a by (simp add: unat_div unat_saturating_mul unat_ucast_up admission_constants)
  also have "\<dots> = unat active div 5" by simp
  finally have rate: "unat ?rate = unat active div 5" .
  let ?m = "min (max (min ?raw ?rate) (ucast MIN_EXPANSION_SLOTS)) (ucast MAX_EXPANSION_SLOTS) :: u64"
  have m: "unat ?m = min (max (min (unat ?raw) (unat active div 5)) 1) 100"
    unfolding unat_min unat_max_word rate by (simp add: admission_constants)
  then have "unat ?m \<le> 100" by linarith
  then have "unat (ucast ?m :: u32) = unat ?m"
    by (intro unat_ucast_small) simp
  then show ?thesis
    unfolding expansion_slots_def Let_def m by linarith
qed

text \<open>What one boundary does to the controller, on both of its branches.\<close>

lemma boundary_effect:
  assumes "unat (active_target c) \<le> 10000"
    and "on_epoch_boundary c epoch txs active = (c', d)"
  shows "unat (active_target c') = unat (active_target c) + unat (slots_to_release d)
    \<and> unat (active_target c') \<le> 10000
    \<and> unat (slots_to_release d) \<le> min 100 (max 1 (unat active div 5))
    \<and> new_active_target d = active_target c'
    \<and> total_slots_released c' = saturating_add (total_slots_released c) (slots_to_release d)
    \<and> (expanding d \<longleftrightarrow> slots_to_release d \<noteq> 0)"
proof (cases "slots_to_release d = 0 \<and> \<not> expanding d")
  case True
  then show ?thesis
    using assms by (auto simp: on_epoch_boundary_def Let_def split: if_splits)
next
  case False
  let ?e = "expansion_slots (load_factor_bps d) active"
  let ?t = "min (saturating_add (active_target c) ?e) HARD_CAP_ACTIVE_NODES"
  have lt: "unat (active_target c) < 10000"
    and t: "active_target c' = ?t"
    and d: "slots_to_release d = saturating_sub ?t (active_target c)" "new_active_target d = ?t"
      "expanding d"
    and tot: "total_slots_released c' = saturating_add (total_slots_released c) (slots_to_release d)"
    using assms(2) False
    by (auto simp: on_epoch_boundary_def Let_def word_less_nat_alt HARD_CAP_ACTIVE_NODES_def
        split: if_splits)
  have "unat ?t = min (unat (active_target c) + unat ?e) 10000"
    using lt expansion_slots_bounds [of "load_factor_bps d" active]
    by (simp add: min_def word_le_nat_alt unat_saturating_add HARD_CAP_ACTIVE_NODES_def)
  then show ?thesis
    using lt t d tot expansion_slots_bounds [of "load_factor_bps d" active]
    by (auto simp: unat_saturating_sub unat_eq_zero simp flip: unat_eq_zero)
qed

section \<open>Runs of boundaries\<close>

text \<open>Every epoch the controller is asked once, with the load and the number of active nodes.\<close>

fun admission_run ::
    "admission_controller \<Rightarrow> (u64 \<times> u64 \<times> u32) list \<Rightarrow> admission_controller \<times> admission_decision list" where
  "admission_run c [] = (c, [])"
| "admission_run c ((epoch, txs, active) # es) =
    (let (c, d) = on_epoch_boundary c epoch txs active;
         (c, ds) = admission_run c es
     in (c, d # ds))"

definition released :: "admission_decision list \<Rightarrow> nat" where
  "released ds = nat_sum (map slots_to_release ds)"

lemma admission_run_accounting:
  assumes "unat (active_target c) \<le> 10000" and "admission_run c es = (c', ds)"
  shows "unat (active_target c') = unat (active_target c) + released ds
    \<and> unat (active_target c') \<le> 10000
    \<and> list_all2 (\<lambda>(epoch, txs, active) d.
          unat (slots_to_release d) \<le> min 100 (max 1 (unat active div 5))) es ds"
  using assms
proof (induction c es arbitrary: c' ds rule: admission_run.induct)
  case (1 c)
  then show ?case by (simp add: released_def)
next
  case (2 c epoch txs active es)
  obtain c1 d where b: "on_epoch_boundary c epoch txs active = (c1, d)"
    by (cases "on_epoch_boundary c epoch txs active")
  obtain c2 ds' where r: "admission_run c1 es = (c2, ds')"
    by (cases "admission_run c1 es")
  note eff = boundary_effect [OF "2.prems"(1) b]
  have "unat (active_target c2) = unat (active_target c1) + released ds'
    \<and> unat (active_target c2) \<le> 10000
    \<and> list_all2 (\<lambda>(epoch, txs, active) d.
          unat (slots_to_release d) \<le> min 100 (max 1 (unat active div 5))) es ds'"
    using "2.IH" [OF b [symmetric] refl _ r] eff by blast
  moreover have "c' = c2" "ds = d # ds'"
    using "2.prems"(2) b r by simp_all
  ultimately show ?case
    using eff by (simp add: released_def)
qed

text \<open>
  C26: over any run of epochs, started from any genesis size, the controller never lifts the
  active target above 10,000, releases at most 100 slots and at most a fifth of the active
  nodes (at least one) per epoch, and the target is always the initial one plus exactly the
  slots released: no slot is released twice or lost at the cap.
\<close>

theorem admission_bounded_growth:
  assumes "admission_run (admission_new initial) es = (c', ds)"
  shows "unat (active_target c') = min (unat initial) 10000 + released ds
    \<and> unat (active_target c') \<le> 10000
    \<and> list_all2 (\<lambda>(epoch, txs, active) d.
          unat (slots_to_release d) \<le> min 100 (max 1 (unat active div 5))) es ds"
proof -
  have "unat (active_target (admission_new initial)) = min (unat initial) 10000"
    by (simp add: admission_new_def min_def word_le_nat_alt HARD_CAP_ACTIVE_NODES_def)
  with admission_run_accounting [OF _ assms] show ?thesis by simp
qed

theorem admission_bounded_growth_witness:
  "active_target (fst (admission_run (admission_new 4)
     [(1, 100000000, 4), (2, 900, 0), (3, 200000000, 5)])) = 6
   \<and> released (snd (admission_run (admission_new 4)
     [(1, 100000000, 4), (2, 900, 0), (3, 200000000, 5)])) = 2"
proof -
  let ?es = "[(1, 100000000, 4), (2, 900, 0), (3, 200000000, 5)] :: (u64 \<times> u64 \<times> u32) list"
  obtain c ds where r: "admission_run (admission_new 4) ?es = (c, ds)"
    by (cases "admission_run (admission_new 4) ?es")
  have "active_target (fst (admission_run (admission_new 4) ?es)) = 6"
    by code_simp
  with r admission_bounded_growth [OF r] show ?thesis
    by simp
qed

end
