(* ===== verification/Node_Registry.thy ===== *)
theory Node_Registry
  imports Stores "HOL-Library.Product_Lexorder"
begin

text \<open>
  The node registry of \<open>ace-model/src/node_registry.rs\<close> and the affiliates of
  \<open>ace-model/src/affiliate.rs\<close>: who may run a validator, who waits in standby and in which
  order waiting nodes are promoted, and which users a node operator manages and charges.
\<close>

section \<open>Nodes\<close>

datatype kyc_status = KycPending | KycApproved | KycRejected | KycExpired
datatype node_status = Standby | Active | Suspended | Removed

record node_info =
  ni_id :: account_id
  ni_status :: node_status
  ni_registered_at :: u64
  ni_activated_at :: u64
  ni_label :: string
  ni_affiliate_count :: u32
  ni_jurisdiction :: string
  ni_kyc_status :: kyc_status
  ni_kyc_reviewed_at :: u64
  ni_kyc_expires_at :: "u64 option"
  ni_natural_person :: bool
  ni_standby_rank :: "u32 option"
  ni_perf_ema_bps :: u16
  ni_successes :: u32
  ni_failures :: u32

definition DEFAULT_MAX_NODES :: u32 where "DEFAULT_MAX_NODES = 10000"
definition DEFAULT_PERF_EMA_BPS :: u16 where "DEFAULT_PERF_EMA_BPS = 10000"

definition is_kyc_approved :: "node_info \<Rightarrow> u64 \<Rightarrow> bool" where
  "is_kyc_approved n now =
    (ni_kyc_status n = KycApproved \<and>
     (case ni_kyc_expires_at n of None \<Rightarrow> True | Some e \<Rightarrow> e = 0 \<or> now \<le> e))"

definition is_consensus_eligible :: "node_info \<Rightarrow> u64 \<Rightarrow> bool" where
  "is_consensus_eligible n now =
    (ni_status n = Active \<and> ni_natural_person n \<and> is_kyc_approved n now)"

definition capped_age_months :: "node_info \<Rightarrow> u64 \<Rightarrow> u64 \<Rightarrow> u64" where
  "capped_age_months n now cap =
    (let anchor = (if ni_activated_at n = 0 then ni_registered_at n else ni_activated_at n)
     in if now \<le> anchor then 0
        else min ((now - anchor) div (30 * 24 * 60 * 60 * 1000)) cap)"

section \<open>The registry\<close>

record node_registry =
  nr_nodes :: "(account_id, node_info) bmap"
  nr_max_nodes :: u32

datatype registry_error = AlreadyRegistered account_id | NodeNotFound account_id | AtCapacity u32

definition nr_new :: node_registry where
  "nr_new = \<lparr>nr_nodes = [], nr_max_nodes = DEFAULT_MAX_NODES\<rparr>"

definition nr_with_capacity :: "u32 \<Rightarrow> node_registry" where
  "nr_with_capacity n = \<lparr>nr_nodes = [], nr_max_nodes = n\<rparr>"

definition nr_from_genesis :: "node_info list \<Rightarrow> u32 \<Rightarrow> node_registry" where
  "nr_from_genesis approved n =
    \<lparr>nr_nodes = foldl (\<lambda>m info. bt_insert (ni_id info) info m) [] approved, nr_max_nodes = n\<rparr>"

definition get_node :: "node_registry \<Rightarrow> account_id \<Rightarrow> node_info option" where
  "get_node r i = map_of (nr_nodes r) i"

text \<open>\<open>get_node_mut\<close> and the write through it.\<close>

definition modify_node :: "account_id \<Rightarrow> (node_info \<Rightarrow> node_info) \<Rightarrow> node_registry \<Rightarrow> node_registry" where
  "modify_node i f r = r\<lparr>nr_nodes := bt_modify i f (nr_nodes r)\<rparr>"

definition nodes_with :: "(node_info \<Rightarrow> bool) \<Rightarrow> node_registry \<Rightarrow> node_info list" where
  "nodes_with P r = filter P (map snd (nr_nodes r))"

definition active_nodes :: "node_registry \<Rightarrow> node_info list" where
  "active_nodes r = nodes_with (\<lambda>n. ni_status n = Active) r"

definition standby_nodes :: "node_registry \<Rightarrow> node_info list" where
  "standby_nodes r = nodes_with (\<lambda>n. ni_status n = Standby) r"

definition node_count :: "node_registry \<Rightarrow> u32" where
  "node_count r = of_nat (length (nodes_with (\<lambda>n. ni_status n \<noteq> Removed) r))"

definition registered_node_ids :: "node_registry \<Rightarrow> account_id list" where
  "registered_node_ids r =
    foldl (\<lambda>ids n. bs_insert (ni_id n) ids) [] (nodes_with (\<lambda>n. ni_status n \<noteq> Removed) r)"

definition has_capacity :: "node_registry \<Rightarrow> bool" where
  "has_capacity r = (node_count r < nr_max_nodes r)"

definition set_max_nodes :: "u32 \<Rightarrow> node_registry \<Rightarrow> node_registry" where
  "set_max_nodes n r = r\<lparr>nr_max_nodes := n\<rparr>"

definition register_node :: "node_registry \<Rightarrow> node_info \<Rightarrow> registry_error + node_registry" where
  "register_node r info =
    (if bt_contains (ni_id info) (nr_nodes r) then Inl (AlreadyRegistered (ni_id info))
     else if \<not> has_capacity r then Inl (AtCapacity (nr_max_nodes r))
     else Inr (r\<lparr>nr_nodes := bt_insert (ni_id info) info (nr_nodes r)\<rparr>))"

definition set_node_status :: "node_registry \<Rightarrow> account_id \<Rightarrow> node_status \<Rightarrow> registry_error + node_registry" where
  "set_node_status r i st =
    (case get_node r i of
       None \<Rightarrow> Inl (NodeNotFound i)
     | Some _ \<Rightarrow>
         Inr (modify_node i (\<lambda>n.
           let n = n\<lparr>ni_status := st\<rparr>
           in if st = Active \<and> ni_activated_at n = 0
              then n\<lparr>ni_activated_at := ni_registered_at n\<rparr> else n) r))"

definition set_affiliate_count :: "node_registry \<Rightarrow> account_id \<Rightarrow> u32 \<Rightarrow> registry_error + node_registry" where
  "set_affiliate_count r i c =
    (case get_node r i of
       None \<Rightarrow> Inl (NodeNotFound i)
     | Some _ \<Rightarrow> Inr (modify_node i (\<lambda>n. n\<lparr>ni_affiliate_count := c\<rparr>) r))"

text \<open>Promotion from standby: lowest rank first, then the earliest registration.\<close>

definition standby_priority :: "account_id \<times> u32 option \<times> u64 \<Rightarrow> u32 \<times> u64" where
  "standby_priority = (\<lambda>(i, rank, t). (case rank of Some r \<Rightarrow> r | None \<Rightarrow> - 1, t))"

definition promote_node :: "u64 \<Rightarrow> node_info \<Rightarrow> node_info" where
  "promote_node now n =
    (let n = n\<lparr>ni_status := Active\<rparr>;
         n = (if ni_activated_at n = 0 then n\<lparr>ni_activated_at := now\<rparr> else n)
     in n\<lparr>ni_standby_rank := None\<rparr>)"

definition standby_queue :: "node_registry \<Rightarrow> (account_id \<times> u32 option \<times> u64) list" where
  "standby_queue r = sort_key standby_priority
     (map (\<lambda>n. (ni_id n, ni_standby_rank n, ni_registered_at n)) (standby_nodes r))"

fun promote_all :: "u64 \<Rightarrow> account_id list \<Rightarrow> node_registry \<Rightarrow> node_registry \<times> account_id list" where
  "promote_all now [] r = (r, [])"
| "promote_all now (i # is) r =
    (case get_node r i of
       None \<Rightarrow> promote_all now is r
     | Some _ \<Rightarrow>
         let (r, promoted) = promote_all now is (modify_node i (promote_node now) r)
         in (r, i # promoted))"

definition promote_standby :: "node_registry \<Rightarrow> u32 \<Rightarrow> u64 \<Rightarrow> node_registry \<times> account_id list" where
  "promote_standby r cnt now =
    (let standby = standby_queue r;
         promote_count = min (unat cnt) (length standby)
     in promote_all now (map fst (take promote_count standby)) r)"

section \<open>Affiliates\<close>

record affiliate_info =
  af_id :: account_id
  af_operator :: account_id
  af_registered_at :: u64
  af_active :: bool

record affiliate_registry =
  af_by_operator :: "(account_id, account_id list) bmap"
  af_info :: "(account_id, affiliate_info) bmap"
  af_fee_per_month :: u64

datatype affiliate_error = AffiliateExists account_id | AffiliateNotFound account_id

definition DEFAULT_AFFILIATE_FEE :: u64 where "DEFAULT_AFFILIATE_FEE = 50 * 1000000000"
definition BILLING_PERIOD_MS :: u64 where "BILLING_PERIOD_MS = 30 * 24 * 60 * 60 * 1000"

definition af_new :: affiliate_registry where
  "af_new = \<lparr>af_by_operator = [], af_info = [], af_fee_per_month = DEFAULT_AFFILIATE_FEE\<rparr>"

definition af_with_fee :: "u64 \<Rightarrow> affiliate_registry" where
  "af_with_fee fee = \<lparr>af_by_operator = [], af_info = [], af_fee_per_month = fee\<rparr>"

definition af_register ::
    "affiliate_registry \<Rightarrow> account_id \<Rightarrow> account_id \<Rightarrow> u64 \<Rightarrow> affiliate_error + affiliate_registry" where
  "af_register r affiliate operator now =
    (if bt_contains affiliate (af_info r) then Inl (AffiliateExists affiliate)
     else let info = \<lparr>af_id = affiliate, af_operator = operator, af_registered_at = now, af_active = True\<rparr>;
              members = (case map_of (af_by_operator r) operator of Some xs \<Rightarrow> xs | None \<Rightarrow> [])
          in Inr (r\<lparr>af_info := bt_insert affiliate info (af_info r),
                    af_by_operator := bt_insert operator (bs_insert affiliate members) (af_by_operator r)\<rparr>))"

definition af_deactivate :: "affiliate_registry \<Rightarrow> account_id \<Rightarrow> affiliate_error + affiliate_registry" where
  "af_deactivate r i =
    (case map_of (af_info r) i of
       None \<Rightarrow> Inl (AffiliateNotFound i)
     | Some _ \<Rightarrow> Inr (r\<lparr>af_info := bt_modify i (\<lambda>x. x\<lparr>af_active := False\<rparr>) (af_info r)\<rparr>))"

definition get_affiliates :: "affiliate_registry \<Rightarrow> account_id \<Rightarrow> affiliate_info list" where
  "get_affiliates r operator =
    (case map_of (af_by_operator r) operator of
       Some members \<Rightarrow> List.map_filter (\<lambda>i. map_of (af_info r) i) members
     | None \<Rightarrow> [])"

definition active_affiliate_count :: "affiliate_registry \<Rightarrow> account_id \<Rightarrow> u32" where
  "active_affiliate_count r operator = of_nat (length (filter af_active (get_affiliates r operator)))"

definition affiliate_fee_for_window :: "affiliate_registry \<Rightarrow> affiliate_info \<Rightarrow> u64 \<Rightarrow> u64 \<Rightarrow> u64" where
  "affiliate_fee_for_window r x window_start window_end =
    (if \<not> af_active x \<or> window_end \<le> window_start then 0
     else let active_start = max (af_registered_at x) window_start
       in if window_end \<le> active_start then 0
          else let active_ms = window_end - active_start
            in ucast ((ucast (af_fee_per_month r) :: u128) * ucast active_ms div ucast BILLING_PERIOD_MS))"

definition operator_fees_for_window :: "affiliate_registry \<Rightarrow> account_id \<Rightarrow> u64 \<Rightarrow> u64 \<Rightarrow> u64" where
  "operator_fees_for_window r operator window_start window_end =
    word_sum (map (\<lambda>x. affiliate_fee_for_window r x window_start window_end) (get_affiliates r operator))"

definition operator_fees :: "affiliate_registry \<Rightarrow> account_id \<Rightarrow> u64" where
  "operator_fees r operator = operator_fees_for_window r operator 0 (24 * 60 * 60 * 1000)"

definition active_affiliates :: "affiliate_registry \<Rightarrow> affiliate_info list" where
  "active_affiliates r = filter af_active (map snd (af_info r))"

definition total_affiliates :: "affiliate_registry \<Rightarrow> u32" where
  "total_affiliates r = of_nat (length (active_affiliates r))"

section \<open>The registry invariant\<close>

definition nr_wf :: "node_registry \<Rightarrow> bool" where
  "nr_wf r \<longleftrightarrow> bt_wf (nr_nodes r) \<and> (\<forall>(i, n) \<in> set (nr_nodes r). ni_id n = i)"

lemma nr_wf_modify:
  "nr_wf r \<Longrightarrow> (\<And>n. ni_id (f n) = ni_id n) \<Longrightarrow> nr_wf (modify_node i f r)"
  by (auto simp: nr_wf_def modify_node_def dest!: set_bt_modify_cases)

lemma get_modify_node:
  "get_node (modify_node i f r) j = (if j = i then map_option f (get_node r i) else get_node r j)"
  by (simp add: get_node_def modify_node_def)

lemma nr_max_modify [simp]: "nr_max_nodes (modify_node i f r) = nr_max_nodes r"
  by (simp add: modify_node_def)

lemma nr_wf_id: "nr_wf r \<Longrightarrow> get_node r i = Some n \<Longrightarrow> ni_id n = i"
  by (auto simp: nr_wf_def get_node_def dest!: map_of_SomeD)

lemma nodes_with_iff:
  assumes "nr_wf r"
  shows "n \<in> set (nodes_with P r) \<longleftrightarrow> get_node r (ni_id n) = Some n \<and> P n"
  using assms bt_wf_distinct [of "nr_nodes r"]
  by (force simp: nr_wf_def nodes_with_def get_node_def map_of_eq_Some_iff)

lemma distinct_node_ids:
  assumes "nr_wf r"
  shows "distinct (map ni_id (nodes_with P r))"
proof -
  have "map (\<lambda>p. ni_id (snd p)) (nr_nodes r) = map fst (nr_nodes r)"
    using assms by (auto simp: nr_wf_def)
  then have "distinct (map (\<lambda>p. ni_id (snd p)) (nr_nodes r))"
    using assms bt_wf_distinct [of "nr_nodes r"] by (simp only: nr_wf_def)
  then have "distinct (map ni_id (map snd (nr_nodes r)))"
    by (simp add: comp_def)
  then show ?thesis
    unfolding nodes_with_def by (rule distinct_map_filter)
qed

lemma promote_node_simps [simp]:
  "ni_id (promote_node now n) = ni_id n" "ni_status (promote_node now n) = Active"
  by (simp_all add: promote_node_def Let_def)

lemma promote_all_effect:
  assumes "nr_wf r" and "distinct is" and "\<And>i. i \<in> set is \<Longrightarrow> get_node r i \<noteq> None"
    and "promote_all now is r = (r', ps)"
  shows "nr_wf r' \<and> ps = is \<and> nr_max_nodes r' = nr_max_nodes r \<and>
    (\<forall>j. get_node r' j = (if j \<in> set is then map_option (promote_node now) (get_node r j)
                          else get_node r j))"
  using assms
proof (induction now "is" r arbitrary: r' ps rule: promote_all.induct)
  case (2 now i "is" r)
  let ?r = "modify_node i (promote_node now) r"
  obtain n where n: "get_node r i = Some n" using "2.prems"(3) by auto
  obtain r1 ps1 where r1: "promote_all now is ?r = (r1, ps1)" by (cases "promote_all now is ?r")
  have "get_node ?r j \<noteq> None" if "j \<in> set is" for j
    using that "2.prems"(3) by (auto simp: get_modify_node)
  then have "nr_wf r1 \<and> ps1 = is \<and> nr_max_nodes r1 = nr_max_nodes ?r \<and>
      (\<forall>j. get_node r1 j = (if j \<in> set is then map_option (promote_node now) (get_node ?r j)
                            else get_node ?r j))"
    using "2.prems"(1,2) by (intro "2.IH"(2) [OF n _ _ _ r1]) (simp_all add: nr_wf_modify)
  then show ?case
    using "2.prems"(2,4) n r1 by (auto simp: get_modify_node)
qed simp

lemma standby_queue_ids:
  assumes "nr_wf r"
  shows "distinct (map fst (standby_queue r))"
    and "set (standby_queue r)
      = (\<lambda>n. (ni_id n, ni_standby_rank n, ni_registered_at n)) ` set (standby_nodes r)"
    and "length (standby_queue r) = length (standby_nodes r)"
proof -
  have "mset (map fst (standby_queue r)) = mset (map ni_id (standby_nodes r))"
    by (simp add: standby_queue_def comp_def image_mset.compositionality)
  then show "distinct (map fst (standby_queue r))"
    using distinct_node_ids [OF assms] unfolding standby_nodes_def
    by (metis mset_eq_imp_distinct_iff)
qed (simp_all add: standby_queue_def)

lemma standby_queue_mem:
  assumes "nr_wf r"
  shows "x \<in> set (standby_queue r) \<longleftrightarrow>
    (\<exists>n. x = (ni_id n, ni_standby_rank n, ni_registered_at n)
      \<and> get_node r (ni_id n) = Some n \<and> ni_status n = Standby)"
  unfolding standby_queue_ids(2) [OF assms] standby_nodes_def image_iff Bex_def
    nodes_with_iff [OF assms]
  by (simp add: conj_commute)

lemma standby_queue_best:
  assumes "x \<in> set (take k (standby_queue r))" and "y \<in> set (drop k (standby_queue r))"
  shows "standby_priority x \<le> standby_priority y"
proof -
  have "sorted (map standby_priority (take k (standby_queue r) @ drop k (standby_queue r)))"
    by (simp add: standby_queue_def)
  then show ?thesis
    unfolding map_append sorted_append using assms by auto
qed

lemma promote_standby_effect:
  assumes wf: "nr_wf r" and p: "promote_standby r cnt now = (r', ps)"
  defines "k \<equiv> min (unat cnt) (length (standby_queue r))"
  shows "ps = map fst (take k (standby_queue r)) \<and> nr_wf r' \<and> distinct ps
    \<and> (\<forall>j. get_node r' j = (if j \<in> set ps then map_option (promote_node now) (get_node r j)
                            else get_node r j))"
proof -
  let ?is = "map fst (take k (standby_queue r))"
  have dist: "distinct ?is"
    using standby_queue_ids(1) [OF wf] by (simp add: distinct_take flip: take_map)
  have "get_node r i \<noteq> None" if "i \<in> set ?is" for i
    using that by (auto dest!: in_set_takeD simp: standby_queue_mem [OF wf])
  from promote_all_effect [OF wf dist this, of now r' ps] p dist show ?thesis
    by (simp add: promote_standby_def Let_def k_def)
qed

text \<open>
  C30: promotion from standby takes as many nodes as were asked for or are waiting, in the
  order of their rank (nodes without a rank last) and then of their registration: no node
  left waiting has a better rank than a promoted one. The promoted nodes become active, keep
  their first activation time and leave the queue; every other node is untouched.
\<close>

theorem promotion_by_priority:
  assumes wf: "nr_wf r" and p: "promote_standby r cnt now = (r', ps)"
  shows "nr_wf r' \<and> length ps = min (unat cnt) (length (standby_nodes r)) \<and> distinct ps
    \<and> (\<forall>j. get_node r' j = (if j \<in> set ps then map_option (promote_node now) (get_node r j)
                            else get_node r j))
    \<and> (\<forall>i \<in> set ps. \<exists>n. get_node r i = Some n \<and> ni_status n = Standby \<and>
        (\<forall>m. get_node r (ni_id m) = Some m \<longrightarrow> ni_status m = Standby \<longrightarrow> ni_id m \<notin> set ps \<longrightarrow>
          standby_priority (i, ni_standby_rank n, ni_registered_at n)
            \<le> standby_priority (ni_id m, ni_standby_rank m, ni_registered_at m)))"
proof -
  let ?q = "standby_queue r"
  let ?k = "min (unat cnt) (length ?q)"
  note eff = promote_standby_effect [OF wf p]
  have "\<exists>n. get_node r i = Some n \<and> ni_status n = Standby \<and>
        (\<forall>m. get_node r (ni_id m) = Some m \<longrightarrow> ni_status m = Standby \<longrightarrow> ni_id m \<notin> set ps \<longrightarrow>
          standby_priority (i, ni_standby_rank n, ni_registered_at n)
            \<le> standby_priority (ni_id m, ni_standby_rank m, ni_registered_at m))"
    if i: "i \<in> set ps" for i
  proof -
    obtain x where x: "x \<in> set (take ?k ?q)" "fst x = i" using i conjunct1 [OF eff] by auto
    obtain n where n: "x = (ni_id n, ni_standby_rank n, ni_registered_at n)"
        "get_node r (ni_id n) = Some n" "ni_status n = Standby"
      using in_set_takeD [OF x(1)] unfolding standby_queue_mem [OF wf] by blast
    have "standby_priority x \<le> standby_priority (ni_id m, ni_standby_rank m, ni_registered_at m)"
      if m: "get_node r (ni_id m) = Some m" "ni_status m = Standby" "ni_id m \<notin> set ps" for m
    proof (rule standby_queue_best [OF x(1)])
      let ?y = "(ni_id m, ni_standby_rank m, ni_registered_at m)"
      have "?y \<in> set (take ?k ?q @ drop ?k ?q)"
        using m(1,2) standby_queue_mem [OF wf, of ?y] unfolding append_take_drop_id by blast
      moreover have "?y \<notin> set (take ?k ?q)"
        using m(3) imageI [of ?y "set (take ?k ?q)" fst] conjunct1 [OF eff] by auto
      ultimately show "?y \<in> set (drop ?k ?q)" by (simp only: set_append Un_iff simp_thms)
    qed
    moreover have "ni_id n = i" using n(1) x(2) by simp
    ultimately show ?thesis
      using n by (intro exI [of _ n]) simp
  qed
  note prio = ballI [OF this]
  have len: "length ps = min (unat cnt) (length (standby_nodes r))"
    using conjunct1 [OF eff] standby_queue_ids(3) [OF wf] by simp
  note parts = conjunct2 [OF eff]
  show ?thesis
    by (intro conjI) (rule parts [THEN conjunct1] len parts [THEN conjunct2, THEN conjunct1]
      parts [THEN conjunct2, THEN conjunct2] prio)+
qed

definition sample_node :: "account_id \<Rightarrow> node_status \<Rightarrow> u32 option \<Rightarrow> node_info" where
  "sample_node i st rank = \<lparr>ni_id = i, ni_status = st, ni_registered_at = 1000, ni_activated_at = 0,
     ni_label = ''node'', ni_affiliate_count = 0, ni_jurisdiction = ''CA'',
     ni_kyc_status = KycApproved, ni_kyc_reviewed_at = 1000, ni_kyc_expires_at = None,
     ni_natural_person = True, ni_standby_rank = rank, ni_perf_ema_bps = DEFAULT_PERF_EMA_BPS,
     ni_successes = 0, ni_failures = 0\<rparr>"

definition sample_registry :: node_registry where
  "sample_registry = nr_from_genesis [sample_node 1 Active None, sample_node 2 Standby None,
     sample_node 3 Standby (Some 9), sample_node 4 Standby (Some 2)] 100"

lemma nr_wf_insert:
  "nr_wf r \<Longrightarrow> nr_wf (r\<lparr>nr_nodes := bt_insert (ni_id n) n (nr_nodes r)\<rparr>)"
  by (auto simp: nr_wf_def dest!: set_bt_insert_cases)

lemma nr_wf_genesis: "nr_wf (nr_from_genesis ns m)"
proof -
  have "nr_wf r \<Longrightarrow> nr_wf (r\<lparr>nr_nodes := foldl (\<lambda>m info. bt_insert (ni_id info) info m) (nr_nodes r) ns\<rparr>)"
    for r :: node_registry
  proof (induction ns arbitrary: r)
    case (Cons n ns)
    from Cons.IH [OF nr_wf_insert [OF Cons.prems, of n]] show ?case by simp
  qed simp
  from this [of "\<lparr>nr_nodes = [], nr_max_nodes = m\<rparr>"] show ?thesis
    by (simp add: nr_wf_def nr_from_genesis_def)
qed

theorem promotion_by_priority_witness:
  "snd (promote_standby sample_registry 2 5000) = [4, 3] \<and>
   map_option ni_status (get_node (fst (promote_standby sample_registry 2 5000)) 2) = Some Standby"
proof -
  obtain r' ps where p: "promote_standby sample_registry 2 5000 = (r', ps)"
    by (cases "promote_standby sample_registry 2 5000")
  have wf: "nr_wf sample_registry" unfolding sample_registry_def by (rule nr_wf_genesis)
  have ps: "snd (promote_standby sample_registry 2 5000) = [4, 3]" by code_simp
  have "map_option ni_status (get_node sample_registry 2) = Some Standby" by code_simp
  moreover have "get_node r' 2 = get_node sample_registry 2"
    using promotion_by_priority [OF wf p, THEN conjunct2, THEN conjunct2, THEN conjunct2,
        THEN conjunct1, THEN spec, of 2] ps p by simp
  ultimately show ?thesis using p ps by simp
qed

end
