(* ===== verification/Governance.thy ===== *)
theory Governance
  imports Sharded_State Rewards Admission Node_Registry Validator_Set
begin

text \<open>
  Runtime economics and governance, after \<open>ace-node/src/governance.rs\<close>: the settlement of an
  epoch (performance averages, rewards, affiliate fees, admission of standby nodes), slashing,
  the admission of validators and the snapshots for rollback. It composes the reward engine,
  the admission controller, the node and affiliate registries, the validator set and the
  sharded state.

  A method that changes its arguments and then fails leaves the changes made so far behind; such
  a method returns the changed values next to its result, so that a failing branch is visible
  as it is. Clock readings are arguments; files are not modelled. \<open>GovPanic\<close> is an index out
  of bounds of the source.
\<close>

section \<open>State\<close>

definition SLOT_DURATION_MS :: u64 where "SLOT_DURATION_MS = 400"
definition TREASURY_ACCOUNT :: account_id where "TREASURY_ACCOUNT = - 1"
definition APPROVED_VALIDATOR_STAKE :: u64 where "APPROVED_VALIDATOR_STAKE = 100"
definition BUILDER_SLASH_DIVISOR :: u64 where "BUILDER_SLASH_DIVISOR = 100"

record governance_state =
  epoch_tracker_of :: epoch_tracker
  node_registry_of :: node_registry
  affiliate_registry_of :: affiliate_registry
  admission_controller_of :: admission_controller
  genesis_config_hash_of :: "string option"
  approved_validators :: "validator list"

record epoch_settlement =
  completed_epoch :: "u64 option"
  epoch_rewards :: "(account_id \<times> u64) list"
  affiliate_payouts :: "(account_id \<times> account_id \<times> u64) list"
  settlement_decision :: "admission_decision option"
  promoted_nodes :: "account_id list"

definition settlement_default :: epoch_settlement where
  "settlement_default = \<lparr>completed_epoch = None, epoch_rewards = [], affiliate_payouts = [],
     settlement_decision = None, promoted_nodes = []\<rparr>"

record runtime_governance =
  gstate :: governance_state
  gsnapshots :: "(u64, governance_state) bmap"
  persistence_path :: "string option"
  genesis_time_ms :: u64
  leader_miss_counts :: "(account_id, u32) bmap"
  founder_id_com :: "account_id option"
  validator_admission_policy :: string

datatype gov_error =
    GovBalance balance_error
  | GovRegistry registry_error
  | GovVset vset_error
  | NotRegistered
  | NotActive
  | AdmissionDisabled
  | NotFounder
  | ValidatorRegistered
  | RegistryFull
  | EmptyPubkey
  | BadPubkeyLength
  | KeygenFailed
  | NotDevnetKey
  | UnsupportedPolicy
  | PubkeyTaken
  | GovPanic

definition clone_for_preview :: "runtime_governance \<Rightarrow> runtime_governance" where
  "clone_for_preview g = g\<lparr>gsnapshots := [], persistence_path := None\<rparr>"

definition replace_from_preview :: "runtime_governance \<Rightarrow> runtime_governance \<Rightarrow> runtime_governance" where
  "replace_from_preview g preview = g\<lparr>gstate := gstate preview, gsnapshots := [],
     leader_miss_counts := leader_miss_counts preview, founder_id_com := founder_id_com preview,
     validator_admission_policy := validator_admission_policy preview\<rparr>"

definition gov_snapshot :: "u64 \<Rightarrow> runtime_governance \<Rightarrow> runtime_governance" where
  "gov_snapshot slot g = g\<lparr>gsnapshots := bt_insert slot (gstate g) (gsnapshots g)\<rparr>"

definition gov_rollback :: "u64 \<Rightarrow> runtime_governance \<Rightarrow> runtime_governance" where
  "gov_rollback slot g =
    (let g = (case map_of (gsnapshots g) slot of Some snap \<Rightarrow> g\<lparr>gstate := snap\<rparr> | None \<Rightarrow> g)
     in g\<lparr>gsnapshots := filter (\<lambda>(k, snap). k < slot) (gsnapshots g)\<rparr>)"

definition ensure_validator_active :: "runtime_governance \<Rightarrow> account_id \<Rightarrow> u64 \<Rightarrow> gov_error + unit" where
  "ensure_validator_active g local_id now =
    (case get_node (node_registry_of (gstate g)) local_id of
       None \<Rightarrow> Inl NotRegistered
     | Some n \<Rightarrow> if is_consensus_eligible n now then Inr () else Inl NotActive)"

text \<open>A change of the node registry or of another part of the inner state.\<close>

definition upd_nodes :: "(node_registry \<Rightarrow> node_registry) \<Rightarrow> runtime_governance \<Rightarrow> runtime_governance" where
  "upd_nodes f g = g\<lparr>gstate := (gstate g)\<lparr>node_registry_of := f (node_registry_of (gstate g))\<rparr>\<rparr>"

section \<open>Performance\<close>

definition note_validator_success :: "account_id \<Rightarrow> runtime_governance \<Rightarrow> runtime_governance" where
  "note_validator_success v g =
    (let g = upd_nodes (modify_node v (\<lambda>n. n\<lparr>ni_successes := saturating_add (ni_successes n) 1\<rparr>)) g
     in g\<lparr>leader_miss_counts := bt_remove v (leader_miss_counts g)\<rparr>)"

definition note_validator_failure :: "account_id \<Rightarrow> runtime_governance \<Rightarrow> runtime_governance" where
  "note_validator_failure v g =
    upd_nodes (modify_node v (\<lambda>n. n\<lparr>ni_failures := saturating_add (ni_failures n) 1\<rparr>)) g"

definition note_leader_absence :: "account_id \<Rightarrow> runtime_governance \<Rightarrow> runtime_governance" where
  "note_leader_absence v g =
    (let counter = (case map_of (leader_miss_counts g) v of Some c \<Rightarrow> c | None \<Rightarrow> 0)
     in g\<lparr>leader_miss_counts := bt_insert v (counter + 1) (leader_miss_counts g)\<rparr>)"

definition reward_profile_of :: "governance_state \<Rightarrow> u64 \<Rightarrow> validator \<Rightarrow> reward_profile option" where
  "reward_profile_of gs now v =
    (case get_node (node_registry_of gs) (v_id_com v) of
       None \<Rightarrow> None
     | Some n \<Rightarrow>
         if \<not> is_consensus_eligible n now then None
         else let age_weight = (if AGE_CAP_MONTHS = 0 then 0
                    else let capped = capped_age_months n now AGE_CAP_MONTHS
                         in ucast ((capped * BPS_DENOMINATOR) div AGE_CAP_MONTHS))
              in Some \<lparr>rp_validator = v_id_com v, perf_weight_bps = ni_perf_ema_bps n,
                       age_weight_bps = age_weight\<rparr>)"

definition reward_profiles :: "governance_state \<Rightarrow> validator_set \<Rightarrow> u64 \<Rightarrow> reward_profile list" where
  "reward_profiles gs vs now = List.map_filter (reward_profile_of gs now) (vs_validators vs)"

definition roll_node :: "u64 \<Rightarrow> node_info \<Rightarrow> node_info" where
  "roll_node now n =
    (let n = (if ni_kyc_status n = KycApproved \<and>
                 (case ni_kyc_expires_at n of Some e \<Rightarrow> e \<noteq> 0 \<and> e < now | None \<Rightarrow> False)
              then n\<lparr>ni_kyc_status := KycExpired\<rparr> else n);
         attempts = saturating_add (ni_successes n) (ni_failures n);
         n = (if 0 < attempts
              then let observed_bps = ucast (ni_successes n) * BPS_DENOMINATOR div ucast attempts;
                       blended = (ucast (ni_perf_ema_bps n) * PERF_EMA_PREV_BPS
                                    + observed_bps * PERF_EMA_CUR_BPS) div BPS_DENOMINATOR
                   in n\<lparr>ni_perf_ema_bps := ucast (max (ucast PERF_WEIGHT_FLOOR_BPS :: u64)
                          (min (ucast PERF_WEIGHT_CEIL_BPS) blended))\<rparr>
              else n)
     in n\<lparr>ni_successes := 0, ni_failures := 0\<rparr>)"

definition roll_epoch_performance :: "u64 \<Rightarrow> governance_state \<Rightarrow> governance_state" where
  "roll_epoch_performance now gs =
    gs\<lparr>node_registry_of := foldl (\<lambda>r n. modify_node (ni_id n) (roll_node now) r)
        (node_registry_of gs) (active_nodes (node_registry_of gs))\<rparr>"

definition epoch_duration_ms :: u64 where
  "epoch_duration_ms = BLOCKS_PER_EPOCH * SLOT_DURATION_MS"

definition epoch_start_ms :: "runtime_governance \<Rightarrow> u64 \<Rightarrow> u64" where
  "epoch_start_ms g epoch = genesis_time_ms g + saturating_mul epoch epoch_duration_ms"

section \<open>Affiliate fees\<close>

text \<open>
  The loop over the affiliates of one operator. The last component is the payouts made so far
  and, where a debit or credit failed, the error that ends the whole settlement.
\<close>

type_synonym fee_loop =
  "affiliate_registry \<times> sharded_state \<times> (account_id \<times> account_id \<times> u64) list"

definition deactivate_quietly :: "account_id \<Rightarrow> affiliate_registry \<Rightarrow> affiliate_registry" where
  "deactivate_quietly i r = (case af_deactivate r i of Inl e \<Rightarrow> r | Inr r' \<Rightarrow> r')"

definition move_fee ::
    "account_id \<Rightarrow> account_id \<Rightarrow> u64 \<Rightarrow> sharded_state \<Rightarrow> sharded_state \<times> balance_error option" where
  "move_fee payer payee amount s =
    (case debit ss_get ss_modify s payer amount of
       Inl e \<Rightarrow> (s, Some e)
     | Inr s1 \<Rightarrow>
         (case credit ss_get ss_modify s1 payee amount of
            Inl e \<Rightarrow> (s1, Some e)
          | Inr s2 \<Rightarrow> (s2, None)))"

definition settle_affiliate ::
    "u64 \<Rightarrow> u64 \<Rightarrow> account_id \<Rightarrow> affiliate_info \<Rightarrow> fee_loop \<Rightarrow> fee_loop \<times> balance_error option" where
  "settle_affiliate window_start window_end operator x = (\<lambda>(r, s, payouts).
    let fee_due = affiliate_fee_for_window r x window_start window_end
    in if fee_due = 0 then ((r, s, payouts), None)
       else if ss_get s operator = None \<or> ss_get s (af_id x) = None
       then ((deactivate_quietly (af_id x) r, s, payouts), None)
       else let available = (case ss_get s (af_id x) of Some a \<Rightarrow> acc_balance a | None \<Rightarrow> 0);
                collected = min fee_due available;
                (s, err) = (if 0 < collected then move_fee (af_id x) operator collected s else (s, None))
            in case err of
                 Some e \<Rightarrow> ((r, s, payouts), Some e)
               | None \<Rightarrow>
                   let payouts = (if 0 < collected then payouts @ [(af_id x, operator, collected)] else payouts);
                       r = (if collected < fee_due then deactivate_quietly (af_id x) r else r)
                   in ((r, s, payouts), None))"

fun settle_affiliates ::
    "u64 \<Rightarrow> u64 \<Rightarrow> account_id \<Rightarrow> affiliate_info list \<Rightarrow> fee_loop \<Rightarrow> fee_loop \<times> balance_error option" where
  "settle_affiliates t0 t1 operator [] l = (l, None)"
| "settle_affiliates t0 t1 operator (x # xs) l =
    (case settle_affiliate t0 t1 operator x l of
       (l, Some e) \<Rightarrow> (l, Some e)
     | (l, None) \<Rightarrow> settle_affiliates t0 t1 operator xs l)"

fun settle_operators :: "u64 \<Rightarrow> u64 \<Rightarrow> account_id list \<Rightarrow> fee_loop \<Rightarrow> fee_loop \<times> balance_error option" where
  "settle_operators t0 t1 [] l = (l, None)"
| "settle_operators t0 t1 (operator # os) l =
    (case settle_affiliates t0 t1 operator (get_affiliates (fst l) operator) l of
       (l, Some e) \<Rightarrow> (l, Some e)
     | (l, None) \<Rightarrow> settle_operators t0 t1 os l)"

definition settle_affiliate_fees ::
    "u64 \<Rightarrow> u64 \<Rightarrow> governance_state \<Rightarrow> sharded_state
     \<Rightarrow> governance_state \<times> sharded_state \<times> (gov_error + (account_id \<times> account_id \<times> u64) list)" where
  "settle_affiliate_fees t0 t1 gs s =
    (case settle_operators t0 t1 (map ni_id (active_nodes (node_registry_of gs)))
            (affiliate_registry_of gs, s, []) of
       ((r, s, payouts), err) \<Rightarrow>
         (gs\<lparr>affiliate_registry_of := r\<rparr>, s,
          case err of Some e \<Rightarrow> Inl (GovBalance e) | None \<Rightarrow> Inr payouts))"

fun set_counts :: "affiliate_registry \<Rightarrow> account_id list \<Rightarrow> node_registry \<Rightarrow> node_registry \<times> registry_error option" where
  "set_counts af [] r = (r, None)"
| "set_counts af (i # is) r =
    (case set_affiliate_count r i (active_affiliate_count af i) of
       Inl e \<Rightarrow> (r, Some e)
     | Inr r \<Rightarrow> set_counts af is r)"

definition sync_affiliate_counts :: "governance_state \<Rightarrow> governance_state \<times> gov_error option" where
  "sync_affiliate_counts gs =
    (case set_counts (affiliate_registry_of gs) (map ni_id (active_nodes (node_registry_of gs)))
            (node_registry_of gs) of
       (r, err) \<Rightarrow> (gs\<lparr>node_registry_of := r\<rparr>, map_option GovRegistry err))"

section \<open>The end of a block\<close>

fun pay_rewards ::
    "crypto \<Rightarrow> (account_id \<times> u64) list \<Rightarrow> sharded_state \<Rightarrow> sharded_state \<times> balance_error option" where
  "pay_rewards cr [] s = (s, None)"
| "pay_rewards cr ((v, amount) # rs) s =
    (let s = ensure_account ss_get (ss_insert cr) v s
     in case credit ss_get ss_modify s v amount of
          Inl e \<Rightarrow> (s, Some e)
        | Inr s \<Rightarrow> pay_rewards cr rs s)"

text \<open>
  The part of \<open>apply_completed_block\<close> under \<open>if !reward_profiles.is_empty()\<close>.
\<close>

definition settle_rewards ::
    "crypto \<Rightarrow> u64 \<Rightarrow> reward_profile list \<Rightarrow> governance_state \<Rightarrow> sharded_state
     \<Rightarrow> governance_state \<times> sharded_state \<times> (gov_error + (account_id \<times> u64) list)" where
  "settle_rewards cr epoch profiles gs s =
    (if profiles = [] then (gs, s, Inr [])
     else let (t, fees) = take_fees (epoch_tracker_of gs);
              gs = gs\<lparr>epoch_tracker_of := t\<rparr>;
              block_reward = epoch_reward_pool epoch (total_minted t) (of_nat (length profiles))
          in case distribute epoch (total_minted t) fees profiles of
               None \<Rightarrow> (gs, s, Inl GovPanic)
             | Some rewards \<Rightarrow>
                 (case pay_rewards cr rewards s of
                    (s, Some e) \<Rightarrow> (gs, s, Inl (GovBalance e))
                  | (s, None) \<Rightarrow>
                      (gs\<lparr>epoch_tracker_of := record_mint t block_reward\<rparr>, s, Inr rewards)))"

definition adjust_admission ::
    "u64 \<Rightarrow> u64 \<Rightarrow> governance_state \<Rightarrow> governance_state \<times> admission_decision \<times> account_id list" where
  "adjust_admission epoch now gs =
    (let epoch_txs = last_epoch_tx_count (epoch_tracker_of gs);
         active_count = of_nat (length (active_nodes (node_registry_of gs)));
         (c, decision) = on_epoch_boundary (admission_controller_of gs) epoch epoch_txs active_count;
         gs = gs\<lparr>admission_controller_of := c\<rparr>
     in if 0 < slots_to_release decision
        then let (r, promoted) = promote_standby (node_registry_of gs) (slots_to_release decision) now
             in (gs\<lparr>node_registry_of := r\<rparr>, decision, promoted)
        else (gs, decision, []))"

definition settle_epoch ::
    "crypto \<Rightarrow> validator_set \<Rightarrow> u64 \<Rightarrow> u64 \<Rightarrow> u64 \<Rightarrow> governance_state \<Rightarrow> sharded_state
     \<Rightarrow> governance_state \<times> sharded_state \<times> (gov_error + epoch_settlement)" where
  "settle_epoch cr vs epoch window_start now gs s =
    (let window_end = window_start + epoch_duration_ms;
         gs = roll_epoch_performance window_end gs
     in case settle_rewards cr epoch (reward_profiles gs vs window_end) gs s of
          (gs, s, Inl e) \<Rightarrow> (gs, s, Inl e)
        | (gs, s, Inr rewards) \<Rightarrow>
            (case settle_affiliate_fees window_start window_end gs s of
               (gs, s, Inl e) \<Rightarrow> (gs, s, Inl e)
             | (gs, s, Inr payouts) \<Rightarrow>
                 (case sync_affiliate_counts gs of
                    (gs, Some e) \<Rightarrow> (gs, s, Inl e)
                  | (gs, None) \<Rightarrow>
                      let (gs, decision, promoted) = adjust_admission epoch now gs
                      in (gs, s, Inr \<lparr>completed_epoch = Some epoch, epoch_rewards = rewards,
                            affiliate_payouts = payouts, settlement_decision = Some decision,
                            promoted_nodes = promoted\<rparr>))))"

definition apply_completed_block ::
    "crypto \<Rightarrow> runtime_governance \<Rightarrow> sharded_state \<Rightarrow> validator_set \<Rightarrow> u64 \<Rightarrow> u64
     \<Rightarrow> runtime_governance \<times> sharded_state \<times> (gov_error + epoch_settlement)" where
  "apply_completed_block cr g s vs charged_tx_count block_timestamp =
    (let (t, completed) = tracker_on_block (epoch_tracker_of (gstate g)) charged_tx_count;
         gs = (gstate g)\<lparr>epoch_tracker_of := t\<rparr>
     in case completed of
          None \<Rightarrow> (g\<lparr>gstate := gs\<rparr>, s, Inr settlement_default)
        | Some epoch \<Rightarrow>
            (case settle_epoch cr vs epoch (epoch_start_ms g epoch) block_timestamp gs s of
               (gs, s, res) \<Rightarrow> (g\<lparr>gstate := gs\<rparr>, s, res)))"

section \<open>Slashing\<close>

definition builder_slash_amount :: "u64 \<Rightarrow> u64" where
  "builder_slash_amount balance =
    (if balance = 0 then 0 else min (max (balance div BUILDER_SLASH_DIVISOR) TX_FEE) balance)"

definition equivocation_slash_amount :: "u64 \<Rightarrow> u64" where
  "equivocation_slash_amount balance = balance"

text \<open>\<open>let _ = node_registry.set_status(id, Suspended)\<close> for a registered node.\<close>

definition suspend :: "account_id \<Rightarrow> runtime_governance \<Rightarrow> runtime_governance" where
  "suspend i g =
    (if get_node (node_registry_of (gstate g)) i \<noteq> None
     then upd_nodes (\<lambda>r. case set_node_status r i Suspended of Inr r' \<Rightarrow> r' | Inl e \<Rightarrow> r) g
     else g)"

text \<open>
  The body that \<open>slash_builder\<close>, \<open>slash_builder_in_tree\<close> and \<open>slash_equivocator\<close> share, over the
  operations of the store and the penalty. A failing credit leaves the debit behind.
\<close>

definition slash ::
    "('s \<Rightarrow> account_id \<Rightarrow> account option) \<Rightarrow> (account_id \<Rightarrow> (account \<Rightarrow> account) \<Rightarrow> 's \<Rightarrow> 's)
     \<Rightarrow> (account \<Rightarrow> 's \<Rightarrow> 's) \<Rightarrow> (u64 \<Rightarrow> u64) \<Rightarrow> account_id \<Rightarrow> runtime_governance \<Rightarrow> 's
     \<Rightarrow> runtime_governance \<times> 's \<times> (gov_error + u64 option)" where
  "slash get modify ins amount_of i g s =
    (case get s i of
       None \<Rightarrow> (suspend i g, s, Inr None)
     | Some a \<Rightarrow>
         let penalty = amount_of (acc_balance a)
         in if penalty = 0 then (suspend i g, s, Inr (Some 0))
            else case debit get modify s i penalty of
              Inl e \<Rightarrow> (g, s, Inl (GovBalance e))
            | Inr s \<Rightarrow>
                let s = ensure_account get ins TREASURY_ACCOUNT s
                in case credit get modify s TREASURY_ACCOUNT penalty of
                     Inl e \<Rightarrow> (g, s, Inl (GovBalance e))
                   | Inr s \<Rightarrow>
                       (if get_node (node_registry_of (gstate g)) i \<noteq> None
                        then note_validator_failure i (suspend i g) else g,
                        s, Inr (Some penalty)))"

definition slash_builder ::
    "crypto \<Rightarrow> account_id \<Rightarrow> runtime_governance \<Rightarrow> sharded_state
     \<Rightarrow> runtime_governance \<times> sharded_state \<times> (gov_error + u64 option)" where
  "slash_builder cr = slash ss_get ss_modify (ss_insert cr) builder_slash_amount"

definition slash_builder_in_tree ::
    "crypto \<Rightarrow> account_id \<Rightarrow> runtime_governance \<Rightarrow> state_tree
     \<Rightarrow> runtime_governance \<times> state_tree \<times> (gov_error + u64 option)" where
  "slash_builder_in_tree cr = slash st_get st_modify (st_insert cr) builder_slash_amount"

definition slash_equivocator ::
    "crypto \<Rightarrow> account_id \<Rightarrow> runtime_governance \<Rightarrow> sharded_state
     \<Rightarrow> runtime_governance \<times> sharded_state \<times> (gov_error + u64 option)" where
  "slash_equivocator cr = slash ss_get ss_modify (ss_insert cr) equivocation_slash_amount"

section \<open>Admission of validators\<close>

text \<open>
  ML-DSA-44 key generation is a parameter: \<open>keygen seed\<close> is the public key, or \<open>None\<close> on failure.
\<close>

definition derive_devnet_signing_seed :: "crypto \<Rightarrow> account_id \<Rightarrow> hash32" where
  "derive_devnet_signing_seed cr i = sha256 cr (ascii ''ACE-DEVNET-SIGN'' @ bytes32 i)"

definition devnet_signing_pubkey :: "crypto \<Rightarrow> (hash32 \<Rightarrow> bytes option) \<Rightarrow> account_id \<Rightarrow> tagged_pubkey option" where
  "devnet_signing_pubkey cr keygen i =
    map_option (\<lambda>b. \<lparr>pk_alg = MlDsa44, pk_bytes = b\<rparr>) (keygen (derive_devnet_signing_seed cr i))"

definition validate_approve_validator_sender :: "account_id option \<Rightarrow> account_id \<Rightarrow> gov_error + unit" where
  "validate_approve_validator_sender founder sender =
    (case founder of
       None \<Rightarrow> Inl AdmissionDisabled
     | Some f \<Rightarrow> if sender \<noteq> f then Inl NotFounder else Inr ())"

definition validate_admission_policy :: "string \<Rightarrow> gov_error + unit" where
  "validate_admission_policy policy =
    (if policy = ''devnet-derived'' \<or> policy = ''founder-provided'' then Inr ()
     else Inl UnsupportedPolicy)"

definition parse_signing_pubkey :: "bytes \<Rightarrow> gov_error + tagged_pubkey" where
  "parse_signing_pubkey b =
    (if length b = 0 then Inl EmptyPubkey
     else if length b = 32 then Inr \<lparr>pk_alg = Ed25519, pk_bytes = b\<rparr>
     else if length b = 1312 then Inr \<lparr>pk_alg = MlDsa44, pk_bytes = b\<rparr>
     else Inl BadPubkeyLength)"

definition policy_check ::
    "crypto \<Rightarrow> (hash32 \<Rightarrow> bytes option) \<Rightarrow> string \<Rightarrow> account_id \<Rightarrow> tagged_pubkey \<Rightarrow> gov_error option" where
  "policy_check cr keygen policy candidate pk =
    (if policy = ''devnet-derived''
     then (case devnet_signing_pubkey cr keygen candidate of
             None \<Rightarrow> Some KeygenFailed
           | Some expected \<Rightarrow> if pk \<noteq> expected then Some NotDevnetKey else None)
     else if policy = ''founder-provided'' then None
     else Some UnsupportedPolicy)"

definition admitted_node :: "account_id \<Rightarrow> u64 \<Rightarrow> node_info" where
  "admitted_node candidate t =
    \<lparr>ni_id = candidate, ni_status = Active, ni_registered_at = t, ni_activated_at = t,
     ni_label = [], ni_affiliate_count = 0, ni_jurisdiction = [],
     ni_kyc_status = KycApproved, ni_kyc_reviewed_at = t, ni_kyc_expires_at = None,
     ni_natural_person = True, ni_standby_rank = None, ni_perf_ema_bps = DEFAULT_PERF_EMA_BPS,
     ni_successes = 0, ni_failures = 0\<rparr>"

definition admit_validator ::
    "crypto \<Rightarrow> (hash32 \<Rightarrow> bytes option) \<Rightarrow> runtime_governance \<Rightarrow> account_id \<Rightarrow> account_id \<Rightarrow> bytes
     \<Rightarrow> validator_set \<Rightarrow> u64 \<Rightarrow> runtime_governance \<times> validator_set \<times> (gov_error + validator)" where
  "admit_validator cr keygen g sender candidate pk_raw vs t =
    (case validate_approve_validator_sender (founder_id_com g) sender of
       Inl e \<Rightarrow> (g, vs, Inl e)
     | Inr _ \<Rightarrow>
       if get_node (node_registry_of (gstate g)) candidate \<noteq> None then (g, vs, Inl ValidatorRegistered)
       else if \<not> has_capacity (node_registry_of (gstate g)) then (g, vs, Inl RegistryFull)
       else case parse_signing_pubkey pk_raw of
         Inl e \<Rightarrow> (g, vs, Inl e)
       | Inr pk \<Rightarrow>
         (case policy_check cr keygen (validator_admission_policy g) candidate pk of
            Some e \<Rightarrow> (g, vs, Inl e)
          | None \<Rightarrow>
            if list_ex (\<lambda>v. v_signing_pubkey v = pk) (vs_validators vs) then (g, vs, Inl PubkeyTaken)
            else let v = \<lparr>v_id_com = candidate, v_stake = APPROVED_VALIDATOR_STAKE,
                          v_index = of_nat (vs_len vs), v_signing_pubkey = pk,
                          v_capabilities = \<lparr>evm_core = True, btc_payments = False, solana_light = False\<rparr>\<rparr>
              in case add_validator vs v of
                   Inl e \<Rightarrow> (g, vs, Inl (GovVset e))
                 | Inr vs \<Rightarrow>
                   (case register_node (node_registry_of (gstate g)) (admitted_node candidate t) of
                      Inl e \<Rightarrow> (g, vs, Inl (GovRegistry e))
                    | Inr r \<Rightarrow>
                      (g\<lparr>gstate := (gstate g)\<lparr>node_registry_of := r,
                           approved_validators := approved_validators (gstate g) @ [v]\<rparr>\<rparr>,
                       vs, Inr v))))"

definition effective_validator_set :: "runtime_governance \<Rightarrow> validator_set \<Rightarrow> u64 \<Rightarrow> validator_set" where
  "effective_validator_set g vs now =
    vs_filtered vs (ni_id ` set (filter (\<lambda>n. is_consensus_eligible n now)
                                   (active_nodes (node_registry_of (gstate g)))))"

section \<open>Payments\<close>

lemma pay_rewards_total:
  assumes "ss_wf s" and "ss_total bal s + nat_sum (map snd rs) < 2 ^ 64"
  shows "\<exists>s'. pay_rewards cr rs s = (s', None) \<and> ss_wf s'
    \<and> ss_total bal s' = ss_total bal s + nat_sum (map snd rs)"
  using assms
proof (induction rs arbitrary: s)
  case Nil
  then show ?case by simp
next
  case (Cons r rs)
  obtain v amount where r: "r = (v, amount)" by (cases r)
  let ?s = "ensure_account ss_get (ss_insert cr) v s"
  note ens = ss.ensure_account_total [OF Cons.prems(1), of cr v]
  obtain a where a: "ss_get ?s v = Some a" using ens by blast
  have room: "ss_total bal ?s + unat amount < 2 ^ 64"
    using Cons.prems(2) ens r by simp
  obtain s2 where s2: "credit ss_get ss_modify ?s v amount = Inr s2"
    using ss.credit_succeeds [OF ens [THEN conjunct1] a room] by blast
  note tot = ss.credit_total [OF ens [THEN conjunct1] s2]
  have "ss_total bal s2 + nat_sum (map snd rs) < 2 ^ 64"
    using Cons.prems(2) ens tot r by simp
  from Cons.IH [OF tot [THEN conjunct1] this] show ?case
    using ens tot s2 r by (auto simp: Let_def)
qed

lemma move_fee_total:
  assumes "ss_wf s" and "ss_get s payer = Some a" and "amount \<le> acc_balance a"
    and "ss_get s payee = Some b" and "ss_total bal s < 2 ^ 64"
  shows "\<exists>s'. move_fee payer payee amount s = (s', None) \<and> ss_wf s' \<and> ss_total bal s' = ss_total bal s"
proof -
  have "\<exists>s1. debit ss_get ss_modify s payer amount = Inr s1"
    using assms(2,3) by (simp add: debit_def leD)
  then obtain s1 where s1: "debit ss_get ss_modify s payer amount = Inr s1" by blast
  note tot1 = ss.debit_total [OF assms(1) s1]
  obtain b' where b': "ss_get s1 payee = Some b'"
    using ss.debit_get [OF assms(1) s1, of payee] assms(4) by (auto split: if_splits)
  have "ss_total bal s1 + unat amount < 2 ^ 64" using tot1 assms(5) by simp
  then obtain s2 where s2: "credit ss_get ss_modify s1 payee amount = Inr s2"
    using ss.credit_succeeds [OF tot1 [THEN conjunct1] b'] by blast
  show ?thesis
    using ss.credit_total [OF tot1 [THEN conjunct1] s2] tot1 s1 s2 by (simp add: move_fee_def)
qed

definition loop_ok :: "nat \<Rightarrow> fee_loop \<times> balance_error option \<Rightarrow> bool" where
  "loop_ok m = (\<lambda>((r, s, payouts), err). err = None \<and> ss_wf s \<and> ss_total bal s = m)"

lemma settle_affiliate_ok:
  assumes "ss_wf s" and "ss_total bal s < 2 ^ 64"
  shows "loop_ok (ss_total bal s) (settle_affiliate t0 t1 operator x (r, s, payouts))"
proof (cases "ss_get s operator = None \<or> ss_get s (af_id x) = None")
  case True
  then show ?thesis using assms by (auto simp: settle_affiliate_def loop_ok_def Let_def)
next
  case False
  then obtain a b where a: "ss_get s (af_id x) = Some a" and b: "ss_get s operator = Some b" by auto
  let ?c = "min (affiliate_fee_for_window r x t0 t1) (acc_balance a)"
  obtain s' where "move_fee (af_id x) operator ?c s = (s', None)" "ss_wf s'"
      "ss_total bal s' = ss_total bal s"
    using move_fee_total [OF assms(1) a _ b assms(2), of ?c] by auto
  then show ?thesis
    using assms a b by (simp add: settle_affiliate_def loop_ok_def Let_def)
qed

lemma settle_affiliates_ok:
  assumes "ss_wf s" and "ss_total bal s < 2 ^ 64"
  shows "loop_ok (ss_total bal s) (settle_affiliates t0 t1 operator xs (r, s, payouts))"
  using assms
proof (induction xs arbitrary: r s payouts)
  case Nil
  then show ?case by (simp add: loop_ok_def)
next
  case (Cons x xs)
  obtain r' s' p' e where st: "settle_affiliate t0 t1 operator x (r, s, payouts) = ((r', s', p'), e)"
    by (cases "settle_affiliate t0 t1 operator x (r, s, payouts)") auto
  have "e = None" "ss_wf s'" "ss_total bal s' = ss_total bal s"
    using settle_affiliate_ok [OF Cons.prems, of t0 t1 operator x r payouts] st
    by (simp_all add: loop_ok_def)
  then show ?case using Cons.IH [of s' r' p'] Cons.prems(2) st by simp
qed

lemma settle_operators_ok:
  assumes "ss_wf s" and "ss_total bal s < 2 ^ 64"
  shows "loop_ok (ss_total bal s) (settle_operators t0 t1 os (r, s, payouts))"
  using assms
proof (induction os arbitrary: r s payouts)
  case Nil
  then show ?case by (simp add: loop_ok_def)
next
  case (Cons x xs)
  let ?l = "settle_affiliates t0 t1 x (get_affiliates r x) (r, s, payouts)"
  obtain r' s' p' e where st: "?l = ((r', s', p'), e)" by (cases ?l) auto
  have "e = None" "ss_wf s'" "ss_total bal s' = ss_total bal s"
    using settle_affiliates_ok [OF Cons.prems, of t0 t1 x "get_affiliates r x" r payouts] st
    by (simp_all add: loop_ok_def)
  then show ?case using Cons.IH [of s' r' p'] Cons.prems(2) st by simp
qed

lemma settle_affiliate_fees_ok:
  assumes "ss_wf s" and "ss_total bal s < 2 ^ 64"
  shows "\<exists>r s' ps. settle_affiliate_fees t0 t1 gs s = (gs\<lparr>affiliate_registry_of := r\<rparr>, s', Inr ps)
    \<and> ss_wf s' \<and> ss_total bal s' = ss_total bal s"
proof -
  let ?l = "settle_operators t0 t1 (map ni_id (active_nodes (node_registry_of gs)))
              (affiliate_registry_of gs, s, [])"
  obtain r s' ps e where st: "?l = ((r, s', ps), e)" by (cases ?l) auto
  show ?thesis
    using settle_operators_ok [OF assms, of t0 t1 "map ni_id (active_nodes (node_registry_of gs))"
        "affiliate_registry_of gs" "[]"] st
    by (auto simp: settle_affiliate_fees_def loop_ok_def)
qed

section \<open>Registry upkeep\<close>

lemma nr_wf_foldl_modify:
  "nr_wf r \<Longrightarrow> (\<And>n. ni_id (f n) = ni_id n) \<Longrightarrow> nr_wf (foldl (\<lambda>r x. modify_node (h x) f r) r xs)"
  by (induction xs arbitrary: r) (simp_all add: nr_wf_modify)

lemma ni_id_roll_node [simp]: "ni_id (roll_node now n) = ni_id n"
  by (simp add: roll_node_def Let_def)

lemma nr_wf_roll:
  "nr_wf (node_registry_of gs) \<Longrightarrow> nr_wf (node_registry_of (roll_epoch_performance now gs))"
  by (simp add: roll_epoch_performance_def nr_wf_foldl_modify)

lemma set_counts_ok:
  assumes "nr_wf r" and "\<forall>i \<in> set is. get_node r i \<noteq> None"
  shows "\<exists>r'. set_counts af is r = (r', None) \<and> nr_wf r'"
  using assms
proof (induction "is" arbitrary: r)
  case (Cons i "is")
  let ?r = "modify_node i (\<lambda>n. n\<lparr>ni_affiliate_count := active_affiliate_count af i\<rparr>) r"
  have "set_affiliate_count r i (active_affiliate_count af i) = Inr ?r"
    using Cons.prems(2) by (auto simp: set_affiliate_count_def)
  moreover have "\<forall>j \<in> set is. get_node ?r j \<noteq> None"
    using Cons.prems(2) by (auto simp: get_node_def modify_node_def)
  ultimately show ?case
    using Cons.IH [of ?r] Cons.prems(1) by (simp add: nr_wf_modify)
qed simp

lemma active_nodes_registered:
  assumes "nr_wf r" and "n \<in> set (active_nodes r)"
  shows "get_node r (ni_id n) = Some n"
proof -
  obtain i where "(i, n) \<in> set (nr_nodes r)"
    using assms(2) by (auto simp: active_nodes_def nodes_with_def)
  moreover from this have "ni_id n = i"
    using assms(1) by (auto simp: nr_wf_def)
  ultimately show ?thesis
    using assms(1) by (simp add: get_node_def nr_wf_def bt_wf_distinct)
qed

lemma sync_affiliate_counts_ok:
  assumes "nr_wf (node_registry_of gs)"
  shows "\<exists>r. sync_affiliate_counts gs = (gs\<lparr>node_registry_of := r\<rparr>, None) \<and> nr_wf r"
proof -
  have "\<forall>i \<in> set (map ni_id (active_nodes (node_registry_of gs))). get_node (node_registry_of gs) i \<noteq> None"
    using active_nodes_registered [OF assms] by auto
  from set_counts_ok [OF assms this, of "affiliate_registry_of gs"] show ?thesis
    by (auto simp: sync_affiliate_counts_def)
qed

section \<open>Settlement of an epoch\<close>

lemma settle_rewards_exact:
  fixes gs :: governance_state
  defines "t \<equiv> epoch_tracker_of gs"
  assumes wf: "ss_wf s" and len: "length ps < 2 ^ 32"
    and cap: "unat (total_minted t) \<le> unat MAX_SUPPLY"
    and room: "ss_total bal s + unat INITIAL_DAILY_REWARD + unat (accumulated_fees t) < 2 ^ 64"
  shows "\<exists>t' s' rs. settle_rewards cr epoch ps gs s = (gs\<lparr>epoch_tracker_of := t'\<rparr>, s', Inr rs)
    \<and> ss_wf s' \<and> unat (total_minted t') \<le> unat MAX_SUPPLY
    \<and> ss_total bal s' = ss_total bal s + nat_sum (map snd rs)
    \<and> nat_sum (map snd rs) + unat (accumulated_fees t') + unat (total_minted t)
        = unat (accumulated_fees t) + unat (total_minted t')
    \<and> nat_sum (map snd rs) \<le> unat INITIAL_DAILY_REWARD + unat (accumulated_fees t)
    \<and> (ps \<noteq> [] \<longrightarrow> accumulated_fees t' = 0)"
proof (cases "ps = []")
  case True
  have "gs\<lparr>epoch_tracker_of := t\<rparr> = gs" by (simp add: t_def)
  then show ?thesis
    using True wf cap by (intro exI [of _ t] exI [of _ s] exI [of _ "[]"]) (simp add: settle_rewards_def)
next
  case False
  let ?m = "total_minted t" and ?f = "accumulated_fees t"
  let ?pool = "epoch_reward_pool epoch ?m (of_nat (length ps))"
  let ?t = "record_mint (t\<lparr>accumulated_fees := 0\<rparr>) ?pool"
  have pool: "unat ?pool \<le> unat INITIAL_DAILY_REWARD"
    using pool_le_schedule [of epoch ?m "of_nat (length ps)"] by (rule order.trans) simp
  obtain rs where rs: "distribute epoch ?m ?f ps = Some rs"
      and sum: "nat_sum (map snd rs) = unat (saturating_add ?pool ?f)"
    using distribute_total [OF False len, of epoch ?m ?f] by blast
  have "unat ?pool + unat ?f < 2 ^ 64" using pool room by linarith
  then have sum': "nat_sum (map snd rs) = unat ?pool + unat ?f"
    using sum by (simp add: unat_saturating_add)
  have "ss_total bal s + nat_sum (map snd rs) < 2 ^ 64" using sum' pool room by linarith
  then obtain s' where s': "pay_rewards cr rs s = (s', None)" "ss_wf s'"
      "ss_total bal s' = ss_total bal s + nat_sum (map snd rs)"
    using pay_rewards_total [OF wf] by blast
  have mint: "unat (total_minted ?t) = unat ?m + unat ?pool \<and> unat (total_minted ?t) \<le> unat MAX_SUPPLY"
    using record_mint_bounded [of "t\<lparr>accumulated_fees := 0\<rparr>" ?pool epoch "of_nat (length ps)"] cap by simp
  have "settle_rewards cr epoch ps gs s = (gs\<lparr>epoch_tracker_of := ?t\<rparr>, s', Inr rs)"
    using False rs s'(1) by (simp add: settle_rewards_def take_fees_def t_def Let_def)
  then show ?thesis
    using s' mint sum' pool by (intro exI [of _ ?t] exI [of _ s'] exI [of _ rs]) (simp add: record_mint_def)
qed

lemma adjust_admission_frame:
  assumes "nr_wf (node_registry_of gs)" and "adjust_admission epoch now gs = (gs', d, ps)"
  shows "nr_wf (node_registry_of gs')" and "epoch_tracker_of gs' = epoch_tracker_of gs"
proof -
  have "nr_wf (fst (promote_standby (node_registry_of gs) k now))" for k
    using promote_standby_effect [OF assms(1), of k now]
    by (cases "promote_standby (node_registry_of gs) k now") simp
  then show "nr_wf (node_registry_of gs')" and "epoch_tracker_of gs' = epoch_tracker_of gs"
    using assms by (auto simp: adjust_admission_def Let_def split: prod.splits if_splits) (metis fst_conv)
qed

lemma reward_profiles_length: "length (reward_profiles gs vs now) \<le> length (vs_validators vs)"
  by (simp add: reward_profiles_def map_filter_def)

lemma settle_epoch_exact:
  fixes gs :: governance_state
  defines "t \<equiv> epoch_tracker_of gs"
  assumes wf: "ss_wf s" and nodes: "nr_wf (node_registry_of gs)"
    and len: "length (vs_validators vs) < 2 ^ 32"
    and cap: "unat (total_minted t) \<le> unat MAX_SUPPLY"
    and room: "ss_total bal s + unat INITIAL_DAILY_REWARD + unat (accumulated_fees t) < 2 ^ 64"
  shows "\<exists>gs' s' st. settle_epoch cr vs epoch t0 now gs s = (gs', s', Inr st)
    \<and> ss_wf s' \<and> nr_wf (node_registry_of gs') \<and> completed_epoch st = Some epoch
    \<and> unat (total_minted (epoch_tracker_of gs')) \<le> unat MAX_SUPPLY
    \<and> ss_total bal s' = ss_total bal s + nat_sum (map snd (epoch_rewards st))
    \<and> nat_sum (map snd (epoch_rewards st)) + unat (accumulated_fees (epoch_tracker_of gs'))
        + unat (total_minted t) = unat (accumulated_fees t) + unat (total_minted (epoch_tracker_of gs'))"
proof -
  let ?t1 = "t0 + epoch_duration_ms"
  define gs1 where "gs1 = roll_epoch_performance ?t1 gs"
  let ?ps = "reward_profiles gs1 vs ?t1"
  have t: "epoch_tracker_of gs1 = t" by (simp add: gs1_def roll_epoch_performance_def t_def)
  have n1: "nr_wf (node_registry_of gs1)" using nr_wf_roll [OF nodes] by (simp add: gs1_def)
  have "length ?ps < 2 ^ 32" using reward_profiles_length [of gs1 vs ?t1] len by linarith
  from settle_rewards_exact [OF wf this, of gs1 cr epoch, unfolded t, OF cap room]
  obtain t' s1 rs where pay: "settle_rewards cr epoch ?ps gs1 s = (gs1\<lparr>epoch_tracker_of := t'\<rparr>, s1, Inr rs)"
      and s1: "ss_wf s1" "ss_total bal s1 = ss_total bal s + nat_sum (map snd rs)"
      and cap': "unat (total_minted t') \<le> unat MAX_SUPPLY"
      and rs: "nat_sum (map snd rs) \<le> unat INITIAL_DAILY_REWARD + unat (accumulated_fees t)"
      and mint: "nat_sum (map snd rs) + unat (accumulated_fees t') + unat (total_minted t)
        = unat (accumulated_fees t) + unat (total_minted t')"
    by blast
  have small: "ss_total bal s1 < 2 ^ 64" using s1(2) rs room by linarith
  let ?gs2 = "gs1\<lparr>epoch_tracker_of := t'\<rparr>"
  obtain af s2 fs where fees: "settle_affiliate_fees t0 ?t1 ?gs2 s1
        = (?gs2\<lparr>affiliate_registry_of := af\<rparr>, s2, Inr fs)"
      and s2: "ss_wf s2" "ss_total bal s2 = ss_total bal s1"
    using settle_affiliate_fees_ok [OF s1(1) small] by blast
  let ?gs3 = "?gs2\<lparr>affiliate_registry_of := af\<rparr>"
  obtain r where sync: "sync_affiliate_counts ?gs3 = (?gs3\<lparr>node_registry_of := r\<rparr>, None)" "nr_wf r"
    using sync_affiliate_counts_ok [of ?gs3] n1 by auto
  let ?gs4 = "?gs3\<lparr>node_registry_of := r\<rparr>"
  obtain gs5 d ps where adj: "adjust_admission epoch now ?gs4 = (gs5, d, ps)"
    by (cases "adjust_admission epoch now ?gs4") auto
  have "epoch_tracker_of gs5 = t'" "nr_wf (node_registry_of gs5)"
    using adjust_admission_frame [OF _ adj] sync(2) by simp_all
  then show ?thesis
    using pay fees sync adj s1 s2 cap' mint
    by (simp add: settle_epoch_def Let_def flip: gs1_def)
qed

text \<open>
  C5: the end of a block settles exactly. When the balances leave room for a day's issuance
  and the collected fees, the settlement never fails, and the money is accounted for: the
  total of all balances plus the fees still held, less what was ever minted, stays as it was
  once the block's fees are added, whether or not the block completes an epoch; what accounts
  gain in total is what the settlement lists as rewards (affiliate fees only move); and the
  minted amount never passes the supply cap.
\<close>

theorem block_settlement_exact:
  fixes g :: runtime_governance
  assumes "ss_wf s" and "nr_wf (node_registry_of (gstate g))"
    and "length (vs_validators vs) < 2 ^ 32"
    and "unat (total_minted (epoch_tracker_of (gstate g))) \<le> unat MAX_SUPPLY"
    and "ss_total bal s + unat INITIAL_DAILY_REWARD
          + unat (accumulated_fees (fst (tracker_on_block (epoch_tracker_of (gstate g)) txs))) < 2 ^ 64"
    and "apply_completed_block cr g s vs txs now = (g', s', res)"
  shows "\<exists>st. res = Inr st \<and> ss_wf s' \<and> nr_wf (node_registry_of (gstate g'))
    \<and> unat (total_minted (epoch_tracker_of (gstate g'))) \<le> unat MAX_SUPPLY
    \<and> ss_total bal s' = ss_total bal s + nat_sum (map snd (epoch_rewards st))
    \<and> ss_total bal s' + unat (accumulated_fees (epoch_tracker_of (gstate g')))
          + unat (total_minted (epoch_tracker_of (gstate g)))
        = ss_total bal s
          + unat (accumulated_fees (fst (tracker_on_block (epoch_tracker_of (gstate g)) txs)))
          + unat (total_minted (epoch_tracker_of (gstate g')))"
proof -
  obtain t e where t: "tracker_on_block (epoch_tracker_of (gstate g)) txs = (t, e)"
    by (cases "tracker_on_block (epoch_tracker_of (gstate g)) txs")
  have mint: "total_minted t = total_minted (epoch_tracker_of (gstate g))"
    using t by (auto simp: tracker_on_block_def Let_def split: if_splits)
  let ?gs = "(gstate g)\<lparr>epoch_tracker_of := t\<rparr>"
  show ?thesis
  proof (cases e)
    case None
    then show ?thesis
      using assms t mint by (auto simp: apply_completed_block_def settlement_default_def)
  next
    case (Some epoch)
    from settle_epoch_exact [OF assms(1) _ assms(3), of ?gs cr epoch "epoch_start_ms g epoch" now]
    obtain gs' s2 st where st: "settle_epoch cr vs epoch (epoch_start_ms g epoch) now ?gs s = (gs', s2, Inr st)"
        and ok: "ss_wf s2" "nr_wf (node_registry_of gs')"
          "unat (total_minted (epoch_tracker_of gs')) \<le> unat MAX_SUPPLY"
          "ss_total bal s2 = ss_total bal s + nat_sum (map snd (epoch_rewards st))"
          "nat_sum (map snd (epoch_rewards st)) + unat (accumulated_fees (epoch_tracker_of gs'))
             + unat (total_minted t) = unat (accumulated_fees t) + unat (total_minted (epoch_tracker_of gs'))"
      using assms(2,4,5) t mint by auto
    have "g' = g\<lparr>gstate := gs'\<rparr>" "s' = s2" "res = Inr st"
      using assms(6) t st Some by (simp_all add: apply_completed_block_def Let_def)
    then show ?thesis
      using ok t mint by simp
  qed
qed

definition sample_gov :: runtime_governance where
  "sample_gov = \<lparr>
     gstate = \<lparr>epoch_tracker_of = tracker_with_checkpoint 3 0 5 215999,
       node_registry_of = nr_from_genesis [sample_node 1 Active None, sample_node 2 Active None,
          sample_node 3 Standby None] 100,
       affiliate_registry_of = af_new, admission_controller_of = admission_new 2,
       genesis_config_hash_of = None, approved_validators = []\<rparr>,
     gsnapshots = [], persistence_path = None, genesis_time_ms = 0, leader_miss_counts = [],
     founder_id_com = Some 9, validator_admission_policy = ''founder-provided''\<rparr>"

definition sample_gov_set :: validator_set where
  "sample_gov_set = vs_new [sample_validator 1 100, sample_validator 2 100]"

definition sample_settled :: "runtime_governance \<times> sharded_state \<times> (gov_error + epoch_settlement)" where
  "sample_settled = apply_completed_block sample_crypto_len sample_gov sample_sharded sample_gov_set 7 86400000"

lemma sample_settled_rewards:
  "(case snd (snd sample_settled) of Inr st \<Rightarrow> epoch_rewards st | Inl e \<Rightarrow> []) = [(1, 100000070002), (2, 100000070003)]"
  by code_simp

lemma sample_gov_wf:
  "nr_wf (node_registry_of (gstate sample_gov))" "length (vs_validators sample_gov_set) < 2 ^ 32"
  "unat (total_minted (epoch_tracker_of (gstate sample_gov))) \<le> unat MAX_SUPPLY"
  "ss_total bal sample_sharded + unat INITIAL_DAILY_REWARD
     + unat (accumulated_fees (fst (tracker_on_block (epoch_tracker_of (gstate sample_gov)) 7))) < 2 ^ 64"
proof -
  show "nr_wf (node_registry_of (gstate sample_gov))"
    by (simp add: sample_gov_def nr_wf_genesis)
  have "length (vs_validators sample_gov_set) = 2" by code_simp
  then show "length (vs_validators sample_gov_set) < 2 ^ 32" by simp
  show "unat (total_minted (epoch_tracker_of (gstate sample_gov))) \<le> unat MAX_SUPPLY"
    by (simp add: sample_gov_def tracker_with_checkpoint_def)
  have "accumulated_fees (fst (tracker_on_block (epoch_tracker_of (gstate sample_gov)) 7)) = 140005"
    by code_simp
  moreover have "ss_total bal sample_sharded \<le> 1000" by code_simp
  ultimately show "ss_total bal sample_sharded + unat INITIAL_DAILY_REWARD
     + unat (accumulated_fees (fst (tracker_on_block (epoch_tracker_of (gstate sample_gov)) 7))) < 2 ^ 64"
    by (simp add: INITIAL_DAILY_REWARD_def)
qed

theorem block_settlement_exact_witness:
  "ss_total bal (fst (snd sample_settled)) = ss_total bal sample_sharded + 200000140005"
proof -
  obtain g' s' res where r: "sample_settled = (g', s', res)" by (cases sample_settled) auto
  obtain st where st: "res = Inr st"
      and tot: "ss_total bal s' = ss_total bal sample_sharded + nat_sum (map snd (epoch_rewards st))"
    using block_settlement_exact [OF ss_wf_sample sample_gov_wf r [unfolded sample_settled_def]] by blast
  have "epoch_rewards st = [(1, 100000070002), (2, 100000070003)]"
    using sample_settled_rewards unfolding r st by simp
  then show ?thesis using tot unfolding r by simp
qed

section \<open>Slashing moves exactly the penalty\<close>

definition opt_balance :: "account option \<Rightarrow> nat" where
  "opt_balance x = opt_val bal x"

lemma opt_balance_simps [simp]: "opt_balance None = 0" "opt_balance (Some a) = unat (acc_balance a)"
  by (simp_all add: opt_balance_def bal_def)

lemma suspend_status:
  "get_node (node_registry_of (gstate (suspend i g))) i
    = map_option (\<lambda>n. let n = n\<lparr>ni_status := Suspended\<rparr> in n) (get_node (node_registry_of (gstate g)) i)"
  by (cases "get_node (node_registry_of (gstate g)) i")
     (simp_all add: suspend_def upd_nodes_def set_node_status_def get_node_def modify_node_def Let_def)

context account_store
begin

lemma slash_effect:
  assumes wf: "swf s" and small: "stot bal s < 2 ^ 64" and le: "\<And>x. amount_of x \<le> x"
    and a: "sget s i = Some a" and r: "slash sget smod sins amount_of i g s = (g', s', res)"
  shows "res = Inr (Some (amount_of (acc_balance a))) \<and> swf s' \<and> stot bal s' = stot bal s
    \<and> (\<forall>j. j \<noteq> i \<longrightarrow> j \<noteq> TREASURY_ACCOUNT \<longrightarrow> sget s' j = sget s j)
    \<and> (i \<noteq> TREASURY_ACCOUNT \<longrightarrow>
        sget s' i = Some (a\<lparr>acc_balance := acc_balance a - amount_of (acc_balance a)\<rparr>) \<and>
        opt_balance (sget s' TREASURY_ACCOUNT)
          = opt_balance (sget s TREASURY_ACCOUNT) + unat (amount_of (acc_balance a)))"
proof (cases "amount_of (acc_balance a) = 0")
  case True
  then show ?thesis using r a wf by (auto simp: slash_def)
next
  case False
  let ?p = "amount_of (acc_balance a)" and ?T = TREASURY_ACCOUNT
  have "\<exists>s1. debit sget smod s i ?p = Inr s1"
    using a le [of "acc_balance a"] by (simp add: debit_def leD)
  then obtain s1 where s1: "debit sget smod s i ?p = Inr s1" by blast
  note d = debit_total [OF wf s1]
  define s2 where "s2 = ensure_account sget sins ?T s1"
  note e = ensure_account_total [OF d [THEN conjunct1], of ?T, folded s2_def]
  obtain b where b: "sget s2 ?T = Some b" using e by blast
  have room: "stot bal s2 + unat ?p < 2 ^ 64" using d e small by simp
  obtain s3 where s3: "credit sget smod s2 ?T ?p = Inr s3"
    using credit_succeeds [OF e [THEN conjunct1] b room] by blast
  note c = credit_total [OF e [THEN conjunct1] s3]
  have res: "res = Inr (Some ?p)" "s' = s3"
    using r a False s1 s3 by (simp_all add: slash_def Let_def flip: s2_def)
  have tb: "opt_balance (sget s2 ?T) = opt_balance (sget s1 ?T)"
    by (auto simp: s2_def ensure_account_def sget_ins d account_new_def)
  have "unat (acc_balance b) + unat ?p < 2 ^ 64"
    using bal_le_total [OF e [THEN conjunct1] b] room by (simp add: bal_def)
  then have add: "unat (acc_balance b + ?p) = unat (acc_balance b) + unat ?p"
    by (subst unat_add_lem [THEN iffD1]) simp_all
  have s3T: "sget s3 ?T = Some (b\<lparr>acc_balance := acc_balance b + ?p\<rparr>)"
    using credit_get [OF e [THEN conjunct1] s3, of ?T] b by simp
  have other: "sget s3 j = sget s1 j" if "j \<noteq> ?T" for j
    using credit_get [OF e [THEN conjunct1] s3, of j] e that by simp
  show ?thesis
    using res c d e other debit_get [OF wf s1] a False s3T tb b add by auto
qed

end

lemma builder_slash_le: "builder_slash_amount x \<le> x"
  by (simp add: builder_slash_amount_def)

lemma equivocation_slash_le: "equivocation_slash_amount x \<le> x"
  by (simp add: equivocation_slash_amount_def)

lemma slash_suspends:
  assumes "slash get modify ins amount_of i g s = (g', s', Inr p)"
    and "get_node (node_registry_of (gstate g)) i = Some n"
  shows "\<exists>n'. get_node (node_registry_of (gstate g')) i = Some n' \<and> ni_status n' = Suspended"
proof -
  have g': "g' = suspend i g \<or> g' = note_validator_failure i (suspend i g)"
    using assms by (auto simp: slash_def Let_def split: option.splits sum.splits if_splits)
  have "get_node (node_registry_of (gstate (suspend i g))) i = Some (n\<lparr>ni_status := Suspended\<rparr>)"
    using suspend_status [of i g] assms(2) by simp
  then show ?thesis
    using g' by (auto simp: note_validator_failure_def upd_nodes_def get_node_def modify_node_def)
qed

text \<open>
  C23: slashing moves exactly the penalty. With the total of the balances below 2^64 it never
  fails: the builder loses a hundredth of its balance, at least the fee of one transaction and
  never more than it has, the equivocator loses everything; the treasury gains exactly that, no
  other account changes and the total stays; and the node, when registered, is suspended.
\<close>

theorem slashing_exact:
  assumes "ss_wf s" and "ss_total bal s < 2 ^ 64" and "ss_get s i = Some a" and "i \<noteq> TREASURY_ACCOUNT"
    and "get_node (node_registry_of (gstate g)) i = Some n"
    and "slash_builder cr i g s = (g1, s1, r1)" and "slash_equivocator cr i g s = (g2, s2, r2)"
  shows "(let p = min (max (acc_balance a div 100) 20000) (acc_balance a) in
      r1 = Inr (Some p) \<and> ss_wf s1 \<and> ss_total bal s1 = ss_total bal s \<and>
      ss_get s1 i = Some (a\<lparr>acc_balance := acc_balance a - p\<rparr>) \<and>
      opt_balance (ss_get s1 TREASURY_ACCOUNT) = opt_balance (ss_get s TREASURY_ACCOUNT) + unat p)
    \<and> r2 = Inr (Some (acc_balance a)) \<and> ss_wf s2 \<and> ss_total bal s2 = ss_total bal s
    \<and> ss_get s2 i = Some (a\<lparr>acc_balance := 0\<rparr>)
    \<and> opt_balance (ss_get s2 TREASURY_ACCOUNT)
        = opt_balance (ss_get s TREASURY_ACCOUNT) + unat (acc_balance a)
    \<and> (\<forall>j. j \<noteq> i \<longrightarrow> j \<noteq> TREASURY_ACCOUNT \<longrightarrow> ss_get s1 j = ss_get s j \<and> ss_get s2 j = ss_get s j)
    \<and> (\<forall>g' \<in> {g1, g2}. \<exists>n'. get_node (node_registry_of (gstate g')) i = Some n' \<and> ni_status n' = Suspended)"
proof -
  note b = ss.slash_effect [OF assms(1,2) builder_slash_le assms(3) assms(6) [unfolded slash_builder_def]]
  note e = ss.slash_effect [OF assms(1,2) equivocation_slash_le assms(3) assms(7) [unfolded slash_equivocator_def]]
  have p: "builder_slash_amount (acc_balance a) = min (max (acc_balance a div 100) 20000) (acc_balance a)"
    by (cases "acc_balance a = 0") (simp_all add: builder_slash_amount_def BUILDER_SLASH_DIVISOR_def TX_FEE_def)
  have "\<exists>n'. get_node (node_registry_of (gstate g1)) i = Some n' \<and> ni_status n' = Suspended"
    by (rule slash_suspends [OF assms(6) [unfolded slash_builder_def conjunct1 [OF b]] assms(5)])
  moreover have "\<exists>n'. get_node (node_registry_of (gstate g2)) i = Some n' \<and> ni_status n' = Suspended"
    by (rule slash_suspends [OF assms(7) [unfolded slash_equivocator_def conjunct1 [OF e]] assms(5)])
  ultimately show ?thesis
    using b e assms(4) by (simp add: p [symmetric] Let_def equivocation_slash_amount_def)
qed

definition sample_slash_state :: sharded_state where
  "sample_slash_state = ss_insert sample_crypto_len (account_with_balance 1 5000000) sample_sharded"

theorem slashing_exact_witness:
  "ss_get (fst (snd (slash_builder sample_crypto_len 1 sample_gov sample_slash_state))) 1
     = Some (account_with_balance 1 4950000) \<and>
   ss_get (fst (snd (slash_equivocator sample_crypto_len 1 sample_gov sample_slash_state))) 1
     = Some (account_with_balance 1 0)"
proof -
  let ?s = sample_slash_state and ?c = sample_crypto_len
  have wf: "ss_wf ?s" unfolding sample_slash_state_def by (rule ss.swf_ins [OF ss_wf_sample])
  have "ss_total bal sample_sharded \<le> 1000" by code_simp
  then have small: "ss_total bal ?s < 2 ^ 64"
    using ss.stot_ins [OF ss_wf_sample, of bal ?c "account_with_balance 1 5000000"]
    by (simp add: sample_slash_state_def bal_def account_with_balance_def)
  have a: "ss_get ?s 1 = Some (account_with_balance 1 5000000)"
    by (simp add: sample_slash_state_def ss.sget_ins [OF ss_wf_sample] account_with_balance_def account_new_def)
  have t: "(1 :: account_id) \<noteq> TREASURY_ACCOUNT" by (simp add: TREASURY_ACCOUNT_def)
  have n: "get_node (node_registry_of (gstate sample_gov)) 1 = Some (sample_node 1 Active None)" by code_simp
  obtain g1 s1 r1 where 1: "slash_builder ?c 1 sample_gov ?s = (g1, s1, r1)"
    by (cases "slash_builder ?c 1 sample_gov ?s") auto
  obtain g2 s2 r2 where 2: "slash_equivocator ?c 1 sample_gov ?s = (g2, s2, r2)"
    by (cases "slash_equivocator ?c 1 sample_gov ?s") auto
  have p: "min (max ((5000000 :: u64) div 100) 20000) 5000000 = 50000" by simp
  show ?thesis
    using slashing_exact [OF wf small a t n 1 2] 1 2
    by (simp add: account_with_balance_def account_new_def p)
qed

section \<open>Admission is all or nothing\<close>

lemma get_by_id_add:
  assumes "add_validator vs v = Inr vs'"
  shows "get_by_id vs' (v_id_com v) = Some v"
proof (cases "get_by_id vs' (v_id_com v)")
  case None
  then show ?thesis using add_validator_members [OF assms] by (simp add: get_by_id_None)
next
  case (Some w)
  then have "w \<in> insert v (set (vs_validators vs))" "v_id_com w = v_id_com v"
    using get_by_id_Some [OF Some] add_validator_members [OF assms] by simp_all
  then show ?thesis
    using Some assms by (auto simp: add_validator_def split: if_splits)
qed

lemma register_admitted:
  assumes "nr_wf r" and "get_node r candidate = None" and "has_capacity r"
  shows "\<exists>r'. register_node r (admitted_node candidate t) = Inr r'
    \<and> get_node r' candidate = Some (admitted_node candidate t)"
  using assms
  by (simp add: register_node_def get_node_def bt_contains_def admitted_node_def map_of_bt_insert nr_wf_def)

lemma admitted_node_eligible: "is_consensus_eligible (admitted_node candidate t) now"
  by (simp add: is_consensus_eligible_def admitted_node_def is_kyc_approved_def)

lemma policy_check_devnet:
  "policy_check cr keygen ''devnet-derived'' candidate pk = None \<Longrightarrow>
    devnet_signing_pubkey cr keygen candidate = Some pk"
  by (auto simp: policy_check_def split: option.splits if_splits)

text \<open>
  C24: only the founder admits a validator, and an admission happens entirely or not at all.
  When it is refused, for whichever reason, neither the governance state nor the validator set
  changes. When it succeeds the validator is in the set with the fixed stake and a key no other
  validator has, under the devnet policy the derived one; its node is registered, was not before,
  and is eligible at any time; and it is remembered for a restart.
\<close>

theorem admission_all_or_nothing:
  assumes wf: "nr_wf (node_registry_of (gstate g))"
    and "admit_validator cr keygen g sender candidate pk vs t = (g', vs', res)"
  shows "case res of
     Inl e \<Rightarrow> g' = g \<and> vs' = vs
   | Inr v \<Rightarrow> founder_id_com g = Some sender
       \<and> get_by_id vs' candidate = Some v \<and> v_stake v = APPROVED_VALIDATOR_STAKE
       \<and> (\<forall>w \<in> set (vs_validators vs). v_signing_pubkey w \<noteq> v_signing_pubkey v \<and> v_index w \<noteq> v_index v)
       \<and> (validator_admission_policy g = ''devnet-derived'' \<longrightarrow>
            devnet_signing_pubkey cr keygen candidate = Some (v_signing_pubkey v))
       \<and> get_node (node_registry_of (gstate g)) candidate = None
       \<and> (\<exists>n. get_node (node_registry_of (gstate g')) candidate = Some n
             \<and> (\<forall>now. is_consensus_eligible n now))
       \<and> approved_validators (gstate g') = approved_validators (gstate g) @ [v]"
proof (cases res)
  case (Inl e)
  have "\<exists>r'. register_node (node_registry_of (gstate g)) (admitted_node candidate t) = Inr r'"
    if "get_node (node_registry_of (gstate g)) candidate = None" "has_capacity (node_registry_of (gstate g))"
    using register_admitted [OF wf that] by blast
  with Inl assms(2) show ?thesis
    by (auto simp: admit_validator_def Let_def split: sum.splits option.splits if_splits)
next
  case (Inr v)
  let ?r = "node_registry_of (gstate g)"
  have none: "get_node ?r candidate = None" and room: "has_capacity ?r"
    and founder: "founder_id_com g = Some sender"
    using assms(2) Inr
    by (auto simp: admit_validator_def validate_approve_validator_sender_def Let_def
        split: sum.splits option.splits if_splits)
  obtain r' where r': "register_node ?r (admitted_node candidate t) = Inr r'"
      "get_node r' candidate = Some (admitted_node candidate t)"
    using register_admitted [OF wf none room] by blast
  obtain pk' where pk: "policy_check cr keygen (validator_admission_policy g) candidate pk' = None"
      "\<forall>w \<in> set (vs_validators vs). v_signing_pubkey w \<noteq> pk'" and v: "v_id_com v = candidate"
      "v_stake v = APPROVED_VALIDATOR_STAKE" "v_signing_pubkey v = pk'"
      and add: "add_validator vs v = Inr vs'"
      and g': "g' = g\<lparr>gstate := (gstate g)\<lparr>node_registry_of := r',
                  approved_validators := approved_validators (gstate g) @ [v]\<rparr>\<rparr>"
    using assms(2) Inr r'(1)
    by (auto simp: admit_validator_def Let_def list_ex_iff split: sum.splits option.splits if_splits)
  have "\<forall>w \<in> set (vs_validators vs). v_index w \<noteq> v_index v"
    using add by (auto simp: add_validator_def split: if_splits)
  then show ?thesis
    using Inr founder none pk v g' r'(2) get_by_id_add [OF add] admitted_node_eligible
    by (auto dest: policy_check_devnet)
qed

definition sample_full_set :: validator_set where
  "sample_full_set = vs_new [sample_validator 1 100, sample_validator 5 100]"

theorem admission_all_or_nothing_witness:
  "let r = admit_validator sample_crypto_len (\<lambda>_. None) sample_gov 9 4 (replicate 32 7) sample_full_set 0;
       bad = admit_validator sample_crypto_len (\<lambda>_. None) sample_gov 8 4 (replicate 32 7) sample_full_set 0
   in map_option v_stake (get_by_id (fst (snd r)) 4) = Some 100 \<and> fst bad = sample_gov \<and>
      get_by_id (fst (snd bad)) 4 = None"
proof -
  let ?r = "\<lambda>i. admit_validator sample_crypto_len (\<lambda>_. None) sample_gov i 4 (replicate 32 7) sample_full_set 0"
  obtain g1 vs1 r1 where 1: "?r 9 = (g1, vs1, r1)" by (cases "?r 9") auto
  obtain g2 vs2 r2 where 2: "?r 8 = (g2, vs2, r2)" by (cases "?r 8") auto
  have "(case snd (snd (?r 9)) of Inl e \<Rightarrow> None | Inr v \<Rightarrow> Some (v_id_com v)) = Some 4" by code_simp
  then obtain v where v: "r1 = Inr v" using 1 by (cases r1) auto
  have "(case snd (snd (?r 8)) of Inl e \<Rightarrow> True | Inr v \<Rightarrow> False)" by code_simp
  then obtain e where e: "r2 = Inl e" using 2 by (cases r2) auto
  have "get_by_id sample_full_set 4 = None" by code_simp
  then show ?thesis
    using admission_all_or_nothing [OF sample_gov_wf(1) 1] admission_all_or_nothing [OF sample_gov_wf(1) 2] v e 1 2
    by (simp add: APPROVED_VALIDATOR_STAKE_def)
qed

section \<open>Rollback\<close>

text \<open>
  What the node does to governance between a snapshot of a slot and the rollback to it: it
  executes blocks, and takes and rolls back snapshots of other, later slots.
\<close>

inductive gov_step :: "u64 \<Rightarrow> runtime_governance \<Rightarrow> runtime_governance \<Rightarrow> bool" where
  step_block: "apply_completed_block cr g s vs txs now = (g', s', res) \<Longrightarrow> gov_step slot g g'"
| step_slash: "slash_builder cr i g s = (g', s', r) \<Longrightarrow> gov_step slot g g'"
| step_slash_tree: "slash_builder_in_tree cr i g st = (g', st', r) \<Longrightarrow> gov_step slot g g'"
| step_equivocator: "slash_equivocator cr i g s = (g', s', r) \<Longrightarrow> gov_step slot g g'"
| step_admit: "admit_validator cr keygen g sender i pk vs t = (g', vs', v) \<Longrightarrow> gov_step slot g g'"
| step_success: "gov_step slot g (note_validator_success i g)"
| step_failure: "gov_step slot g (note_validator_failure i g)"
| step_absence: "gov_step slot g (note_leader_absence i g)"
| step_snapshot: "k \<noteq> slot \<Longrightarrow> gov_step slot g (gov_snapshot k g)"
| step_rollback: "slot < k \<Longrightarrow> gov_step slot g (gov_rollback k g)"

lemma gsnapshots_upd_nodes [simp]: "gsnapshots (upd_nodes f g) = gsnapshots g"
  by (simp add: upd_nodes_def)

lemma gsnapshots_notes [simp]:
  "gsnapshots (note_validator_success i g) = gsnapshots g"
  "gsnapshots (note_validator_failure i g) = gsnapshots g"
  "gsnapshots (note_leader_absence i g) = gsnapshots g"
  "gsnapshots (suspend i g) = gsnapshots g"
  by (simp_all add: note_validator_success_def note_validator_failure_def note_leader_absence_def
      suspend_def Let_def)

lemma gsnapshots_slash:
  "slash get modify ins amount_of i g s = (g', s', r) \<Longrightarrow> gsnapshots g' = gsnapshots g"
  by (auto simp: slash_def Let_def split: option.splits sum.splits if_splits)

lemma gov_step_keeps_snapshot:
  assumes "gov_step slot g g'" and "bt_wf (gsnapshots g)" and "map_of (gsnapshots g) slot = Some st"
  shows "bt_wf (gsnapshots g') \<and> map_of (gsnapshots g') slot = Some st"
  using assms(1)
proof cases
  case (step_admit cr keygen sender i pk vs t vs' v)
  then have "gsnapshots g' = gsnapshots g"
    by (auto simp: admit_validator_def Let_def split: sum.splits option.splits if_splits)
  then show ?thesis using assms by simp
next
  case (step_rollback k)
  have "gsnapshots g' = filter (\<lambda>(j, snap). j < k) (gsnapshots g)"
    using step_rollback(1) by (simp add: gov_rollback_def Let_def split: option.splits)
  then show ?thesis
    using assms(2,3) step_rollback(2)
    by (auto simp: map_of_filter_in bt_wf_distinct map_of_eq_Some_iff)
qed (use assms(2,3) in \<open>auto simp: apply_completed_block_def slash_builder_def slash_builder_in_tree_def
    slash_equivocator_def gov_snapshot_def map_of_bt_insert Let_def dest: gsnapshots_slash
    split: option.splits prod.splits\<close>)



end
