(* ===== verification/Byte_Codec.thy ===== *)
theory Byte_Codec
  imports Signatures Accounts
begin

text \<open>
  Slices of byte buffers and the fixed-width fields the wire formats are made of. The decoders
  of the source read a buffer by index ranges \<open>data[p..p + n]\<close> and the encoders append fields;
  the rules collected in \<open>codec_simps\<close> evaluate a slice of a buffer that was built by
  appending, so that the round trips of the message formats are calculations.
\<close>

named_theorems codec_simps

definition slice :: "nat \<Rightarrow> nat \<Rightarrow> bytes \<Rightarrow> bytes" where
  "slice p n d = take n (drop p d)"

definition u32_from_le :: "bytes \<Rightarrow> u32" where "u32_from_le bs = word_of_nat (nat_of_le bs)"

text \<open>Fixed-size arrays: \<open>[u8; 32]\<close>, \<open>[u8; 20]\<close> and \<open>[u8; 16]\<close>, most significant byte first.\<close>

definition hash_from_bytes :: "bytes \<Rightarrow> hash32" where
  "hash_from_bytes bs = word_of_nat (nat_of_le (rev bs))"

definition addr_from_bytes :: "bytes \<Rightarrow> addr20" where
  "addr_from_bytes bs = word_of_nat (nat_of_le (rev bs))"

definition bytes16 :: "u128 \<Rightarrow> bytes" where
  "bytes16 t = rev (le_bytes 16 (unat t))"

definition tag_from_bytes :: "bytes \<Rightarrow> u128" where
  "tag_from_bytes bs = word_of_nat (nat_of_le (rev bs))"

lemma length_bytes16 [simp]: "length (bytes16 t) = 16"
  by (simp add: bytes16_def)

lemma length_bytes20 [simp]: "length (bytes20 t) = 20"
  by (simp add: bytes20_def)

lemma u32_from_to_le [simp]: "u32_from_le (u32_le w) = w"
  using unat_lt [of w] by (simp add: u32_from_le_def u32_le_def nat_of_le_bytes)

lemma hash_from_to [simp]: "hash_from_bytes (bytes32 h) = h"
  using unat_lt [of h] by (simp add: hash_from_bytes_def bytes32_def nat_of_le_bytes)

lemma addr_from_to [simp]: "addr_from_bytes (bytes20 h) = h"
  using unat_lt [of h] by (simp add: addr_from_bytes_def bytes20_def nat_of_le_bytes)

lemma tag_from_to [simp]: "tag_from_bytes (bytes16 h) = h"
  using unat_lt [of h] by (simp add: tag_from_bytes_def bytes16_def nat_of_le_bytes)

lemma le_bytes_nat_of: "le_bytes (length bs) (nat_of_le bs) = bs"
proof (induction bs)
  case (Cons b bs)
  have "unat b < 256" using unat_lt [of b] by simp
  with Cons show ?case by simp
qed simp

lemma slice_Cons [codec_simps]: "0 < p \<Longrightarrow> slice p n (x # xs) = slice (p - 1) n xs"
  by (cases p) (simp_all add: slice_def)

lemma slice_skip [codec_simps]: "length a \<le> p \<Longrightarrow> slice p n (a @ b) = slice (p - length a) n b"
  by (simp add: slice_def)

lemma slice_here [codec_simps]: "length a = n \<Longrightarrow> slice 0 n (a @ b) = a"
  by (simp add: slice_def)

lemma slice_all [codec_simps]: "length a \<le> n \<Longrightarrow> slice 0 n a = a"
  by (simp add: slice_def)

lemma length_slice: "length (slice p n d) = min n (length d - p)"
  by (simp add: slice_def)

lemma nth_skip [codec_simps]: "length a \<le> p \<Longrightarrow> (a @ b) ! p = b ! (p - length a)"
  by (simp add: nth_append)

lemma nth_Cons_pos [codec_simps]: "0 < p \<Longrightarrow> (x # xs) ! p = xs ! (p - 1)"
  by (cases p) simp_all

lemma drop_skip [codec_simps]: "length a \<le> p \<Longrightarrow> drop p (a @ b) = drop (p - length a) b"
  by simp

lemma drop_Cons_pos [codec_simps]: "0 < p \<Longrightarrow> drop p (x # xs) = drop (p - 1) xs"
  by (cases p) simp_all

lemma append_same_len: "length a = length b \<Longrightarrow> a @ c = b @ d \<longleftrightarrow> a = b \<and> c = d"
  by simp

text \<open>A 16-bit or 32-bit length field: \<open>(n as u16).to_le_bytes()\<close> and back.\<close>

definition len16 :: "nat \<Rightarrow> bytes" where "len16 n = u16_le (word_of_nat n)"
definition len32 :: "nat \<Rightarrow> bytes" where "len32 n = u32_le (word_of_nat n)"

lemma length_lens [simp]: "length (len16 n) = 2" "length (len32 n) = 4"
  by (simp_all add: len16_def len32_def)

lemma len16_read: "n < 65536 \<Longrightarrow> unat (u16_from_le (len16 n)) = n"
  by (simp add: len16_def unat_of_nat)

lemma len32_read: "n < 2 ^ 32 \<Longrightarrow> unat (u32_from_le (len32 n)) = n"
  by (simp add: len32_def unat_of_nat)

end
