(* ===== verification/Transactions.thy ===== *)
theory Transactions
  imports Byte_Codec Addresses Validator_Set
begin

text \<open>
  Transactions on the wire, after \<open>ace-runtime/src/types/transaction.rs\<close>,
  \<open>types/attestation.rs\<close>, \<open>types/capability.rs\<close> and \<open>crypto/attestation.rs\<close>: attestations
  and their signed message, committee certificates, raw-chain and ZK authorization extensions,
  the canonical hash, the stripping of ML-DSA-44 credentials for gossip and the wire codec.

  \<open>None\<close> of an encoder is the panic of \<open>to_wire_bytes\<close> on key material of 64 KB or more. The
  verifier of ZK proofs is a parameter; it is absent in builds without the \<open>stark\<close> feature.
\<close>

section \<open>Attestations\<close>

record domain =
  dom_chain_id :: u32
  dom_slot :: u32

definition domain_bytes :: "domain \<Rightarrow> bytes" where
  "domain_bytes d = u32_le (dom_chain_id d) @ u32_le (dom_slot d)"

definition domain_from_bytes :: "bytes \<Rightarrow> domain" where
  "domain_from_bytes b = \<lparr>dom_chain_id = u32_from_le (slice 0 4 b), dom_slot = u32_from_le (slice 4 4 b)\<rparr>"

record attestation =
  obj_hash :: hash32
  att_idcom :: account_id
  att_domain :: domain
  context_tag :: u128
  credential :: tagged_signature

definition CONTEXT_TAG_SIZE :: nat where "CONTEXT_TAG_SIZE = 16"

definition ATTESTATION_FIXED_SIZE :: nat where
  "ATTESTATION_FIXED_SIZE = 32 + 32 + 8 + CONTEXT_TAG_SIZE"

definition att_wire_size :: "attestation \<Rightarrow> nat" where
  "att_wire_size a = ATTESTATION_FIXED_SIZE + 3 + length (sig_bytes (credential a))"

definition to_identity_bytes :: "attestation \<Rightarrow> bytes" where
  "to_identity_bytes a =
    bytes32 (obj_hash a) @ bytes32 (att_idcom a) @ domain_bytes (att_domain a) @ bytes16 (context_tag a)"

definition att_to_bytes :: "attestation \<Rightarrow> bytes option" where
  "att_to_bytes a =
    map_option (\<lambda>w. bytes32 (obj_hash a) @ bytes32 (att_idcom a) @ domain_bytes (att_domain a)
      @ bytes16 (context_tag a) @ w) (sig_to_wire (credential a))"

datatype tx_error =
    AttTooShort | AttTrailing | CredentialError wire_error
  | CertTruncated | CertDomain | CertSigner | CertSignature | CertTrailing
  | TxTooShort | PayloadTooLarge | ZkLengthTruncated | ZkProofTooLarge | ZkBodyLength
  | RawTag | RawLengthTruncated | RawTruncated | CertTag | CertLengthTruncated | CertBytes
  | CertInvalid | TxTrailing

definition att_from_bytes :: "bytes \<Rightarrow> tx_error + attestation" where
  "att_from_bytes d =
    (if length d < ATTESTATION_FIXED_SIZE + 3 then Inl AttTooShort
     else case sig_from_wire (drop (72 + CONTEXT_TAG_SIZE) d) of
       Inl e \<Rightarrow> Inl (CredentialError e)
     | Inr (cred, consumed) \<Rightarrow>
         if ATTESTATION_FIXED_SIZE + consumed \<noteq> length d then Inl AttTrailing
         else Inr \<lparr>obj_hash = hash_from_bytes (slice 0 32 d), att_idcom = hash_from_bytes (slice 32 32 d),
                   att_domain = domain_from_bytes (slice 64 8 d),
                   context_tag = tag_from_bytes (slice 72 CONTEXT_TAG_SIZE d), credential = cred\<rparr>)"

definition bytes_consumed :: "bytes \<Rightarrow> tx_error + nat" where
  "bytes_consumed d =
    (if length d < ATTESTATION_FIXED_SIZE + 3 then Inl AttTooShort
     else case sig_from_wire (drop (72 + CONTEXT_TAG_SIZE) d) of
       Inl e \<Rightarrow> Inl (CredentialError e)
     | Inr (cred, consumed) \<Rightarrow> Inr (ATTESTATION_FIXED_SIZE + consumed))"

text \<open>\<open>crypto/attestation.rs\<close>: the signed message and the check of a credential.\<close>

definition signing_message :: "u8 \<Rightarrow> hash32 \<Rightarrow> account_id \<Rightarrow> domain \<Rightarrow> u128 \<Rightarrow> bytes" where
  "signing_message alg h idcom dm tag =
    alg # bytes32 h @ bytes32 idcom @ domain_bytes dm @ bytes16 tag"

definition verify_payload_binding :: "crypto \<Rightarrow> attestation \<Rightarrow> bytes \<Rightarrow> bool" where
  "verify_payload_binding cr a payload = (obj_hash a = sha256 cr payload)"

definition verify_credential :: "crypto \<Rightarrow> attestation \<Rightarrow> bytes \<Rightarrow> tagged_pubkey \<Rightarrow> bool" where
  "verify_credential cr a payload k =
    (let binding_ok = verify_payload_binding cr a payload;
         key_ok = \<not> pk_is_zero k
     in if \<not> binding_ok \<or> \<not> key_ok then False
        else if pk_alg k = HmacSha256 then False
        else verify_signature cr k
               (signing_message (alg_tag (pk_alg k)) (obj_hash a) (att_idcom a) (att_domain a) (context_tag a))
               (credential a))"

section \<open>Committee certificates\<close>

fun committee_tag :: "committee_domain \<Rightarrow> u8" where
  "committee_tag BtcPayments = 1"
| "committee_tag SolanaLight = 2"

definition committee_from_tag :: "u8 \<Rightarrow> committee_domain option" where
  "committee_from_tag t = (if t = 1 then Some BtcPayments else if t = 2 then Some SolanaLight else None)"

record committee_approval =
  ca_signer :: tagged_pubkey
  ca_signature :: tagged_signature

record committee_certificate =
  cert_domain :: committee_domain
  cert_tx_hash :: hash32
  cert_approvals :: "committee_approval list"

definition approval_signing_message :: "crypto \<Rightarrow> committee_domain \<Rightarrow> hash32 \<Rightarrow> hash32" where
  "approval_signing_message cr d h =
    sha256 cr (ascii ''ACE-COMMITTEE-APPROVAL-V1'' @ [committee_tag d] @ bytes32 h)"

definition approval_wire_size :: "committee_approval \<Rightarrow> nat" where
  "approval_wire_size a = (3 + length (pk_bytes (ca_signer a))) + (3 + length (sig_bytes (ca_signature a)))"

definition cert_wire_size :: "committee_certificate \<Rightarrow> nat" where
  "cert_wire_size c = 1 + 1 + 32 + sum_list (map approval_wire_size (cert_approvals c))"

fun approvals_to_bytes :: "committee_approval list \<Rightarrow> bytes option" where
  "approvals_to_bytes [] = Some []"
| "approvals_to_bytes (a # as) =
    (case (pk_to_wire (ca_signer a), sig_to_wire (ca_signature a), approvals_to_bytes as) of
       (Some k, Some s, Some r) \<Rightarrow> Some (k @ s @ r) | _ \<Rightarrow> None)"

definition cert_to_bytes :: "committee_certificate \<Rightarrow> bytes option" where
  "cert_to_bytes c =
    map_option (\<lambda>r. committee_tag (cert_domain c) # word_of_nat (min (length (cert_approvals c)) 255)
                    # bytes32 (cert_tx_hash c) @ r)
      (approvals_to_bytes (cert_approvals c))"

fun read_approvals :: "nat \<Rightarrow> bytes \<Rightarrow> nat \<Rightarrow> tx_error + committee_approval list \<times> nat" where
  "read_approvals 0 d offset = Inr ([], offset)"
| "read_approvals (Suc n) d offset =
    (case pk_from_wire (drop offset d) of
       Inl e \<Rightarrow> Inl CertSigner
     | Inr (signer, pk_consumed) \<Rightarrow>
         (case sig_from_wire (drop (offset + pk_consumed) d) of
            Inl e \<Rightarrow> Inl CertSignature
          | Inr (signature, sig_consumed) \<Rightarrow>
              (case read_approvals n d (offset + pk_consumed + sig_consumed) of
                 Inl e \<Rightarrow> Inl e
               | Inr (as, offset) \<Rightarrow> Inr (\<lparr>ca_signer = signer, ca_signature = signature\<rparr> # as, offset))))"

definition cert_from_bytes :: "bytes \<Rightarrow> tx_error + committee_certificate" where
  "cert_from_bytes d =
    (if length d < 34 then Inl CertTruncated
     else case committee_from_tag (d ! 0) of
       None \<Rightarrow> Inl CertDomain
     | Some dm \<Rightarrow>
         (case read_approvals (unat (d ! 1)) d 34 of
            Inl e \<Rightarrow> Inl e
          | Inr (approvals, offset) \<Rightarrow>
              if offset \<noteq> length d then Inl CertTrailing
              else Inr \<lparr>cert_domain = dm, cert_tx_hash = hash_from_bytes (slice 2 32 d),
                        cert_approvals = approvals\<rparr>))"

section \<open>Transactions\<close>

datatype raw_chain_kind = RawEvm | RawSolana | RawBtc | RawTron

fun raw_kind_tag :: "raw_chain_kind \<Rightarrow> u8" where
  "raw_kind_tag RawEvm = 1"
| "raw_kind_tag RawSolana = 2"
| "raw_kind_tag RawBtc = 3"
| "raw_kind_tag RawTron = 4"

definition raw_kind_from_tag :: "u8 \<Rightarrow> raw_chain_kind option" where
  "raw_kind_from_tag t =
    (if t = 1 then Some RawEvm else if t = 2 then Some RawSolana
     else if t = 3 then Some RawBtc else if t = 4 then Some RawTron else None)"

fun raw_kind_committee :: "raw_chain_kind \<Rightarrow> committee_domain option" where
  "raw_kind_committee RawEvm = None"
| "raw_kind_committee RawSolana = Some SolanaLight"
| "raw_kind_committee RawBtc = Some BtcPayments"
| "raw_kind_committee RawTron = None"

record raw_chain_payload =
  rc_kind :: raw_chain_kind
  rc_bytes :: bytes
  rc_certificate :: "committee_certificate option"

record zk_auth =
  zk_proof :: bytes
  zk_target :: hash32
  zk_rp_com :: hash32
  zk_nonce :: u64

record transaction =
  tx_payload :: bytes
  tx_attestation :: attestation
  tx_raw_chain :: "raw_chain_payload option"
  tx_zk_auth :: "zk_auth option"

definition tx_new :: "bytes \<Rightarrow> attestation \<Rightarrow> transaction" where
  "tx_new payload a = \<lparr>tx_payload = payload, tx_attestation = a, tx_raw_chain = None, tx_zk_auth = None\<rparr>"

definition tx_with_raw_chain :: "bytes \<Rightarrow> attestation \<Rightarrow> raw_chain_kind \<Rightarrow> bytes \<Rightarrow> transaction" where
  "tx_with_raw_chain payload a kind raw =
    \<lparr>tx_payload = payload, tx_attestation = a,
     tx_raw_chain = Some \<lparr>rc_kind = kind, rc_bytes = raw, rc_certificate = None\<rparr>, tx_zk_auth = None\<rparr>"

definition attach_committee_certificate :: "committee_certificate \<Rightarrow> transaction \<Rightarrow> transaction" where
  "attach_committee_certificate c tx =
    (case tx_raw_chain tx of
       Some r \<Rightarrow> tx\<lparr>tx_raw_chain := Some (r\<lparr>rc_certificate := Some c\<rparr>)\<rparr>
     | None \<Rightarrow> tx)"

definition is_raw_chain :: "transaction \<Rightarrow> bool" where
  "is_raw_chain tx = (tx_raw_chain tx \<noteq> None)"

definition is_zk_auth :: "transaction \<Rightarrow> bool" where
  "is_zk_auth tx = (tx_zk_auth tx \<noteq> None)"

definition tx_wire_size :: "transaction \<Rightarrow> nat" where
  "tx_wire_size tx =
    (let base = length (tx_payload tx) + att_wire_size (tx_attestation tx)
     in case tx_raw_chain tx of
          Some r \<Rightarrow>
            let cert_size = (case rc_certificate r of Some c \<Rightarrow> 4 + cert_wire_size c | None \<Rightarrow> 0)
            in base + 1 + 4 + length (rc_bytes r) + 1 + cert_size
        | None \<Rightarrow>
            (case tx_zk_auth tx of
               Some zk \<Rightarrow> base + 1 + 4 + length (zk_proof zk) + 32 + 32 + 8
             | None \<Rightarrow> base))"

definition tx_preimage :: "transaction \<Rightarrow> bytes" where
  "tx_preimage tx =
    len32 (length (tx_payload tx)) @ tx_payload tx @ to_identity_bytes (tx_attestation tx)
    @ (case tx_raw_chain tx of
         Some r \<Rightarrow> raw_kind_tag (rc_kind r) # len32 (length (rc_bytes r)) @ rc_bytes r
       | None \<Rightarrow> [])"

definition tx_hash :: "crypto \<Rightarrow> transaction \<Rightarrow> hash32" where
  "tx_hash cr tx = sha256 cr (tx_preimage tx)"

definition is_credential_stripped :: "transaction \<Rightarrow> bool" where
  "is_credential_stripped tx =
    (if tx_zk_auth tx \<noteq> None then False
     else sig_alg (credential (tx_attestation tx)) = MlDsa44 \<and> sig_bytes (credential (tx_attestation tx)) = [])"

definition stripped_for_gossip :: "transaction \<Rightarrow> transaction" where
  "stripped_for_gossip tx =
    (if tx_payload tx \<noteq> [] \<and> (hd (tx_payload tx) = 3 \<or> hd (tx_payload tx) = 4) then tx
     else if sig_alg (credential (tx_attestation tx)) = MlDsa44
     then tx\<lparr>tx_attestation := (tx_attestation tx)\<lparr>credential := ml_dsa_44_stripped\<rparr>\<rparr>
     else tx)"

definition encode_bytes :: "bool \<Rightarrow> transaction \<Rightarrow> bytes option" where
  "encode_bytes with_cert tx =
    (case att_to_bytes (tx_attestation tx) of
       None \<Rightarrow> None
     | Some att \<Rightarrow>
         let base = len32 (length (tx_payload tx)) @ tx_payload tx @ att
         in case tx_raw_chain tx of
              Some r \<Rightarrow>
                let raw = base @ raw_kind_tag (rc_kind r) # len32 (length (rc_bytes r)) @ rc_bytes r
                in if with_cert
                   then (case rc_certificate r of
                           Some c \<Rightarrow> map_option (\<lambda>b. raw @ 1 # len32 (length b) @ b) (cert_to_bytes c)
                         | None \<Rightarrow> Some (raw @ [0]))
                   else Some raw
            | None \<Rightarrow>
                (case tx_zk_auth tx of
                   Some zk \<Rightarrow> Some (base @ 0xFF # len32 (length (zk_proof zk)) @ zk_proof zk
                                 @ bytes32 (zk_target zk) @ bytes32 (zk_rp_com zk) @ u64_le (zk_nonce zk))
                 | None \<Rightarrow> Some base))"

definition tx_to_bytes :: "transaction \<Rightarrow> bytes option" where
  "tx_to_bytes tx = encode_bytes True tx"

definition tx_to_hash_bytes :: "transaction \<Rightarrow> bytes option" where
  "tx_to_hash_bytes tx = encode_bytes False tx"

definition wire_hash :: "crypto \<Rightarrow> transaction \<Rightarrow> hash32 option" where
  "wire_hash cr tx = map_option (sha256 cr) (tx_to_bytes tx)"

definition MAX_PAYLOAD_SIZE :: nat where "MAX_PAYLOAD_SIZE = 65536"
definition MAX_ZK_PROOF_LEN :: nat where "MAX_ZK_PROOF_LEN = 65536"

text \<open>The extension behind the attestation: a ZK proof (marker 0xFF) or raw chain bytes.\<close>

definition read_zk :: "bytes \<Rightarrow> nat \<Rightarrow> tx_error + zk_auth option" where
  "read_zk d base_end =
    (if base_end < length d \<and> d ! base_end = 0xFF
     then let zk_start = base_end + 1
       in if length d < zk_start + 4 then Inl ZkLengthTruncated
          else let proof_len = unat (u32_from_le (slice zk_start 4 d))
            in if MAX_ZK_PROOF_LEN < proof_len then Inl ZkProofTooLarge
               else let payload_start = zk_start + 4
                 in if length d \<noteq> payload_start + proof_len + 32 + 32 + 8 then Inl ZkBodyLength
                    else let target_start = payload_start + proof_len;
                             rp_start = target_start + 32;
                             nonce_start = rp_start + 32
                      in Inr (Some \<lparr>zk_proof = slice payload_start proof_len d,
                            zk_target = hash_from_bytes (slice target_start 32 d),
                            zk_rp_com = hash_from_bytes (slice rp_start 32 d),
                            zk_nonce = u64_from_le (slice nonce_start 8 d)\<rparr>)
     else Inr None)"

definition read_certificate :: "bytes \<Rightarrow> nat \<Rightarrow> tx_error + committee_certificate option" where
  "read_certificate d raw_end =
    (if raw_end < length d
     then if 1 < d ! raw_end then Inl CertTag
          else if d ! raw_end = 1
          then if length d < raw_end + 1 + 4 then Inl CertLengthTruncated
               else let cert_len = unat (u32_from_le (slice (raw_end + 1) 4 d))
                 in if length d \<noteq> raw_end + 1 + 4 + cert_len then Inl CertBytes
                    else (case cert_from_bytes (slice (raw_end + 5) cert_len d) of
                            Inl e \<Rightarrow> Inl CertInvalid
                          | Inr c \<Rightarrow> Inr (Some c))
          else if length d \<noteq> raw_end + 1 then Inl TxTrailing
          else Inr None
     else Inr None)"

definition read_raw_chain :: "bytes \<Rightarrow> nat \<Rightarrow> tx_error + raw_chain_payload option" where
  "read_raw_chain d base_end =
    (if base_end < length d
     then case raw_kind_from_tag (d ! base_end) of
       None \<Rightarrow> Inl RawTag
     | Some kind \<Rightarrow>
         if length d < base_end + 1 + 4 then Inl RawLengthTruncated
         else let raw_len = unat (u32_from_le (slice (base_end + 1) 4 d))
           in if length d < base_end + 1 + 4 + raw_len then Inl RawTruncated
              else (case read_certificate d (base_end + 5 + raw_len) of
                      Inl e \<Rightarrow> Inl e
                    | Inr c \<Rightarrow> Inr (Some \<lparr>rc_kind = kind, rc_bytes = slice (base_end + 5) raw_len d,
                                         rc_certificate = c\<rparr>))
     else Inr None)"

definition tx_from_bytes :: "bytes \<Rightarrow> tx_error + transaction" where
  "tx_from_bytes d =
    (if length d < 4 then Inl TxTooShort
     else let payload_len = unat (u32_from_le (slice 0 4 d))
       in if MAX_PAYLOAD_SIZE < payload_len then Inl PayloadTooLarge
          else let attest_start = 4 + payload_len
            in if length d < attest_start + 3 then Inl TxTooShort
               else case bytes_consumed (drop attest_start d) of
                 Inl e \<Rightarrow> Inl e
               | Inr n \<Rightarrow>
                 (case att_from_bytes (slice attest_start n d) of
                    Inl e \<Rightarrow> Inl e
                  | Inr att \<Rightarrow>
                    (case read_zk d (attest_start + n) of
                       Inl e \<Rightarrow> Inl e
                     | Inr zk \<Rightarrow>
                       (case (if zk = None then read_raw_chain d (attest_start + n) else Inr None) of
                          Inl e \<Rightarrow> Inl e
                        | Inr raw \<Rightarrow> Inr \<lparr>tx_payload = slice 4 payload_len d, tx_attestation = att,
                                         tx_raw_chain = raw, tx_zk_auth = zk\<rparr>))))"

text \<open>
  \<open>crypto/zk_auth.rs\<close>. The STARK verifier takes the public inputs (identity, transaction
  hash, domain, target, replay commitment) and the proof.
\<close>

type_synonym zk_engine = "(hash32 \<times> hash32 \<times> u64 \<times> hash32 \<times> hash32 \<Rightarrow> bytes \<Rightarrow> bool) option"

definition zk_domain_u64 :: "domain \<Rightarrow> u64" where
  "zk_domain_u64 d = ucast (dom_chain_id d)"

definition verify_zk_auth :: "crypto \<Rightarrow> zk_engine \<Rightarrow> transaction \<Rightarrow> zk_auth \<Rightarrow> bool" where
  "verify_zk_auth cr eng tx zk =
    (case eng of
       None \<Rightarrow> False
     | Some verify \<Rightarrow> verify (att_idcom (tx_attestation tx), tx_hash cr tx,
         zk_domain_u64 (att_domain (tx_attestation tx)), zk_target zk, zk_rp_com zk) (zk_proof zk))"

section \<open>Round trips\<close>

lemma length_domain_bytes [simp]: "length (domain_bytes d) = 8"
  by (simp add: domain_bytes_def)

lemma domain_from_to [simp]: "domain_from_bytes (domain_bytes d) = d"
  by (simp add: domain_from_bytes_def domain_bytes_def codec_simps)

lemmas att_size_defs = ATTESTATION_FIXED_SIZE_def CONTEXT_TAG_SIZE_def

lemma att_roundtrip:
  assumes "sig_wire_form (credential a)"
  shows "\<exists>w. att_to_bytes a = Some w \<and> att_from_bytes w = Inr a
    \<and> (\<forall>r. bytes_consumed (w @ r) = Inr (length w)) \<and> 3 \<le> length w"
proof -
  obtain s where s: "sig_to_wire (credential a) = Some s" using sig_wire_total [OF assms] by blast
  have dec: "sig_from_wire (s @ r) = Inr (credential a, length s)" for r
    by (rule sig_wire_decode [OF assms s])
  have len: "3 \<le> length s" using s by (auto simp: sig_to_wire_def split: if_splits)
  let ?w = "bytes32 (obj_hash a) @ bytes32 (att_idcom a) @ domain_bytes (att_domain a)
      @ bytes16 (context_tag a) @ s"
  have "att_to_bytes a = Some ?w" by (simp add: att_to_bytes_def s)
  moreover have "att_from_bytes ?w = Inr a"
    using len dec [of "[]"] by (simp add: att_from_bytes_def att_size_defs codec_simps)
  moreover have "bytes_consumed (?w @ r) = Inr (length ?w)" for r
    using len dec [of r] by (simp add: bytes_consumed_def att_size_defs codec_simps)
  ultimately show ?thesis using len by auto
qed

definition approval_ok :: "committee_approval \<Rightarrow> bool" where
  "approval_ok a = (pk_well_formed (ca_signer a) \<and> sig_wire_form (ca_signature a))"

lemma approvals_roundtrip:
  assumes "list_all approval_ok as"
  shows "\<exists>r. approvals_to_bytes as = Some r
    \<and> (\<forall>d offset rest. drop offset d = r @ rest \<longrightarrow>
         read_approvals (length as) d offset = Inr (as, offset + length r))"
  using assms
proof (induction as)
  case Nil
  then show ?case by simp
next
  case (Cons a as)
  then obtain r where r: "approvals_to_bytes as = Some r"
      "\<And>d offset rest. drop offset d = r @ rest \<Longrightarrow>
         read_approvals (length as) d offset = Inr (as, offset + length r)"
    by auto
  have ok: "pk_well_formed (ca_signer a)" "sig_wire_form (ca_signature a)"
    using Cons.prems by (simp_all add: approval_ok_def)
  obtain k s where k: "pk_to_wire (ca_signer a) = Some k" and s: "sig_to_wire (ca_signature a) = Some s"
    using pk_wire_total [OF ok(1)] sig_wire_total [OF ok(2)] by blast
  have "read_approvals (length (a # as)) d offset = Inr (a # as, offset + length (k @ s @ r))"
    if d: "drop offset d = (k @ s @ r) @ rest" for d offset rest
  proof -
    have 1: "drop (offset + length k) d = s @ r @ rest"
      using d by (simp flip: drop_drop add: add.commute [of offset])
    have 2: "drop (offset + length k + length s) d = r @ rest"
      using 1 by (simp flip: drop_drop add: add.commute [of "offset + length k"])
    show ?thesis
      using d 1 r(2) [OF 2] pk_wire_decode [OF ok(1) k, of "s @ r @ rest"]
        sig_wire_decode [OF ok(2) s, of "r @ rest"]
      by simp
  qed
  then show ?case using k s r(1) by simp
qed

lemma cert_roundtrip:
  assumes "list_all approval_ok (cert_approvals c)" and "length (cert_approvals c) \<le> 255"
  shows "\<exists>w. cert_to_bytes c = Some w \<and> cert_from_bytes w = Inr c"
proof -
  obtain r where r: "approvals_to_bytes (cert_approvals c) = Some r"
      "\<And>d offset rest. drop offset d = r @ rest \<Longrightarrow>
         read_approvals (length (cert_approvals c)) d offset = Inr (cert_approvals c, offset + length r)"
    using approvals_roundtrip [OF assms(1)] by blast
  let ?w = "committee_tag (cert_domain c) # word_of_nat (length (cert_approvals c)) # bytes32 (cert_tx_hash c) @ r"
  have "unat (word_of_nat (length (cert_approvals c)) :: u8) = length (cert_approvals c)"
    using assms(2) by (simp add: unat_of_nat)
  moreover have "read_approvals (length (cert_approvals c)) ?w 34 = Inr (cert_approvals c, length ?w)"
    using r(2) [of 34 ?w "[]"] by (simp add: codec_simps)
  moreover have "committee_from_tag (committee_tag (cert_domain c)) = Some (cert_domain c)"
    by (cases "cert_domain c") (simp_all add: committee_from_tag_def)
  ultimately have "cert_from_bytes ?w = Inr c"
    by (simp add: cert_from_bytes_def codec_simps)
  moreover have "cert_to_bytes c = Some ?w" using r(1) assms(2) by (simp add: cert_to_bytes_def)
  ultimately show ?thesis by blast
qed

definition raw_ok :: "raw_chain_payload \<Rightarrow> bool" where
  "raw_ok r = (length (rc_bytes r) < 2 ^ 32 \<and>
     (case rc_certificate r of
        None \<Rightarrow> True
      | Some c \<Rightarrow> list_all approval_ok (cert_approvals c) \<and> length (cert_approvals c) \<le> 255 \<and>
          (\<forall>w. cert_to_bytes c = Some w \<longrightarrow> length w < 2 ^ 32)))"

lemma raw_kind_roundtrip [simp]:
  "raw_kind_from_tag (raw_kind_tag k) = Some k" "raw_kind_tag k \<noteq> 0xFF"
  by (cases k; simp add: raw_kind_from_tag_def)+

lemma read_zk_roundtrip:
  assumes "length (zk_proof zk) \<le> 65536"
  shows "read_zk (base @ 0xFF # len32 (length (zk_proof zk)) @ zk_proof zk @ bytes32 (zk_target zk)
      @ bytes32 (zk_rp_com zk) @ u64_le (zk_nonce zk)) (length base) = Inr (Some zk)"
  using assms by (simp add: read_zk_def codec_simps len32_read MAX_ZK_PROOF_LEN_def Let_def)

lemma read_certificate_none: "read_certificate (raw @ [0]) (length raw) = Inr None"
  by (simp add: read_certificate_def codec_simps)

lemma read_certificate_some:
  assumes "cert_from_bytes b = Inr c" and "length b < 2 ^ 32"
  shows "read_certificate (raw @ 1 # len32 (length b) @ b) (length raw) = Inr (Some c)"
  using assms by (simp add: read_certificate_def codec_simps len32_read Let_def)

lemma read_raw_roundtrip:
  assumes "length (rc_bytes r) < 2 ^ 32"
    and d: "d = (base @ raw_kind_tag (rc_kind r) # len32 (length (rc_bytes r)) @ rc_bytes r) @ ext"
    and cert: "read_certificate d (length base + 5 + length (rc_bytes r)) = Inr (rc_certificate r)"
  shows "read_raw_chain d (length base) = Inr (Some r)" and "read_zk d (length base) = Inr None"
proof -
  have len: "slice (length base + 1) 4 d = len32 (length (rc_bytes r))"
    and raw: "slice (length base + 5) (length (rc_bytes r)) d = rc_bytes r"
    and tag: "d ! length base = raw_kind_tag (rc_kind r)"
    by (simp_all add: d codec_simps)
  show "read_raw_chain d (length base) = Inr (Some r)"
    using cert unfolding read_raw_chain_def len raw tag
    by (simp add: len32_read [OF assms(1)] d Let_def codec_simps)
  show "read_zk d (length base) = Inr None"
    unfolding read_zk_def tag by simp
qed

definition raw_extension :: "bytes \<Rightarrow> raw_chain_payload \<Rightarrow> bytes option" where
  "raw_extension raw r =
    (case rc_certificate r of
       Some c \<Rightarrow> map_option (\<lambda>b. raw @ 1 # len32 (length b) @ b) (cert_to_bytes c)
     | None \<Rightarrow> Some (raw @ [0]))"

lemma raw_extension_roundtrip:
  assumes "raw_ok r"
  shows "\<exists>ext. raw_extension raw r = Some (raw @ ext)
    \<and> read_certificate (raw @ ext) (length raw) = Inr (rc_certificate r)"
proof (cases "rc_certificate r")
  case None
  then show ?thesis using read_certificate_none [of raw] by (simp add: raw_extension_def)
next
  case (Some c)
  then obtain b where b: "cert_to_bytes c = Some b" "cert_from_bytes b = Inr c" "length b < 2 ^ 32"
    using cert_roundtrip [of c] assms by (auto simp: raw_ok_def)
  then show ?thesis
    using Some read_certificate_some [OF b(2,3), of raw] by (simp add: raw_extension_def)
qed

definition tx_ok :: "transaction \<Rightarrow> bool" where
  "tx_ok tx = (length (tx_payload tx) \<le> MAX_PAYLOAD_SIZE \<and> sig_wire_form (credential (tx_attestation tx)) \<and>
     (case (tx_raw_chain tx, tx_zk_auth tx) of
        (None, None) \<Rightarrow> True
      | (Some r, None) \<Rightarrow> raw_ok r
      | (None, Some zk) \<Rightarrow> length (zk_proof zk) \<le> MAX_ZK_PROOF_LEN
      | (Some r, Some zk) \<Rightarrow> False))"

text \<open>The common part of the three shapes: the extension decides the rest.\<close>

lemma tx_from_bytes_base:
  assumes "length p \<le> MAX_PAYLOAD_SIZE" and "sig_wire_form (credential a)"
    and w: "att_to_bytes a = Some w" and d: "d = (len32 (length p) @ p @ w) @ ext"
    and zk: "read_zk d (length (len32 (length p) @ p @ w)) = Inr zk"
    and raw: "(if zk = None then read_raw_chain d (length (len32 (length p) @ p @ w)) else Inr None) = Inr raw"
  shows "tx_from_bytes d = Inr \<lparr>tx_payload = p, tx_attestation = a, tx_raw_chain = raw, tx_zk_auth = zk\<rparr>"
proof -
  have att: "att_from_bytes w = Inr a" "bytes_consumed (w @ ext) = Inr (length w)" "3 \<le> length w"
    using att_roundtrip [OF assms(2)] w by auto
  have "length p < 2 ^ 32" using assms(1) by (simp add: MAX_PAYLOAD_SIZE_def)
  then have len: "unat (u32_from_le (slice 0 4 d)) = length p"
    by (simp add: d codec_simps len32_read)
  have s: "drop (4 + length p) d = w @ ext" "slice (4 + length p) (length w) d = w"
      "slice 4 (length p) d = p" "4 \<le> length d" "4 + length p + 3 \<le> length d"
    using att(3) by (simp_all add: d codec_simps)
  have e: "length (len32 (length p) @ p @ w) = 4 + length p + length w" by simp
  show ?thesis
    unfolding tx_from_bytes_def len s(1) Let_def
    using assms(1) att s zk raw unfolding e by simp
qed

text \<open>
  C16: transactions survive the wire. Every transaction with a payload and proof within the
  limits, a credential that is well formed or the stripped placeholder, and at most one of the
  two extensions has an encoding, and decoding it gives back the transaction, with its ZK proof
  or its raw bytes and committee certificate.
\<close>

theorem transaction_wire_roundtrip:
  assumes ok: "tx_ok tx"
  shows "\<exists>w. tx_to_bytes tx = Some w \<and> tx_from_bytes w = Inr tx"
proof -
  let ?a = "tx_attestation tx" and ?p = "tx_payload tx"
  have cred: "sig_wire_form (credential ?a)" and len: "length ?p \<le> MAX_PAYLOAD_SIZE"
    using ok by (simp_all add: tx_ok_def)
  obtain att where att: "att_to_bytes ?a = Some att" using att_roundtrip [OF cred] by blast
  let ?b = "len32 (length ?p) @ ?p @ att"
  note base = tx_from_bytes_base [OF len cred att refl]
  consider (plain) "tx_raw_chain tx = None" "tx_zk_auth tx = None"
    | (raw) r where "tx_raw_chain tx = Some r" "tx_zk_auth tx = None" "raw_ok r"
    | (zk) zk where "tx_raw_chain tx = None" "tx_zk_auth tx = Some zk" "length (zk_proof zk) \<le> 65536"
    using ok by (auto simp: tx_ok_def MAX_ZK_PROOF_LEN_def split: option.splits)
  then show ?thesis
  proof cases
    case plain
    then show ?thesis
      using base [of "[]" None None] att
      by (simp add: tx_to_bytes_def encode_bytes_def read_zk_def read_raw_chain_def)
  next
    case (zk zk)
    then show ?thesis
      using base [OF read_zk_roundtrip [OF zk(3)], of None] att
      by (simp add: tx_to_bytes_def encode_bytes_def)
  next
    case (raw r)
    let ?r = "?b @ raw_kind_tag (rc_kind r) # len32 (length (rc_bytes r)) @ rc_bytes r"
    have raw_len: "length (rc_bytes r) < 2 ^ 32" using raw(3) by (simp add: raw_ok_def)
    have lr: "length ?b + 5 + length (rc_bytes r) = length ?r" by simp
    obtain ext where ext: "raw_extension ?r r = Some (?r @ ext)"
        and cert: "read_certificate (?r @ ext) (length ?r) = Inr (rc_certificate r)"
      using raw_extension_roundtrip [OF raw(3)] by blast
    have enc: "tx_to_bytes tx = Some (?r @ ext)"
      using raw(1) att ext by (simp add: tx_to_bytes_def encode_bytes_def raw_extension_def)
    note rr = read_raw_roundtrip [OF raw_len refl, of ?b ext, unfolded lr, OF cert]
    show ?thesis
      using base [of "(raw_kind_tag (rc_kind r) # len32 (length (rc_bytes r)) @ rc_bytes r) @ ext" None "Some r"]
        rr enc raw(1,2)
      by simp
  qed
qed

definition sample_attestation :: attestation where
  "sample_attestation = \<lparr>obj_hash = 17, att_idcom = 34, att_domain = \<lparr>dom_chain_id = 1, dom_slot = 9\<rparr>,
     context_tag = 0, credential = zero_ed25519_sig\<rparr>"

definition sample_zk_tx :: transaction where
  "sample_zk_tx = \<lparr>tx_payload = [1, 2], tx_attestation = sample_attestation\<lparr>credential := ml_dsa_44_stripped\<rparr>,
     tx_raw_chain = None,
     tx_zk_auth = Some \<lparr>zk_proof = [5, 6], zk_target = 1, zk_rp_com = 2, zk_nonce = 3\<rparr>\<rparr>"

theorem transaction_wire_roundtrip_witness:
  "\<exists>w. tx_to_bytes sample_zk_tx = Some w \<and> tx_from_bytes w = Inr sample_zk_tx"
  by (rule transaction_wire_roundtrip)
     (simp add: tx_ok_def sample_zk_tx_def sample_attestation_def sig_wire_form_def
       MAX_PAYLOAD_SIZE_def MAX_ZK_PROOF_LEN_def)

section \<open>Identity of a transaction\<close>

lemma len32_inj: "len32 m = len32 n \<Longrightarrow> m < 2 ^ 32 \<Longrightarrow> n < 2 ^ 32 \<Longrightarrow> m = n"
  by (metis len32_read)

lemma domain_bytes_inj [simp]: "domain_bytes a = domain_bytes b \<longleftrightarrow> a = b"
  by (metis domain_from_to)

lemma bytes16_inj [simp]: "bytes16 a = bytes16 b \<longleftrightarrow> a = b"
  by (metis tag_from_to)

lemma identity_bytes_inj:
  "to_identity_bytes a = to_identity_bytes b \<longleftrightarrow>
    obj_hash a = obj_hash b \<and> att_idcom a = att_idcom b \<and> att_domain a = att_domain b
    \<and> context_tag a = context_tag b"
  by (simp add: to_identity_bytes_def append_same_len)

lemma length_identity_bytes [simp]: "length (to_identity_bytes a) = 88"
  by (simp add: to_identity_bytes_def)

lemma tx_preimage_inj:
  assumes "tx_preimage a = tx_preimage b"
    and "length (tx_payload a) < 2 ^ 32" and "length (tx_payload b) < 2 ^ 32"
  shows "tx_payload a = tx_payload b \<and> to_identity_bytes (tx_attestation a) = to_identity_bytes (tx_attestation b)
    \<and> map_option (\<lambda>r. (rc_kind r, rc_bytes r)) (tx_raw_chain a)
      = map_option (\<lambda>r. (rc_kind r, rc_bytes r)) (tx_raw_chain b)"
proof -
  have "len32 (length (tx_payload a)) = len32 (length (tx_payload b))"
    using assms(1) by (simp add: tx_preimage_def append_same_len)
  then have len: "length (tx_payload a) = length (tx_payload b)" using len32_inj assms(2,3) by blast
  then have "tx_payload a = tx_payload b" "to_identity_bytes (tx_attestation a) = to_identity_bytes (tx_attestation b)"
    and ext: "(case tx_raw_chain a of Some r \<Rightarrow> raw_kind_tag (rc_kind r) # len32 (length (rc_bytes r)) @ rc_bytes r
         | None \<Rightarrow> []) = (case tx_raw_chain b of Some r \<Rightarrow> raw_kind_tag (rc_kind r)
             # len32 (length (rc_bytes r)) @ rc_bytes r | None \<Rightarrow> [])"
    using assms(1) by (simp_all add: tx_preimage_def append_same_len)
  moreover have "raw_kind_tag k = raw_kind_tag k' \<longleftrightarrow> k = k'" for k k'
    by (metis raw_kind_roundtrip(1) option.inject)
  ultimately show ?thesis by (auto simp: append_same_len split: option.splits)
qed

lemma stripped_unverifiable:
  assumes "is_credential_stripped t"
  shows "\<not> verify_credential cr (tx_attestation t) p k"
proof -
  have "sig_alg (credential (tx_attestation t)) = MlDsa44" "sig_bytes (credential (tx_attestation t)) = []"
    using assms by (simp_all add: is_credential_stripped_def split: if_splits)
  then show ?thesis by (simp add: verify_credential_def verify_signature_def sig_well_formed_def)
qed


definition sample_pqc_tx :: transaction where
  "sample_pqc_tx = tx_new [1, 9] (sample_attestation\<lparr>credential := \<lparr>sig_alg = MlDsa44, sig_bytes = replicate 2420 7\<rparr>\<rparr>)"


end
