(* ===== verification/Tx_Ops.thy ===== *)
theory Tx_Ops
  imports Transactions
begin

text \<open>
  Transaction payloads, after \<open>TransactionOp\<close> of \<open>ace-engine/src/executor.rs\<close>: the operations,
  their encoder and the decoder with its length dispatch. An index range outside the payload
  would be a panic; every read below is guarded by a length check, as in the source.
\<close>

definition OP_TRANSFER :: u8 where "OP_TRANSFER = 0x01"
definition OP_CREATE_ACCOUNT :: u8 where "OP_CREATE_ACCOUNT = 0x02"
definition OP_SET_AUTH_PUBKEY :: u8 where "OP_SET_AUTH_PUBKEY = 0x03"
definition OP_ADD_AUTH_KEY :: u8 where "OP_ADD_AUTH_KEY = 0x04"
definition OP_REGISTER_ADDRESSES :: u8 where "OP_REGISTER_ADDRESSES = 0x05"
definition OP_HFI_PAY_CLAIM :: u8 where "OP_HFI_PAY_CLAIM = 0x06"
definition OP_HFI_PAY_CREATE :: u8 where "OP_HFI_PAY_CREATE = 0x07"
definition OP_HFI_PAY_FUND :: u8 where "OP_HFI_PAY_FUND = 0x08"
definition OP_HFI_PAY_EXPIRE :: u8 where "OP_HFI_PAY_EXPIRE = 0x09"
definition OP_HFI_PAY_REFUND :: u8 where "OP_HFI_PAY_REFUND = 0x0A"
definition OP_HFI_PAY_REGISTER_RECIPIENT :: u8 where "OP_HFI_PAY_REGISTER_RECIPIENT = 0x0B"
definition OP_APPROVE_VALIDATOR :: u8 where "OP_APPROVE_VALIDATOR = 0x0C"

lemmas opcode_defs = OP_TRANSFER_def OP_CREATE_ACCOUNT_def OP_SET_AUTH_PUBKEY_def OP_ADD_AUTH_KEY_def
  OP_REGISTER_ADDRESSES_def OP_HFI_PAY_CLAIM_def OP_HFI_PAY_CREATE_def OP_HFI_PAY_FUND_def
  OP_HFI_PAY_EXPIRE_def OP_HFI_PAY_REFUND_def OP_HFI_PAY_REGISTER_RECIPIENT_def OP_APPROVE_VALIDATOR_def

definition ADDR_TYPE_EVM :: u8 where "ADDR_TYPE_EVM = 0x01"
definition ADDR_TYPE_TRON :: u8 where "ADDR_TYPE_TRON = 0x02"
definition ADDR_TYPE_SOLANA :: u8 where "ADDR_TYPE_SOLANA = 0x03"
definition ADDR_TYPE_BTC :: u8 where "ADDR_TYPE_BTC = 0x04"
definition ADDR_TYPE_XID :: u8 where "ADDR_TYPE_XID = 0x10"
definition ADDR_TYPE_XADDRESS :: u8 where "ADDR_TYPE_XADDRESS = 0x11"

lemmas addr_type_defs = ADDR_TYPE_EVM_def ADDR_TYPE_TRON_def ADDR_TYPE_SOLANA_def ADDR_TYPE_BTC_def
  ADDR_TYPE_XID_def ADDR_TYPE_XADDRESS_def

record address_binding =
  ab_type :: u8
  ab_address :: bytes
  ab_proof_pubkey :: "bytes option"
  ab_proof_sig :: tagged_signature

record hfi_create =
  hc_nonce :: u64
  hc_intent_id :: hash32
  hc_blinded_binding :: hash32
  hc_amount :: u64
  hc_chain_id :: u8
  hc_mint :: hash32
  hc_deposit_address :: hash32
  hc_binding_epoch :: u64
  hc_expiry_slot :: u64
  hc_refund_dest :: hash32
  hc_refund_authorizer :: hash32
  hc_identity_commitment :: hash32

record hfi_register =
  hr_nonce :: u64
  hr_xid :: hash32
  hr_identifier :: bytes
  hr_identity_commitment :: hash32
  hr_claim_binding_handle :: hash32
  hr_binding_epoch :: u64
  hr_chain_tag :: u8
  hr_valid_until_slot :: u64
  hr_pubkey :: bytes
  hr_signature :: bytes

datatype transaction_op =
    Transfer u64 account_id u64
  | CreateAccount account_id tagged_pubkey
  | SetAuthPubkey u64 tagged_pubkey
  | AddAuthKey u64 tagged_pubkey
  | RegisterAddresses u64 "address_binding list"
  | HfiPayClaim hash32 bytes "tagged_pubkey option" hash32
  | HfiPayCreate hfi_create
  | HfiPayFund u64 hash32 hash32 u64
  | HfiPayExpire hash32
  | HfiPayRefund u64 hash32 "(bytes \<times> bytes) option"
  | ApproveValidator u64 account_id bytes
  | HfiPayRegisterRecipient hfi_register

text \<open>The decoder has one error, \<open>InvalidPayload\<close>, with a message.\<close>

datatype payload_error = InvalidPayload string

section \<open>Decoding\<close>

definition u64_at :: "nat \<Rightarrow> bytes \<Rightarrow> u64" where "u64_at p d = u64_from_le (slice p 8 d)"
definition hash_at :: "nat \<Rightarrow> bytes \<Rightarrow> hash32" where "hash_at p d = hash_from_bytes (slice p 32 d)"
definition u16_at :: "nat \<Rightarrow> bytes \<Rightarrow> nat" where "u16_at p d = unat (u16_from_le (slice p 2 d))"

definition decode_transfer :: "bytes \<Rightarrow> payload_error + transaction_op" where
  "decode_transfer d =
    (if length d \<noteq> 49 then Inl (InvalidPayload ''transfer payload must be exactly 49 bytes'')
     else Inr (Transfer (u64_at 1 d) (hash_at 9 d) (u64_at 41 d)))"

definition decode_create_account :: "bytes \<Rightarrow> payload_error + transaction_op" where
  "decode_create_account d =
    (if length d < 33 then Inl (InvalidPayload ''create_account payload too short'')
     else let id_com = hash_at 1 d;
              key = (if length d = 65
                then if hash_at 33 d = 0
                     then Inl (InvalidPayload ''create_account auth_pubkey must be non-zero'')
                     else Inr \<lparr>pk_alg = Ed25519, pk_bytes = slice 33 32 d\<rparr>
                else if length d < 36
                then Inl (InvalidPayload ''create_account extended payload too short for alg+len'')
                else let pk_len = u16_at 34 d
                  in if length d \<noteq> 36 + pk_len
                     then Inl (InvalidPayload ''create_account extended payload length mismatch'')
                     else case alg_from_tag (d ! 33) of
                       None \<Rightarrow> Inl (InvalidPayload ''create_account unknown alg_tag'')
                     | Some alg \<Rightarrow> Inr \<lparr>pk_alg = alg, pk_bytes = slice 36 pk_len d\<rparr>)
       in case key of
            Inl e \<Rightarrow> Inl e
          | Inr k \<Rightarrow>
              if pk_is_zero k then Inl (InvalidPayload ''create_account auth_pubkey must be non-zero'')
              else Inr (CreateAccount id_com k))"

definition decode_set_auth_pubkey :: "bytes \<Rightarrow> payload_error + transaction_op" where
  "decode_set_auth_pubkey d =
    (if length d = 33 then Inr (SetAuthPubkey 0 \<lparr>pk_alg = Ed25519, pk_bytes = slice 1 32 d\<rparr>)
     else if length d = 41 then Inr (SetAuthPubkey (u64_at 1 d) \<lparr>pk_alg = Ed25519, pk_bytes = slice 9 32 d\<rparr>)
     else if length d = 1313 then Inr (SetAuthPubkey 0 \<lparr>pk_alg = MlDsa44, pk_bytes = drop 1 d\<rparr>)
     else if length d = 1321 then Inr (SetAuthPubkey (u64_at 1 d) \<lparr>pk_alg = MlDsa44, pk_bytes = drop 9 d\<rparr>)
     else if 12 \<le> length d
     then case pk_from_wire (drop 9 d) of
            Inl e \<Rightarrow> Inl (InvalidPayload ''SetAuthPubkey'')
          | Inr (k, consumed) \<Rightarrow>
              if consumed \<noteq> length (drop 9 d) then Inl (InvalidPayload ''SetAuthPubkey: trailing bytes after pubkey'')
              else Inr (SetAuthPubkey (u64_at 1 d) k)
     else Inl (InvalidPayload ''SetAuthPubkey: invalid payload length''))"

definition parse_tagged :: "bytes \<Rightarrow> payload_error + tagged_pubkey" where
  "parse_tagged b =
    (case pk_from_wire b of
       Inl e \<Rightarrow> Inl (InvalidPayload ''AddAuthKey'')
     | Inr (k, consumed) \<Rightarrow>
         if consumed \<noteq> length b then Inl (InvalidPayload ''AddAuthKey: trailing bytes after pubkey'') else Inr k)"

definition decode_add_auth_key :: "bytes \<Rightarrow> payload_error + transaction_op" where
  "decode_add_auth_key d =
    (let legacy = map_sum id (AddAuthKey 0) (parse_tagged (drop 1 d))
     in if 12 \<le> length d
        then case pk_from_wire (drop 9 d) of
               Inr (k, consumed) \<Rightarrow>
                 if consumed = length d - 9 then Inr (AddAuthKey (u64_at 1 d) k) else legacy
             | Inl e \<Rightarrow> legacy
        else legacy)"

text \<open>\<open>decode_binding\<close> returns the binding and the new offset.\<close>

definition decode_binding :: "bytes \<Rightarrow> nat \<Rightarrow> payload_error + address_binding \<times> nat" where
  "decode_binding d offset =
    (if length d - offset < 4 then Inl (InvalidPayload ''binding: truncated header'')
     else let address_type = d ! offset;
              address_len = u16_at (offset + 1) d;
              offset = offset + 3
       in if length d - offset < address_len then Inl (InvalidPayload ''binding: truncated address'')
          else let address = slice offset address_len d;
                   offset = offset + address_len
            in if length d \<le> offset then Inl (InvalidPayload ''binding: missing has_pubkey flag'')
               else let has_pubkey = (d ! offset \<noteq> 0);
                        offset = offset + 1;
                        key = (if has_pubkey
                               then case pk_from_wire (drop offset d) of
                                      Inl e \<Rightarrow> Inl (InvalidPayload ''binding proof_pubkey'')
                                    | Inr (k, consumed) \<Rightarrow> Inr (Some (pk_bytes k), offset + consumed)
                               else Inr (None, offset))
                 in case key of
                      Inl e \<Rightarrow> Inl e
                    | Inr (k, offset) \<Rightarrow>
                        (case sig_from_wire (drop offset d) of
                           Inl e \<Rightarrow> Inl (InvalidPayload ''binding proof_sig'')
                         | Inr (s, consumed) \<Rightarrow>
                             Inr (\<lparr>ab_type = address_type, ab_address = address, ab_proof_pubkey = k,
                                   ab_proof_sig = s\<rparr>, offset + consumed)))"

fun decode_bindings :: "nat \<Rightarrow> bytes \<Rightarrow> nat \<Rightarrow> payload_error + address_binding list" where
  "decode_bindings 0 d offset = Inr []"
| "decode_bindings (Suc n) d offset =
    (case decode_binding d offset of
       Inl e \<Rightarrow> Inl e
     | Inr (b, offset) \<Rightarrow>
         (case decode_bindings n d offset of
            Inl e \<Rightarrow> Inl e
          | Inr bs \<Rightarrow> Inr (b # bs)))"

definition decode_register_addresses :: "bytes \<Rightarrow> payload_error + transaction_op" where
  "decode_register_addresses d =
    (if length d < 10 then Inl (InvalidPayload ''RegisterAddresses payload too short'')
     else let cnt = unat (d ! 9)
       in if cnt = 0 \<or> 6 < cnt then Inl (InvalidPayload ''RegisterAddresses binding count must be 1..=6'')
          else map_sum id (RegisterAddresses (u64_at 1 d)) (decode_bindings cnt d 10))"

definition decode_hfi_pay_create :: "bytes \<Rightarrow> payload_error + transaction_op" where
  "decode_hfi_pay_create d =
    (let LEN = 1 + 8 + 32 + 32 + 8 + 1 + 32 + 32 + 8 + 8 + 32 + 32 + 32
     in if length d \<noteq> LEN then Inl (InvalidPayload ''HfiPayCreate payload must be 258 bytes'')
        else Inr (HfiPayCreate \<lparr>hc_nonce = u64_at 1 d, hc_intent_id = hash_at 9 d,
               hc_blinded_binding = hash_at 41 d, hc_amount = u64_at 73 d, hc_chain_id = d ! 81,
               hc_mint = hash_at 82 d, hc_deposit_address = hash_at 114 d,
               hc_binding_epoch = u64_at 146 d, hc_expiry_slot = u64_at 154 d,
               hc_refund_dest = hash_at 162 d, hc_refund_authorizer = hash_at 194 d,
               hc_identity_commitment = hash_at 226 d\<rparr>))"

definition decode_hfi_pay_fund :: "bytes \<Rightarrow> payload_error + transaction_op" where
  "decode_hfi_pay_fund d =
    (let LEN = 1 + 8 + 32 + 32 + 8
     in if length d \<noteq> LEN then Inl (InvalidPayload ''HfiPayFund payload must be 81 bytes'')
        else Inr (HfiPayFund (u64_at 1 d) (hash_at 9 d) (hash_at 41 d) (u64_at 73 d)))"

definition decode_hfi_pay_expire :: "bytes \<Rightarrow> payload_error + transaction_op" where
  "decode_hfi_pay_expire d =
    (if length d \<noteq> 33 then Inl (InvalidPayload ''HfiPayExpire payload must be 33 bytes'')
     else Inr (HfiPayExpire (hash_at 1 d)))"

definition decode_hfi_pay_refund :: "bytes \<Rightarrow> payload_error + transaction_op" where
  "decode_hfi_pay_refund d =
    (if length d < 41 then Inl (InvalidPayload ''HfiPayRefund payload must be at least 41 bytes'')
     else let nonce = u64_at 1 d; intent_id = hash_at 9 d
       in if length d = 41 then Inr (HfiPayRefund nonce intent_id None)
          else if d ! 41 \<noteq> 1 then Inl (InvalidPayload ''HfiPayRefund extended: auth_present must be 0x01'')
          else if length d < 44 then Inl (InvalidPayload ''HfiPayRefund extended: truncated'')
          else let pk_len = u16_at 42 d
            in if length d < 44 + pk_len + 2 then Inl (InvalidPayload ''HfiPayRefund extended: pubkey truncated'')
               else let sig_offset = 44 + pk_len;
                        sig_len = u16_at sig_offset d;
                        expected_total = sig_offset + 2 + sig_len
                 in if length d < expected_total then Inl (InvalidPayload ''HfiPayRefund extended: sig truncated'')
                    else if length d \<noteq> expected_total
                    then Inl (InvalidPayload ''HfiPayRefund extended: trailing bytes after sig'')
                    else Inr (HfiPayRefund nonce intent_id
                           (Some (slice 44 pk_len d, slice (sig_offset + 2) sig_len d))))"

definition decode_approve_validator :: "bytes \<Rightarrow> payload_error + transaction_op" where
  "decode_approve_validator d =
    (if length d < 73 then Inl (InvalidPayload ''ApproveValidator payload too short'')
     else let signing_pubkey = drop 41 d; pk_len = length signing_pubkey
       in if pk_len \<noteq> 32 \<and> pk_len \<noteq> 1312
          then Inl (InvalidPayload ''ApproveValidator: signing_pubkey must be 32 or 1312 bytes'')
          else Inr (ApproveValidator (u64_at 1 d) (hash_at 9 d) signing_pubkey))"

definition decode_hfi_pay_register_recipient :: "bytes \<Rightarrow> payload_error + transaction_op" where
  "decode_hfi_pay_register_recipient d =
    (let MIN_LEN = 1 + 8 + 32 + 2 + 32 + 32 + 8 + 1 + 8 + 2 + 2; MAX_ID_LEN = 256
     in if length d < MIN_LEN then Inl (InvalidPayload ''HfiPayRegisterRecipient payload too short'')
        else let id_len = u16_at 41 d; p = 43
          in if MAX_ID_LEN < id_len
             then Inl (InvalidPayload ''HfiPayRegisterRecipient: identifier length exceeds max 256'')
             else if length d < p + id_len + 32 + 32 + 8 + 1 + 8 + 2 + 2
             then Inl (InvalidPayload ''HfiPayRegisterRecipient: identifier truncated'')
             else let q = p + id_len;
                      pk_len = u16_at (q + 81) d;
                      r = q + 83
               in if length d < r + pk_len + 2
                  then Inl (InvalidPayload ''HfiPayRegisterRecipient: pubkey truncated'')
                  else let sig_len = u16_at (r + pk_len) d;
                           t = r + pk_len + 2;
                           expected = t + sig_len
                    in if length d \<noteq> expected
                       then Inl (InvalidPayload ''HfiPayRegisterRecipient: trailing or truncated signature'')
                       else Inr (HfiPayRegisterRecipient \<lparr>hr_nonce = u64_at 1 d, hr_xid = hash_at 9 d,
                              hr_identifier = slice p id_len d, hr_identity_commitment = hash_at q d,
                              hr_claim_binding_handle = hash_at (q + 32) d,
                              hr_binding_epoch = u64_at (q + 64) d, hr_chain_tag = d ! (q + 72),
                              hr_valid_until_slot = u64_at (q + 73) d,
                              hr_pubkey = slice r pk_len d, hr_signature = slice t sig_len d\<rparr>))"

definition decode_hfi_pay_claim :: "bytes \<Rightarrow> payload_error + transaction_op" where
  "decode_hfi_pay_claim d =
    (if length d < 1 + 32 + 1 + 1 + 32 then Inl (InvalidPayload ''HFI claim payload too short'')
     else let dest_len = unat (d ! 33); p = 34
       in if 32 < dest_len \<or> length d < p + dest_len + 1 + 32
          then Inl (InvalidPayload ''HFI claim: invalid dest_len or truncated payload'')
          else let destination = slice p dest_len d;
                   has_auth = d ! (p + dest_len);
                   p = p + dest_len + 1;
                   auth = (if has_auth = 0 then Inr (None, p)
                      else if has_auth \<noteq> 1 then Inl (InvalidPayload ''HFI claim: has_auth must be 0 or 1'')
                      else if length d < p + 2 then Inl (InvalidPayload ''HFI claim: truncated dest auth length'')
                      else let auth_len = u16_at p d; p = p + 2
                        in if length d < p + auth_len + 32
                           then Inl (InvalidPayload ''HFI claim: truncated dest auth pubkey'')
                           else case pk_from_wire (slice p auth_len d) of
                             Inl e \<Rightarrow> Inl (InvalidPayload ''HFI claim dest auth'')
                           | Inr (k, consumed) \<Rightarrow>
                               if consumed \<noteq> auth_len
                               then Inl (InvalidPayload ''HFI claim: dest auth wire format mismatch'')
                               else Inr (Some k, p + auth_len))
            in case auth of
                 Inl e \<Rightarrow> Inl e
               | Inr (k, p) \<Rightarrow>
                   if p + 32 \<noteq> length d
                   then Inl (InvalidPayload ''HFI claim: expected 32-byte auth_commitment at end'')
                   else Inr (HfiPayClaim (hash_at 1 d) destination k (hash_at p d)))"

definition decode :: "bytes \<Rightarrow> payload_error + transaction_op" where
  "decode d =
    (if d = [] then Inl (InvalidPayload ''empty payload'')
     else let opcode = d ! 0
       in if opcode = OP_TRANSFER then decode_transfer d
          else if opcode = OP_CREATE_ACCOUNT then decode_create_account d
          else if opcode = OP_SET_AUTH_PUBKEY then decode_set_auth_pubkey d
          else if opcode = OP_ADD_AUTH_KEY then decode_add_auth_key d
          else if opcode = OP_REGISTER_ADDRESSES then decode_register_addresses d
          else if opcode = OP_HFI_PAY_CLAIM then decode_hfi_pay_claim d
          else if opcode = OP_HFI_PAY_CREATE then decode_hfi_pay_create d
          else if opcode = OP_HFI_PAY_FUND then decode_hfi_pay_fund d
          else if opcode = OP_HFI_PAY_EXPIRE then decode_hfi_pay_expire d
          else if opcode = OP_HFI_PAY_REFUND then decode_hfi_pay_refund d
          else if opcode = OP_HFI_PAY_REGISTER_RECIPIENT then decode_hfi_pay_register_recipient d
          else if opcode = OP_APPROVE_VALIDATOR then decode_approve_validator d
          else Inl (InvalidPayload ''unknown opcode''))"

section \<open>Encoding\<close>

text \<open>\<open>None\<close> is a panic of the encoder, for key material or a destination that is too long.\<close>

definition binding_alg :: "u8 \<Rightarrow> signature_algorithm" where
  "binding_alg t =
    (if t = ADDR_TYPE_EVM \<or> t = ADDR_TYPE_TRON \<or> t = ADDR_TYPE_BTC then Secp256k1
     else if t = ADDR_TYPE_SOLANA then Ed25519
     else if t = ADDR_TYPE_XADDRESS then MlDsa44
     else Ed25519)"

definition encode_binding :: "address_binding \<Rightarrow> bytes option" where
  "encode_binding b =
    (let head = ab_type b # len16 (length (ab_address b)) @ ab_address b;
         key = (case ab_proof_pubkey b of
                  Some pk \<Rightarrow> map_option (\<lambda>w. 1 # w) (pk_to_wire \<lparr>pk_alg = binding_alg (ab_type b), pk_bytes = pk\<rparr>)
                | None \<Rightarrow> Some [0])
     in case (key, sig_to_wire (ab_proof_sig b)) of
          (Some k, Some s) \<Rightarrow> Some (head @ k @ s)
        | _ \<Rightarrow> None)"

fun encode_bindings :: "address_binding list \<Rightarrow> bytes option" where
  "encode_bindings [] = Some []"
| "encode_bindings (b # bs) =
    (case (encode_binding b, encode_bindings bs) of (Some x, Some y) \<Rightarrow> Some (x @ y) | _ \<Rightarrow> None)"

fun encode :: "transaction_op \<Rightarrow> bytes option" where
  "encode (Transfer nonce to amount) =
    Some (OP_TRANSFER # u64_le nonce @ bytes32 to @ u64_le amount)"
| "encode (CreateAccount id_com k) =
    (if pk_alg k = Ed25519 \<and> length (pk_bytes k) = 32
     then Some (OP_CREATE_ACCOUNT # bytes32 id_com @ pk_bytes k)
     else Some (OP_CREATE_ACCOUNT # bytes32 id_com @ alg_tag (pk_alg k) # len16 (length (pk_bytes k)) @ pk_bytes k))"
| "encode (SetAuthPubkey nonce k) = Some (OP_SET_AUTH_PUBKEY # u64_le nonce @ pk_bytes k)"
| "encode (AddAuthKey nonce k) = map_option (\<lambda>w. OP_ADD_AUTH_KEY # u64_le nonce @ w) (pk_to_wire k)"
| "encode (RegisterAddresses nonce bs) =
    map_option (\<lambda>w. OP_REGISTER_ADDRESSES # u64_le nonce @ word_of_nat (length bs) # w) (encode_bindings bs)"
| "encode (HfiPayClaim intent_id destination auth commitment) =
    (if 32 < length destination then None
     else let head = OP_HFI_PAY_CLAIM # bytes32 intent_id @ word_of_nat (length destination) # destination
       in case auth of
            None \<Rightarrow> Some (head @ 0 # bytes32 commitment)
          | Some k \<Rightarrow>
              (case pk_to_wire k of
                 None \<Rightarrow> None
               | Some w \<Rightarrow> if 65535 < length w then None
                           else Some (head @ 1 # len16 (length w) @ w @ bytes32 commitment)))"
| "encode (HfiPayCreate c) =
    Some (OP_HFI_PAY_CREATE # u64_le (hc_nonce c) @ bytes32 (hc_intent_id c)
      @ bytes32 (hc_blinded_binding c) @ u64_le (hc_amount c) @ hc_chain_id c # bytes32 (hc_mint c)
      @ bytes32 (hc_deposit_address c) @ u64_le (hc_binding_epoch c) @ u64_le (hc_expiry_slot c)
      @ bytes32 (hc_refund_dest c) @ bytes32 (hc_refund_authorizer c) @ bytes32 (hc_identity_commitment c))"
| "encode (HfiPayFund nonce intent_id evidence amount) =
    Some (OP_HFI_PAY_FUND # u64_le nonce @ bytes32 intent_id @ bytes32 evidence @ u64_le amount)"
| "encode (HfiPayExpire intent_id) = Some (OP_HFI_PAY_EXPIRE # bytes32 intent_id)"
| "encode (HfiPayRefund nonce intent_id auth) =
    (case auth of
       None \<Rightarrow> Some (OP_HFI_PAY_REFUND # u64_le nonce @ bytes32 intent_id)
     | Some (pk, s) \<Rightarrow> Some (OP_HFI_PAY_REFUND # u64_le nonce @ bytes32 intent_id @ 1 # len16 (length pk)
                              @ pk @ len16 (length s) @ s))"
| "encode (HfiPayRegisterRecipient r) =
    Some (OP_HFI_PAY_REGISTER_RECIPIENT # u64_le (hr_nonce r) @ bytes32 (hr_xid r)
      @ len16 (length (hr_identifier r)) @ hr_identifier r @ bytes32 (hr_identity_commitment r)
      @ bytes32 (hr_claim_binding_handle r) @ u64_le (hr_binding_epoch r) @ hr_chain_tag r
      # u64_le (hr_valid_until_slot r) @ len16 (length (hr_pubkey r)) @ hr_pubkey r
      @ len16 (length (hr_signature r)) @ hr_signature r)"
| "encode (ApproveValidator nonce candidate pk) =
    Some (OP_APPROVE_VALIDATOR # u64_le nonce @ bytes32 candidate @ pk)"

section \<open>Round trip\<close>

definition binding_ok :: "address_binding \<Rightarrow> bool" where
  "binding_ok b = (length (ab_address b) < 65536 \<and> sig_wire_form (ab_proof_sig b) \<and>
     (case ab_proof_pubkey b of None \<Rightarrow> True
      | Some pk \<Rightarrow> length pk = pubkey_len (binding_alg (ab_type b))))"

fun op_ok :: "transaction_op \<Rightarrow> bool" where
  "op_ok (CreateAccount i k) = (pk_well_formed k \<and> \<not> pk_is_zero k)"
| "op_ok (SetAuthPubkey n k) = (pk_well_formed k \<and> (pk_alg k = Ed25519 \<or> pk_alg k = MlDsa44))"
| "op_ok (AddAuthKey n k) = pk_well_formed k"
| "op_ok (RegisterAddresses n bs) = (bs \<noteq> [] \<and> length bs \<le> 6 \<and> list_all binding_ok bs)"
| "op_ok (HfiPayClaim i d k c) = (length d \<le> 32 \<and> (case k of None \<Rightarrow> True | Some k \<Rightarrow> pk_well_formed k))"
| "op_ok (HfiPayRefund n i auth) =
    (case auth of None \<Rightarrow> True | Some (pk, s) \<Rightarrow> length pk < 65536 \<and> length s < 65536)"
| "op_ok (HfiPayRegisterRecipient r) =
    (length (hr_identifier r) \<le> 256 \<and> length (hr_pubkey r) < 65536 \<and> length (hr_signature r) < 65536)"
| "op_ok (ApproveValidator n i pk) = (length pk = 32 \<or> length pk = 1312)"
| "op_ok _ = True"

lemmas field_defs = u64_at_def hash_at_def u16_at_def

definition roundtrips :: "transaction_op \<Rightarrow> bool" where
  "roundtrips op = (\<exists>w. encode op = Some w \<and> decode w = Inr op)"

lemma transfer_roundtrip: "roundtrips (Transfer n i a)"
  by (simp add: roundtrips_def decode_def decode_transfer_def opcode_defs field_defs codec_simps)

lemma hfi_fixed_roundtrip:
  "roundtrips (HfiPayCreate c)" "roundtrips (HfiPayFund n i e a)" "roundtrips (HfiPayExpire i)"
  by (simp_all add: roundtrips_def decode_def decode_hfi_pay_create_def decode_hfi_pay_fund_def
      decode_hfi_pay_expire_def opcode_defs field_defs codec_simps)

lemma approve_roundtrip: "length pk = 32 \<or> length pk = 1312 \<Longrightarrow> roundtrips (ApproveValidator n i pk)"
  by (auto simp: roundtrips_def decode_def decode_approve_validator_def opcode_defs field_defs codec_simps)

lemma set_auth_roundtrip:
  "pk_well_formed k \<Longrightarrow> pk_alg k = Ed25519 \<or> pk_alg k = MlDsa44 \<Longrightarrow> roundtrips (SetAuthPubkey n k)"
  by (cases k) (auto simp: roundtrips_def decode_def decode_set_auth_pubkey_def opcode_defs field_defs
      codec_simps pk_well_formed_def)

lemma create_account_roundtrip:
  assumes "pk_well_formed k" and "\<not> pk_is_zero k"
  shows "roundtrips (CreateAccount i k)"
proof (cases "pk_alg k = Ed25519")
  case True
  then have len: "length (pk_bytes k) = 32" using assms(1) by (simp add: pk_well_formed_def)
  have "hash_from_bytes (pk_bytes k) \<noteq> 0"
  proof
    assume z: "hash_from_bytes (pk_bytes k) = 0"
    have "nat_of_le (rev (pk_bytes k)) < 2 ^ 256" using nat_of_le_lt [of "rev (pk_bytes k)"] len by simp
    then have "unat (hash_from_bytes (pk_bytes k)) = nat_of_le (rev (pk_bytes k))"
      by (simp add: hash_from_bytes_def unat_of_nat)
    then have "nat_of_le (rev (pk_bytes k)) = 0" using z by simp
    then have "rev (pk_bytes k) = le_bytes 32 0"
      using le_bytes_nat_of [of "rev (pk_bytes k)"] len by simp
    moreover have "list_all (\<lambda>b. b = 0) (le_bytes m 0)" for m by (induction m) simp_all
    ultimately show False using assms(2) by (metis pk_is_zero_def list_all_rev)
  qed
  then show ?thesis
    using True len assms(2)
    by (cases k) (simp add: roundtrips_def decode_def decode_create_account_def opcode_defs field_defs codec_simps)
next
  case False
  have "length (pk_bytes k) = pubkey_len (pk_alg k)" using assms(1) by (simp add: pk_well_formed_def)
  then have len: "length (pk_bytes k) < 65536" "length (pk_bytes k) \<noteq> 29"
    by (cases "pk_alg k"; simp)+
  then show ?thesis
    using False assms(2)
    by (cases k) (simp add: roundtrips_def decode_def decode_create_account_def opcode_defs field_defs
        codec_simps len16_read Let_def)
qed

lemma pk_wire_length: "pk_to_wire k = Some w \<Longrightarrow> length w = 3 + length (pk_bytes k)"
  by (auto simp: pk_to_wire_def split: if_splits)

lemma add_auth_key_roundtrip:
  assumes "pk_well_formed k"
  shows "roundtrips (AddAuthKey n k)"
proof -
  obtain w where w: "pk_to_wire k = Some w" using pk_wire_total [OF assms] by blast
  then show ?thesis
    using pk_wire_decode [OF assms w, of "[]"] pk_wire_length [OF w]
    by (simp add: roundtrips_def decode_def decode_add_auth_key_def opcode_defs field_defs codec_simps Let_def)
qed

lemma refund_roundtrip:
  "roundtrips (HfiPayRefund n i None)"
  "length pk < 65536 \<Longrightarrow> length s < 65536 \<Longrightarrow> roundtrips (HfiPayRefund n i (Some (pk, s)))"
  by (simp_all add: roundtrips_def decode_def decode_hfi_pay_refund_def opcode_defs field_defs codec_simps
      len16_read Let_def)

lemma register_recipient_roundtrip:
  assumes "length (hr_identifier r) \<le> 256" and "length (hr_pubkey r) < 65536"
    and "length (hr_signature r) < 65536"
  shows "roundtrips (HfiPayRegisterRecipient r)"
  using assms
  by (simp add: roundtrips_def decode_def decode_hfi_pay_register_recipient_def opcode_defs field_defs
      codec_simps len16_read Let_def)

lemma claim_roundtrip:
  assumes "length d \<le> 32" and "case k of None \<Rightarrow> True | Some k \<Rightarrow> pk_well_formed k"
  shows "roundtrips (HfiPayClaim i d k c)"
proof (cases k)
  case None
  have "unat (word_of_nat (length d) :: u8) = length d" using assms(1) by (simp add: unat_of_nat)
  then show ?thesis
    using None assms(1)
    by (simp add: roundtrips_def decode_def decode_hfi_pay_claim_def opcode_defs field_defs codec_simps Let_def)
next
  case (Some k')
  have d: "unat (word_of_nat (length d) :: u8) = length d" using assms(1) by (simp add: unat_of_nat)
  obtain w where w: "pk_to_wire k' = Some w" using pk_wire_total [of k'] assms(2) Some by auto
  have "length w \<le> 1315"
    using pk_wire_length [OF w] assms(2) Some by (cases "pk_alg k'") (simp_all add: pk_well_formed_def)
  then show ?thesis
    using Some assms d w pk_wire_decode [OF _ w, of "[]"]
    by (simp add: roundtrips_def decode_def decode_hfi_pay_claim_def opcode_defs field_defs codec_simps
        Let_def len16_read)
qed

lemma binding_roundtrip:
  assumes ok: "binding_ok b"
  shows "\<exists>w. encode_binding b = Some w \<and>
    (\<forall>pre rest. decode_binding (pre @ w @ rest) (length pre) = Inr (b, length pre + length w))"
proof -
  obtain s where s: "sig_to_wire (ab_proof_sig b) = Some s"
    using sig_wire_total ok by (auto simp: binding_ok_def)
  have sd: "sig_from_wire (s @ r) = Inr (ab_proof_sig b, length s)" for r
    using sig_wire_decode [OF _ s] ok by (simp add: binding_ok_def)
  have len: "length (ab_address b) < 65536" using ok by (simp add: binding_ok_def)
  show ?thesis
  proof (cases "ab_proof_pubkey b")
    case None
    show ?thesis
      using s sd len None
      by (cases b) (simp add: encode_binding_def decode_binding_def codec_simps field_defs len16_read Let_def)
  next
    case (Some pk)
    let ?k = "\<lparr>pk_alg = binding_alg (ab_type b), pk_bytes = pk\<rparr>"
    have k: "pk_well_formed ?k" using ok Some by (simp add: binding_ok_def pk_well_formed_def)
    obtain w where w: "pk_to_wire ?k = Some w" using pk_wire_total [OF k] by blast
    show ?thesis
      using s sd len Some w pk_wire_decode [OF k w]
      by (cases b) (simp add: encode_binding_def decode_binding_def codec_simps field_defs len16_read Let_def)
  qed
qed

lemma bindings_roundtrip:
  assumes "list_all binding_ok bs"
  shows "\<exists>w. encode_bindings bs = Some w \<and>
    (\<forall>pre. decode_bindings (length bs) (pre @ w) (length pre) = Inr bs)"
  using assms
proof (induction bs)
  case Nil
  then show ?case by simp
next
  case (Cons b bs)
  obtain w where w: "encode_binding b = Some w"
      "\<And>pre rest. decode_binding (pre @ w @ rest) (length pre) = Inr (b, length pre + length w)"
    using binding_roundtrip [of b] Cons.prems by auto
  obtain v where v: "encode_bindings bs = Some v"
      "\<And>pre. decode_bindings (length bs) (pre @ v) (length pre) = Inr bs"
    using Cons by auto
  have "decode_bindings (length bs) (pre @ w @ v) (length pre + length w) = Inr bs" for pre
    using v(2) [of "pre @ w"] by simp
  then show ?case using w v(1) by simp
qed

lemma register_addresses_roundtrip:
  assumes "bs \<noteq> []" and "length bs \<le> 6" and "list_all binding_ok bs"
  shows "roundtrips (RegisterAddresses n bs)"
proof -
  obtain w where w: "encode_bindings bs = Some w"
      "\<And>pre. decode_bindings (length bs) (pre @ w) (length pre) = Inr bs"
    using bindings_roundtrip [OF assms(3)] by blast
  have cnt: "unat (word_of_nat (length bs) :: u8) = length bs" using assms(2) by (simp add: unat_of_nat)
  have "decode_bindings (length bs) (OP_REGISTER_ADDRESSES # u64_le n @ word_of_nat (length bs) # w) 10 = Inr bs"
    using w(2) [of "OP_REGISTER_ADDRESSES # u64_le n @ [word_of_nat (length bs)]"] by simp
  then show ?thesis
    using assms(1,2) w(1) cnt
    by (simp add: roundtrips_def decode_def decode_register_addresses_def opcode_defs field_defs codec_simps Let_def)
qed


definition sample_bindings :: "address_binding list" where
  "sample_bindings = [\<lparr>ab_type = ADDR_TYPE_SOLANA, ab_address = replicate 32 4, ab_proof_pubkey = None,
     ab_proof_sig = zero_ed25519_sig\<rparr>]"


text \<open>
  The encoder of a key rotation writes the key without its algorithm. A 32-byte HMAC key
  comes back as an Ed25519 key, and a secp256k1 key comes back as an error.
\<close>

theorem set_auth_pubkey_loses_algorithm:
  assumes "length h = 32" and "length s = 33"
  shows "(\<exists>w. encode (SetAuthPubkey n \<lparr>pk_alg = HmacSha256, pk_bytes = h\<rparr>) = Some w
            \<and> decode w = Inr (SetAuthPubkey n \<lparr>pk_alg = Ed25519, pk_bytes = h\<rparr>))
    \<and> (\<exists>w e. encode (SetAuthPubkey n \<lparr>pk_alg = Secp256k1, pk_bytes = s\<rparr>) = Some w \<and> decode w = Inl e)"
proof
  show "\<exists>w. encode (SetAuthPubkey n \<lparr>pk_alg = HmacSha256, pk_bytes = h\<rparr>) = Some w
            \<and> decode w = Inr (SetAuthPubkey n \<lparr>pk_alg = Ed25519, pk_bytes = h\<rparr>)"
    using assms(1)
    by (simp add: decode_def decode_set_auth_pubkey_def opcode_defs field_defs codec_simps)
  have "consumed \<noteq> 33" if "pk_from_wire s = Inr (k, consumed)" for k consumed
  proof -
    have "consumed = 3 + pubkey_len (pk_alg k)"
      using that by (auto simp: pk_from_wire_def Let_def split: if_splits option.splits)
    then show ?thesis by (cases "pk_alg k") simp_all
  qed
  then show "\<exists>w e. encode (SetAuthPubkey n \<lparr>pk_alg = Secp256k1, pk_bytes = s\<rparr>) = Some w \<and> decode w = Inl e"
    using assms(2)
    by (auto simp: decode_def decode_set_auth_pubkey_def opcode_defs codec_simps split: sum.splits)
qed

theorem set_auth_pubkey_loses_algorithm_witness:
  "\<exists>w. encode (SetAuthPubkey 3 \<lparr>pk_alg = HmacSha256, pk_bytes = replicate 32 5\<rparr>) = Some w
     \<and> decode w = Inr (SetAuthPubkey 3 \<lparr>pk_alg = Ed25519, pk_bytes = replicate 32 5\<rparr>)"
  using set_auth_pubkey_loses_algorithm [of "replicate 32 5" "replicate 33 1" 3] by simp

end
