(* ===== verification/Executor.thy ===== *)
theory Executor
  imports Tx_Ops State_Tree
begin

text \<open>
  Execution of transactions, after \<open>ace-engine/src/executor.rs\<close> and \<open>transfer.rs\<close>: transfers,
  account creation, key rotation, address binding with proofs of ownership, nonces and the
  replay registry of ZK authorizations; single transactions and blocks with their up-front
  verification of signatures.

  A transaction that fails half way keeps the changes made before the failure: every
  operation returns the state next to its result. RIPEMD-160, Keccak-256 and the decompression
  of secp256k1 points are parameters, like the hash and signature primitives.
\<close>

section \<open>Environment, errors, receipts\<close>

record exec_env =
  ev_crypto :: crypto
  ev_zk :: zk_engine
  ev_ripemd160 :: "bytes \<Rightarrow> addr20"
  ev_keccak256 :: "bytes \<Rightarrow> hash32"
  ev_uncompressed :: "bytes \<Rightarrow> bytes option"
  ev_founder :: "account_id option"

datatype engine_error =
    EInsufficientBalance u64 u64
  | EAccountNotFound account_id
  | EInvalidNonce u64 u64
  | EInvalidPayload string
  | EAccountAlreadyExists account_id
  | EAccountExpired account_id
  | EBalanceOverflow u64 u64
  | ENonceOverflow account_id
  | EInvalidCredential account_id
  | EAddressAlreadyBound account_id
  | EInvalidBindingProof u8

datatype state_change =
    BalanceChange account_id u64 u64
  | NonceIncrement account_id u64
  | AccountCreated account_id
  | StorageChange account_id hash32 hash32 hash32
  | CodeDeployed account_id hash32
  | Fee u64
  | AddressBound account_id u8
  | AuthKeyUpdated account_id u8
  | IntentChange hash32 u8 u8 "hash32 option"
  | ZkReplayConsumed hash32 account_id

datatype receipt_error = ExecutionFailed engine_error | InvalidAttestationSignature

record execution_receipt =
  er_tx_hash :: hash32
  er_success :: bool
  er_sender :: account_id
  er_state_changes :: "state_change list"
  er_error :: "receipt_error option"

section \<open>Transfers\<close>

definition transfer_with_nonce_policy ::
    "crypto \<Rightarrow> state_tree \<Rightarrow> account_id \<Rightarrow> account_id \<Rightarrow> u64 \<Rightarrow> u64 option \<Rightarrow> bool
     \<Rightarrow> state_tree \<times> (engine_error + state_change list)" where
  "transfer_with_nonce_policy cr s src dst amount expected increment =
    (if is_stubbed s src then (s, Inl (EAccountExpired src))
     else case st_get s src of
       None \<Rightarrow> (s, Inl (EAccountNotFound src))
     | Some sender \<Rightarrow>
       if (case expected of Some nonce \<Rightarrow> acc_nonce sender \<noteq> nonce | None \<Rightarrow> False)
       then (s, Inl (EInvalidNonce (acc_nonce sender) (the expected)))
       else if acc_balance sender < amount then (s, Inl (EInsufficientBalance (acc_balance sender) amount))
       else if is_stubbed s dst then (s, Inl (EAccountExpired dst))
       else let s = (if \<not> st_contains s dst then st_insert cr (account_with_balance dst 0) s else s);
                old_sender_balance = acc_balance (the (st_get s src))
         in if src = dst
            then if \<not> increment then (s, Inr [])
                 else (case checked_add (acc_nonce (the (st_get s src))) 1 of
                         None \<Rightarrow> (s, Inl (ENonceOverflow src))
                       | Some new_nonce \<Rightarrow>
                           (st_modify src (\<lambda>a. a\<lparr>acc_nonce := new_nonce\<rparr>) s, Inr [NonceIncrement src new_nonce]))
            else let old_receiver_balance = acc_balance (the (st_get s dst))
              in if checked_add old_receiver_balance amount = None
                 then (s, Inl (EBalanceOverflow old_receiver_balance amount))
                 else let s = st_modify src (\<lambda>a. a\<lparr>acc_balance := acc_balance a - amount\<rparr>) s;
                          new_sender_balance = acc_balance (the (st_get s src));
                          nonce = acc_nonce (the (st_get s src))
                   in if increment \<and> checked_add nonce 1 = None then (s, Inl (ENonceOverflow src))
                      else let s = (if increment then st_modify src (\<lambda>a. a\<lparr>acc_nonce := nonce + 1\<rparr>) s else s);
                               s = st_modify dst (\<lambda>a. a\<lparr>acc_balance := acc_balance a + amount\<rparr>) s;
                               new_receiver_balance = acc_balance (the (st_get s dst))
                        in (s, Inr ([BalanceChange src old_sender_balance new_sender_balance]
                                    @ (if increment then [NonceIncrement src (nonce + 1)] else [])
                                    @ [BalanceChange dst old_receiver_balance new_receiver_balance])))"

definition transfer ::
    "crypto \<Rightarrow> state_tree \<Rightarrow> account_id \<Rightarrow> account_id \<Rightarrow> u64 \<Rightarrow> u64 option
     \<Rightarrow> state_tree \<times> (engine_error + state_change list)" where
  "transfer cr s src dst amount expected = transfer_with_nonce_policy cr s src dst amount expected True"

section \<open>Nonces and keys\<close>

definition consume_account_nonce :: "account \<Rightarrow> account_id \<Rightarrow> u64 \<Rightarrow> engine_error + account \<times> state_change" where
  "consume_account_nonce a sender nonce =
    (if acc_nonce a \<noteq> nonce then Inl (EInvalidNonce (acc_nonce a) nonce)
     else case checked_add (acc_nonce a) 1 of
       None \<Rightarrow> Inl (ENonceOverflow sender)
     | Some n \<Rightarrow> Inr (a\<lparr>acc_nonce := n\<rparr>, NonceIncrement sender n))"

definition consume_zk_replay ::
    "state_tree \<Rightarrow> transaction \<Rightarrow> account_id \<Rightarrow> state_tree \<times> (engine_error + state_change list)" where
  "consume_zk_replay s tx sender =
    (case tx_zk_auth tx of
       None \<Rightarrow> (s, Inl (EInvalidCredential (att_idcom (tx_attestation tx))))
     | Some zk \<Rightarrow>
         let (s, fresh) = zk_replay_consume s (zk_rp_com zk) sender
         in if \<not> fresh then (s, Inl (EInvalidPayload ''ZK-ACE replay commitment already consumed''))
            else (s, Inr [ZkReplayConsumed (zk_rp_com zk) sender]))"

definition check_approve_sender :: "account_id option \<Rightarrow> account_id \<Rightarrow> engine_error option" where
  "check_approve_sender founder sender =
    (case founder of
       None \<Rightarrow> Some (EInvalidPayload ''validator admission is disabled (no founder_id_com in genesis)'')
     | Some f \<Rightarrow> if sender \<noteq> f then Some (EInvalidPayload ''OP_APPROVE_VALIDATOR sender is not the founder'') else None)"

text \<open>A change of the sender's account through \<open>get_mut\<close> that may fail after the nonce is consumed.\<close>

definition with_sender ::
    "state_tree \<Rightarrow> account_id \<Rightarrow> u64 \<Rightarrow> (account \<Rightarrow> engine_error + account \<times> state_change list)
     \<Rightarrow> state_tree \<times> (engine_error + state_change list)" where
  "with_sender s sender nonce f =
    (case st_get s sender of
       None \<Rightarrow> (s, Inl (EAccountNotFound sender))
     | Some a \<Rightarrow>
         (case consume_account_nonce a sender nonce of
            Inl e \<Rightarrow> (s, Inl e)
          | Inr (a, change) \<Rightarrow>
              (case f a of
                 Inl e \<Rightarrow> (st_modify sender (\<lambda>_. a) s, Inl e)
               | Inr (a', changes) \<Rightarrow> (st_modify sender (\<lambda>_. a') s, Inr (change # changes)))))"

definition approve_validator_nonce ::
    "exec_env \<Rightarrow> state_tree \<Rightarrow> account_id \<Rightarrow> u64 \<Rightarrow> state_tree \<times> (engine_error + state_change list)" where
  "approve_validator_nonce env s sender nonce =
    (case check_approve_sender (ev_founder env) sender of
       Some e \<Rightarrow> (s, Inl e)
     | None \<Rightarrow> with_sender s sender nonce (\<lambda>a. Inr (a, [])))"

text \<open>\<open>auth_keys.remove(pos)\<close> and \<open>auth_keys[pos] = key\<close> at the first key of the algorithm.\<close>

fun remove_alg :: "signature_algorithm \<Rightarrow> tagged_pubkey list \<Rightarrow> tagged_pubkey list" where
  "remove_alg alg [] = []"
| "remove_alg alg (k # ks) = (if pk_alg k = alg then ks else k # remove_alg alg ks)"

fun replace_alg :: "tagged_pubkey \<Rightarrow> tagged_pubkey list \<Rightarrow> tagged_pubkey list" where
  "replace_alg key [] = []"
| "replace_alg key (k # ks) = (if pk_alg k = pk_alg key then key # ks else k # replace_alg key ks)"

definition key_error :: "auth_key_error \<Rightarrow> engine_error" where
  "key_error e = EInvalidPayload (case e of
     PrimaryAlgorithmTaken \<Rightarrow> ''primary algorithm'' | AlgorithmTaken \<Rightarrow> ''algorithm'' | TooManyAuthKeys \<Rightarrow> ''too many'')"

definition set_auth_pubkey :: "account \<Rightarrow> tagged_pubkey \<Rightarrow> engine_error + account" where
  "set_auth_pubkey a key =
    (if pk_is_zero (acc_auth_pubkey a)
     then Inr (a\<lparr>acc_auth_keys := remove_alg (pk_alg key) (acc_auth_keys a), acc_auth_pubkey := key\<rparr>)
     else if pk_alg key = pk_alg (acc_auth_pubkey a) then Inr (a\<lparr>acc_auth_pubkey := key\<rparr>)
     else if list_ex (\<lambda>k. pk_alg k = pk_alg key) (acc_auth_keys a)
     then Inr (a\<lparr>acc_auth_keys := replace_alg key (acc_auth_keys a)\<rparr>)
     else map_sum key_error id (add_auth_key a key))"

section \<open>Address bindings\<close>

definition btc_hash160 :: "exec_env \<Rightarrow> bytes \<Rightarrow> addr20" where
  "btc_hash160 env d = ev_ripemd160 env (bytes32 (sha256 (ev_crypto env) d))"

definition evm_address_from_secp256k1 :: "exec_env \<Rightarrow> bytes \<Rightarrow> engine_error + addr20" where
  "evm_address_from_secp256k1 env pk =
    (case ev_uncompressed env pk of
       None \<Rightarrow> Inl (EInvalidPayload ''invalid secp256k1 pubkey'')
     | Some point \<Rightarrow> Inr (addr_from_bytes (slice 12 20 (bytes32 (ev_keccak256 env (drop 1 point))))))"

definition bound_elsewhere :: "account_id option \<Rightarrow> account_id \<Rightarrow> engine_error option" where
  "bound_elsewhere existing i =
    (case existing of Some j \<Rightarrow> if j \<noteq> i then Some (EAddressAlreadyBound j) else None | None \<Rightarrow> None)"

text \<open>The EVM and TRON cases differ in the index, the field and the message of an error.\<close>

definition bind_secp_address ::
    "exec_env \<Rightarrow> u8 \<Rightarrow> string \<Rightarrow> (addr20 \<Rightarrow> account_id option) \<Rightarrow> (addr20 \<Rightarrow> account \<Rightarrow> account)
     \<Rightarrow> bytes \<Rightarrow> account \<Rightarrow> address_binding \<Rightarrow> engine_error + account" where
  "bind_secp_address env ty msg_len resolve upd msg a b =
    (case ab_proof_pubkey b of
       None \<Rightarrow> Inl (EInvalidBindingProof ty)
     | Some pk \<Rightarrow>
       if length pk \<noteq> 33 then Inl (EInvalidBindingProof ty)
       else if \<not> verify_signature (ev_crypto env) \<lparr>pk_alg = Secp256k1, pk_bytes = pk\<rparr> msg (ab_proof_sig b)
       then Inl (EInvalidBindingProof ty)
       else case evm_address_from_secp256k1 env pk of
         Inl e \<Rightarrow> Inl e
       | Inr derived \<Rightarrow>
         if length (ab_address b) \<noteq> 20 then Inl (EInvalidPayload msg_len)
         else let declared = addr_from_bytes (ab_address b)
           in if derived \<noteq> declared then Inl (EInvalidBindingProof ty)
              else case bound_elsewhere (resolve declared) (acc_id a) of
                Some e \<Rightarrow> Inl e
              | None \<Rightarrow> Inr (upd declared a))"

definition bind_solana :: "exec_env \<Rightarrow> state_tree \<Rightarrow> bytes \<Rightarrow> account \<Rightarrow> address_binding \<Rightarrow> engine_error + account" where
  "bind_solana env s msg a b =
    (if length (ab_address b) \<noteq> 32 then Inl (EInvalidPayload ''Solana address must be 32 bytes'')
     else if \<not> verify_signature (ev_crypto env) \<lparr>pk_alg = Ed25519, pk_bytes = ab_address b\<rparr> msg (ab_proof_sig b)
     then Inl (EInvalidBindingProof ADDR_TYPE_SOLANA)
     else let sol = hash_from_bytes (ab_address b)
       in case bound_elsewhere (resolve_solana s sol) (acc_id a) of
            Some e \<Rightarrow> Inl e
          | None \<Rightarrow> Inr (a\<lparr>acc_solana_address := Some sol\<rparr>))"

definition btc_script_matches :: "bytes \<Rightarrow> addr20 \<Rightarrow> bool option" where
  "btc_script_matches addr pk_hash =
    (if length addr = 25 \<and> addr ! 0 = 0x76 \<and> addr ! 1 = 0xa9 \<and> addr ! 2 = 0x14 \<and>
        addr ! 23 = 0x88 \<and> addr ! 24 = 0xac
     then Some (slice 3 20 addr = bytes20 pk_hash)
     else if length addr = 22 \<and> addr ! 0 = 0x00 \<and> addr ! 1 = 0x14
     then Some (slice 2 20 addr = bytes20 pk_hash)
     else None)"

definition bind_btc :: "exec_env \<Rightarrow> state_tree \<Rightarrow> bytes \<Rightarrow> account \<Rightarrow> address_binding \<Rightarrow> engine_error + account" where
  "bind_btc env s msg a b =
    (case ab_proof_pubkey b of
       None \<Rightarrow> Inl (EInvalidBindingProof ADDR_TYPE_BTC)
     | Some pk \<Rightarrow>
       if length pk \<noteq> 33 then Inl (EInvalidBindingProof ADDR_TYPE_BTC)
       else if \<not> verify_signature (ev_crypto env) \<lparr>pk_alg = Secp256k1, pk_bytes = pk\<rparr> msg (ab_proof_sig b)
       then Inl (EInvalidBindingProof ADDR_TYPE_BTC)
       else case btc_script_matches (ab_address b) (btc_hash160 env pk) of
         None \<Rightarrow> Inl (EInvalidPayload ''BTC binding with proof_pubkey requires P2PKH or P2WPKH script'')
       | Some valid_script \<Rightarrow>
         if \<not> valid_script then Inl (EInvalidBindingProof ADDR_TYPE_BTC)
         else case bound_elsewhere (resolve_btc s (ab_address b)) (acc_id a) of
           Some e \<Rightarrow> Inl e
         | None \<Rightarrow> Inr (a\<lparr>acc_btc_address := Some (ab_address b)\<rparr>))"

definition bind_xid :: "exec_env \<Rightarrow> state_tree \<Rightarrow> account_id \<Rightarrow> account \<Rightarrow> address_binding \<Rightarrow> engine_error + account" where
  "bind_xid env s sender a b =
    (if length (ab_address b) \<noteq> 32 then Inl (EInvalidPayload ''XID must be 32 bytes'')
     else let xid = hash_from_bytes (ab_address b)
       in if idcom_xid (ev_crypto env) xid \<noteq> sender then Inl (EInvalidBindingProof ADDR_TYPE_XID)
          else case bound_elsewhere (resolve_xid s xid) (acc_id a) of
            Some e \<Rightarrow> Inl e
          | None \<Rightarrow> Inr (a\<lparr>acc_xid := Some xid\<rparr>))"

definition bind_xaddress :: "exec_env \<Rightarrow> state_tree \<Rightarrow> bytes \<Rightarrow> account \<Rightarrow> address_binding \<Rightarrow> engine_error + account" where
  "bind_xaddress env s msg a b =
    (case ab_proof_pubkey b of
       None \<Rightarrow> Inl (EInvalidBindingProof ADDR_TYPE_XADDRESS)
     | Some pk \<Rightarrow>
       if length (ab_address b) \<noteq> 32 then Inl (EInvalidPayload ''xaddress must be 32 bytes'')
       else let declared = hash_from_bytes (ab_address b)
         in if xaddress_hash (ev_crypto env) pk \<noteq> declared then Inl (EInvalidBindingProof ADDR_TYPE_XADDRESS)
            else if \<not> verify_signature (ev_crypto env) \<lparr>pk_alg = MlDsa44, pk_bytes = pk\<rparr> msg (ab_proof_sig b)
            then Inl (EInvalidBindingProof ADDR_TYPE_XADDRESS)
            else case bound_elsewhere (resolve_xaddress s declared) (acc_id a) of
              Some e \<Rightarrow> Inl e
            | None \<Rightarrow> Inr (a\<lparr>acc_xaddress := Some declared\<rparr>))"

definition verify_and_apply_binding ::
    "exec_env \<Rightarrow> state_tree \<Rightarrow> account \<Rightarrow> account_id \<Rightarrow> address_binding \<Rightarrow> engine_error + account \<times> state_change" where
  "verify_and_apply_binding env s a sender b =
    (let msg = bytes32 (register_address_message (ev_crypto env) sender (ab_type b) (ab_address b));
         res = (if ab_type b = ADDR_TYPE_EVM
            then bind_secp_address env ADDR_TYPE_EVM ''EVM address must be 20 bytes'' (resolve_evm s)
                   (\<lambda>x a. a\<lparr>acc_evm_address := Some x\<rparr>) msg a b
            else if ab_type b = ADDR_TYPE_TRON
            then bind_secp_address env ADDR_TYPE_TRON ''TRON address must be 20 bytes'' (resolve_tron s)
                   (\<lambda>x a. a\<lparr>acc_tron_address := Some x\<rparr>) msg a b
            else if ab_type b = ADDR_TYPE_SOLANA then bind_solana env s msg a b
            else if ab_type b = ADDR_TYPE_BTC then bind_btc env s msg a b
            else if ab_type b = ADDR_TYPE_XID then bind_xid env s sender a b
            else if ab_type b = ADDR_TYPE_XADDRESS then bind_xaddress env s msg a b
            else Inl (EInvalidPayload ''unknown address type''))
     in case res of
          Inl e \<Rightarrow> Inl e
        | Inr a \<Rightarrow> Inr (a, AddressBound (acc_id a) (ab_type b)))"

fun apply_bindings ::
    "exec_env \<Rightarrow> state_tree \<Rightarrow> account_id \<Rightarrow> address_binding list \<Rightarrow> account
     \<Rightarrow> engine_error + account \<times> state_change list" where
  "apply_bindings env s sender [] a = Inr (a, [])"
| "apply_bindings env s sender (b # bs) a =
    (case verify_and_apply_binding env s a sender b of
       Inl e \<Rightarrow> Inl e
     | Inr (a, change) \<Rightarrow>
         (case apply_bindings env s sender bs a of
            Inl e \<Rightarrow> Inl e
          | Inr (a, changes) \<Rightarrow> Inr (a, change # changes)))"

definition register_addresses ::
    "exec_env \<Rightarrow> state_tree \<Rightarrow> account_id \<Rightarrow> u64 \<Rightarrow> address_binding list
     \<Rightarrow> state_tree \<times> (engine_error + state_change list)" where
  "register_addresses env s sender nonce bs =
    (case st_get s sender of
       None \<Rightarrow> (s, Inl (EAccountNotFound sender))
     | Some a \<Rightarrow>
         (case consume_account_nonce a sender nonce of
            Inl e \<Rightarrow> (s, Inl e)
          | Inr (a, change) \<Rightarrow>
              let s = st_modify sender (\<lambda>_. a) s
              in case apply_bindings env s sender bs a of
                   Inl e \<Rightarrow> (s, Inl e)
                 | Inr (updated, changes) \<Rightarrow>
                     (st_insert (ev_crypto env) updated s, Inr (change # changes))))"

section \<open>Transactions and blocks\<close>

definition create_account ::
    "exec_env \<Rightarrow> state_tree \<Rightarrow> account_id \<Rightarrow> account_id \<Rightarrow> tagged_pubkey
     \<Rightarrow> state_tree \<times> (engine_error + state_change list)" where
  "create_account env s sender id_com key =
    (if id_com \<noteq> sender then (s, Inl (EInvalidPayload ''CreateAccount id_com must equal sender''))
     else if st_contains s id_com then (s, Inl (EAccountAlreadyExists id_com))
     else (st_insert (ev_crypto env) (account_with_auth id_com 0 key) s, Inr [AccountCreated id_com]))"

definition execute_transfer ::
    "exec_env \<Rightarrow> state_tree \<Rightarrow> transaction \<Rightarrow> account_id \<Rightarrow> u64 \<Rightarrow> account_id \<Rightarrow> u64
     \<Rightarrow> state_tree \<times> (engine_error + state_change list)" where
  "execute_transfer env s tx sender nonce to amount =
    (if is_zk_auth tx
     then case consume_zk_replay s tx sender of
            (s, Inl e) \<Rightarrow> (s, Inl e)
          | (s, Inr changes) \<Rightarrow>
              (case transfer_with_nonce_policy (ev_crypto env) s sender to amount None False of
                 (s, Inl e) \<Rightarrow> (s, Inl e)
               | (s, Inr moved) \<Rightarrow> (s, Inr (changes @ moved)))
     else transfer (ev_crypto env) s sender to amount (Some nonce))"

definition HFI_MESSAGE :: string where
  "HFI_MESSAGE = ''HFI Pay opcode (0x06..=0x0B) is executed by the n-VM HFI hook''"

fun apply_op ::
    "exec_env \<Rightarrow> state_tree \<Rightarrow> transaction \<Rightarrow> account_id \<Rightarrow> transaction_op
     \<Rightarrow> state_tree \<times> (engine_error + state_change list)" where
  "apply_op env s tx sender (ApproveValidator nonce _ _) = approve_validator_nonce env s sender nonce"
| "apply_op env s tx sender (Transfer nonce to amount) = execute_transfer env s tx sender nonce to amount"
| "apply_op env s tx sender (CreateAccount id_com key) = create_account env s sender id_com key"
| "apply_op env s tx sender (SetAuthPubkey nonce key) =
    with_sender s sender nonce (\<lambda>a. case set_auth_pubkey a key of
      Inl e \<Rightarrow> Inl e | Inr a \<Rightarrow> Inr (a, [AuthKeyUpdated sender (alg_tag (pk_alg key))]))"
| "apply_op env s tx sender (AddAuthKey nonce key) =
    with_sender s sender nonce (\<lambda>a. case add_auth_key a key of
      Inl e \<Rightarrow> Inl (key_error e) | Inr a \<Rightarrow> Inr (a, [AuthKeyUpdated sender (alg_tag (pk_alg key))]))"
| "apply_op env s tx sender (RegisterAddresses nonce bs) = register_addresses env s sender nonce bs"
| "apply_op env s tx sender _ = (s, Inl (EInvalidPayload HFI_MESSAGE))"

definition ok_receipt :: "exec_env \<Rightarrow> transaction \<Rightarrow> state_change list \<Rightarrow> execution_receipt" where
  "ok_receipt env tx changes = \<lparr>er_tx_hash = tx_hash (ev_crypto env) tx, er_success = True,
     er_sender = att_idcom (tx_attestation tx), er_state_changes = changes, er_error = None\<rparr>"

fun is_transfer :: "transaction_op \<Rightarrow> bool" where
  "is_transfer (Transfer _ _ _) = True"
| "is_transfer _ = False"

definition execute_transaction_presigned ::
    "exec_env \<Rightarrow> state_tree \<Rightarrow> transaction \<Rightarrow> state_tree \<times> (engine_error + execution_receipt)" where
  "execute_transaction_presigned env s tx =
    (case decode (tx_payload tx) of
       Inl (InvalidPayload m) \<Rightarrow> (s, Inl (EInvalidPayload m))
     | Inr op \<Rightarrow>
         if is_zk_auth tx \<and> \<not> is_transfer op
         then (s, Inl (EInvalidPayload ''ZK-ACE authorization is only permitted for Transfer operations''))
         else (case apply_op env s tx (att_idcom (tx_attestation tx)) op of
                 (s, Inl e) \<Rightarrow> (s, Inl e)
               | (s, Inr changes) \<Rightarrow> (s, Inr (ok_receipt env tx changes))))"

text \<open>The key a rotation is verified with: the one on chain, or the new one for the first key.\<close>

definition rotation_key :: "account \<Rightarrow> signature_algorithm \<Rightarrow> tagged_pubkey \<Rightarrow> tagged_pubkey" where
  "rotation_key a alg new_key =
    (let fallback =
           (if has_provisioned_auth_key a
            then if \<not> pk_is_zero (acc_auth_pubkey a) then acc_auth_pubkey a
                 else (case find (\<lambda>k. \<not> pk_is_zero k) (acc_auth_keys a) of Some k \<Rightarrow> k | None \<Rightarrow> new_key)
            else new_key)
     in case auth_key_for_algorithm a alg of
          Some k \<Rightarrow> if \<not> pk_is_zero k then k else fallback
        | None \<Rightarrow> fallback)"

definition sender_key :: "account \<Rightarrow> signature_algorithm \<Rightarrow> tagged_pubkey" where
  "sender_key a alg = (case auth_key_for_algorithm a alg of Some k \<Rightarrow> k | None \<Rightarrow> acc_auth_pubkey a)"

definition verify_pubkey :: "state_tree \<Rightarrow> account_id \<Rightarrow> signature_algorithm \<Rightarrow> transaction_op \<Rightarrow> tagged_pubkey option" where
  "verify_pubkey s sender alg op =
    (let default = map_option (\<lambda>a. sender_key a alg) (st_get s sender)
     in case op of
          CreateAccount id_com key \<Rightarrow> if id_com = sender then Some key else default
        | SetAuthPubkey nonce key \<Rightarrow> map_option (\<lambda>a. rotation_key a alg key) (st_get s sender)
        | AddAuthKey nonce key \<Rightarrow> map_option (\<lambda>a. rotation_key a alg key) (st_get s sender)
        | _ \<Rightarrow> default)"

definition authorized :: "exec_env \<Rightarrow> state_tree \<Rightarrow> transaction \<Rightarrow> transaction_op \<Rightarrow> engine_error option" where
  "authorized env s tx op =
    (let sender = att_idcom (tx_attestation tx)
     in case tx_zk_auth tx of
          Some zk \<Rightarrow> if verify_zk_auth (ev_crypto env) (ev_zk env) tx zk then None else Some (EInvalidCredential sender)
        | None \<Rightarrow>
            (case verify_pubkey s sender (sig_alg (credential (tx_attestation tx))) op of
               None \<Rightarrow> Some (EAccountNotFound sender)
             | Some k \<Rightarrow>
                 if verify_credential (ev_crypto env) (tx_attestation tx) (tx_payload tx) k then None
                 else Some (EInvalidCredential sender)))"

definition execute_transaction ::
    "exec_env \<Rightarrow> state_tree \<Rightarrow> transaction \<Rightarrow> state_tree \<times> (engine_error + execution_receipt)" where
  "execute_transaction env s tx =
    (case decode (tx_payload tx) of
       Inl (InvalidPayload m) \<Rightarrow> (s, Inl (EInvalidPayload m))
     | Inr op \<Rightarrow>
         if is_zk_auth tx \<and> \<not> is_transfer op
         then (s, Inl (EInvalidPayload ''ZK-ACE authorization is only permitted for Transfer operations''))
         else case authorized env s tx op of
           Some e \<Rightarrow> (s, Inl e)
         | None \<Rightarrow>
           (case apply_op env s tx (att_idcom (tx_attestation tx)) op of
              (s, Inl e) \<Rightarrow> (s, Inl e)
            | (s, Inr changes) \<Rightarrow> (s, Inr (ok_receipt env tx changes))))"

text \<open>The first phase of \<open>execute_block\<close> looks at the state before the block only.\<close>

definition pre_pubkey :: "state_tree \<Rightarrow> transaction \<Rightarrow> tagged_pubkey option" where
  "pre_pubkey s tx =
    (case decode (tx_payload tx) of
       Inl e \<Rightarrow> None
     | Inr op \<Rightarrow> verify_pubkey s (att_idcom (tx_attestation tx)) (sig_alg (credential (tx_attestation tx))) op)"

definition sig_ok :: "exec_env \<Rightarrow> state_tree \<Rightarrow> transaction \<Rightarrow> bool" where
  "sig_ok env s tx =
    (case tx_zk_auth tx of
       Some zk \<Rightarrow> verify_zk_auth (ev_crypto env) (ev_zk env) tx zk
     | None \<Rightarrow>
         (case pre_pubkey s tx of
            None \<Rightarrow> False
          | Some k \<Rightarrow> if pk_is_zero k then False
                      else verify_credential (ev_crypto env) (tx_attestation tx) (tx_payload tx) k))"

definition failed_receipt :: "exec_env \<Rightarrow> transaction \<Rightarrow> receipt_error \<Rightarrow> execution_receipt" where
  "failed_receipt env tx e = \<lparr>er_tx_hash = tx_hash (ev_crypto env) tx, er_success = False,
     er_sender = att_idcom (tx_attestation tx), er_state_changes = [], er_error = Some e\<rparr>"

fun apply_block :: "exec_env \<Rightarrow> state_tree \<Rightarrow> (transaction \<times> bool) list \<Rightarrow> state_tree \<times> execution_receipt list" where
  "apply_block env s [] = (s, [])"
| "apply_block env s ((tx, ok) # txs) =
    (let (s, receipt) =
           (if ok
            then case execute_transaction_presigned env s tx of
                   (s, Inr r) \<Rightarrow> (s, r)
                 | (s, Inl e) \<Rightarrow> (s, failed_receipt env tx (ExecutionFailed e))
            else (s, failed_receipt env tx InvalidAttestationSignature));
         (s, receipts) = apply_block env s txs
     in (s, receipt # receipts))"

definition execute_block :: "exec_env \<Rightarrow> state_tree \<Rightarrow> transaction list \<Rightarrow> state_tree \<times> execution_receipt list" where
  "execute_block env s txs = apply_block env s (map (\<lambda>tx. (tx, sig_ok env s tx)) txs)"

section \<open>What execution never does\<close>

text \<open>
  From \<open>s\<close> to \<open>s'\<close> no account disappears, no nonce falls and no replay commitment is forgotten.
\<close>

definition steady :: "state_tree \<Rightarrow> state_tree \<Rightarrow> bool" where
  "steady s s' \<longleftrightarrow> st_wf s'
    \<and> (\<forall>i a. st_get s i = Some a \<longrightarrow> (\<exists>a'. st_get s' i = Some a' \<and> acc_nonce a \<le> acc_nonce a'))
    \<and> (\<forall>rp. zk_replay_contains s rp \<longrightarrow> zk_replay_contains s' rp)"

lemma steady_refl: "st_wf s \<Longrightarrow> steady s s"
  by (auto simp: steady_def)

lemma steady_trans: "steady s s' \<Longrightarrow> steady s' s'' \<Longrightarrow> steady s s''"
  unfolding steady_def by (meson order.trans)

lemma replay_modify [simp]: "zk_replay_contains (st_modify i f s) rp = zk_replay_contains s rp"
  by (simp add: zk_replay_contains_def st_modify_def)

lemma replay_insert [simp]: "zk_replay_contains (st_insert cr a s) rp = zk_replay_contains s rp"
  by (simp add: zk_replay_contains_def st_insert_def Let_def)

lemma put_account:
  assumes wf: "st_wf s" and a: "st_get s i = Some a" and id: "acc_id a' = i" and n: "acc_nonce a \<le> acc_nonce a'"
  shows "steady s (st_modify i (\<lambda>_. a') s)"
    and "st_total bal (st_modify i (\<lambda>_. a') s) + bal a = st_total bal s + bal a'"
    and "st_get (st_modify i (\<lambda>_. a') s) j = (if j = i then Some a' else st_get s j)"
proof -
  let ?f = "\<lambda>b. if acc_id b = i then a' else b"
  have eq: "st_modify i (\<lambda>_. a') s = st_modify i ?f s"
  proof -
    have "acc_id b = k" if "(k, b) \<in> set (accounts s)" for k b
      using wf that unfolding st_wf_def by blast
    then show ?thesis by (auto simp: st_modify_def bt_modify_def intro!: state_tree.equality)
  qed
  have wf': "st_wf (st_modify i ?f s)" by (rule st.swf_mod [OF wf]) (simp add: id)
  have get: "st_get (st_modify i (\<lambda>_. a') s) j = (if j = i then Some a' else st_get s j)" for j
    using st.sget_mod [OF wf, of i "\<lambda>_. a'" j] a by simp
  show "st_get (st_modify i (\<lambda>_. a') s) j = (if j = i then Some a' else st_get s j)" by (rule get)
  show "steady s (st_modify i (\<lambda>_. a') s)"
    using wf' n a unfolding steady_def eq [symmetric] get by auto
  show "st_total bal (st_modify i (\<lambda>_. a') s) + bal a = st_total bal s + bal a'"
    by (rule st.stot_mod [OF wf a])
qed

lemma insert_fresh:
  assumes wf: "st_wf s" and "st_get s (acc_id a) = None" and "acc_balance a = 0"
  shows "steady s (st_insert cr a s)" and "st_total bal (st_insert cr a s) = st_total bal s"
  using st.swf_ins [OF wf] st.stot_ins [OF wf, of bal cr a] assms(2,3)
  by (auto simp: steady_def st.sget_ins [OF wf] bal_def)

lemma insert_account:
  assumes wf: "st_wf s" and "st_get s (acc_id a') = Some a" and "acc_nonce a \<le> acc_nonce a'" and "bal a' = bal a"
  shows "steady s (st_insert cr a' s)" and "st_total bal (st_insert cr a' s) = st_total bal s"
    and "st_get (st_insert cr a' s) (acc_id a') = Some a'"
  using st.swf_ins [OF wf] st.stot_ins [OF wf, of bal cr a'] assms
  by (auto simp: steady_def st.sget_ins [OF wf])

section \<open>Each operation\<close>

text \<open>
  What one operation does to the state: it is steady, keeps the total unless a nonce overflows, and
  marks the sender's nonce, account or replay commitment as used when it succeeds.
\<close>

definition nonce_used :: "state_tree \<Rightarrow> account_id \<Rightarrow> u64 \<Rightarrow> bool" where
  "nonce_used s i n = (case st_get s i of Some a \<Rightarrow> n < acc_nonce a | None \<Rightarrow> False)"

definition sound_step :: "state_tree \<Rightarrow> (state_tree \<Rightarrow> bool) \<Rightarrow> state_tree \<times> (engine_error + 'a) \<Rightarrow> bool" where
  "sound_step s used = (\<lambda>(s', r). steady s s'
    \<and> ((\<forall>i. r \<noteq> Inl (ENonceOverflow i)) \<longrightarrow> st_total bal s' = st_total bal s)
    \<and> st_total bal s' \<le> st_total bal s
    \<and> (\<forall>x. r = Inr x \<longrightarrow> used s'))"

lemma sound_fail: "st_wf s \<Longrightarrow> sound_step s used (s, Inl e)"
  by (simp add: sound_step_def steady_refl)

lemma consume_nonce_Inr:
  assumes "consume_account_nonce a i n = Inr (a', c)"
  shows "acc_nonce a = n" and "acc_id a' = acc_id a" and "acc_balance a' = acc_balance a"
    and "acc_nonce a' = n + 1" and "n < n + 1"
proof -
  obtain m where m: "acc_nonce a = n" "checked_add n 1 = Some m" "a' = a\<lparr>acc_nonce := m\<rparr>"
    using assms by (auto simp: consume_account_nonce_def split: if_splits option.splits)
  have "unat m = unat n + 1" using checked_add_Some [OF m(2)] by simp
  moreover have "m = n + 1" using m(2) by (simp add: checked_add_def split: if_splits)
  ultimately show "acc_nonce a = n" "acc_id a' = acc_id a" "acc_balance a' = acc_balance a"
      "acc_nonce a' = n + 1" "n < n + 1"
    using m by (simp_all add: word_less_nat_alt)
qed

lemma with_sender_sound:
  assumes wf: "st_wf s"
    and f: "\<And>a a' cs. f a = Inr (a', cs) \<Longrightarrow> acc_id a' = acc_id a \<and> acc_balance a' = acc_balance a \<and> acc_nonce a' = acc_nonce a"
  shows "sound_step s (\<lambda>s'. nonce_used s' i n) (with_sender s i n f)"
proof (cases "st_get s i")
  case None
  then show ?thesis using wf by (simp add: with_sender_def sound_fail)
next
  case (Some a)
  show ?thesis
  proof (cases "consume_account_nonce a i n")
    case (Inl e)
    then show ?thesis using wf Some by (simp add: with_sender_def sound_fail)
  next
    case (Inr p)
    obtain b c where p: "p = (b, c)" by (cases p)
    note n = consume_nonce_Inr [OF Inr [unfolded p]]
    have le: "acc_nonce a \<le> acc_nonce b" using n by (simp add: less_imp_le)
    have id: "acc_id b = i" using st_get_id [OF wf Some] n(2) by simp
    have put: "sound_step s (\<lambda>s'. nonce_used s' i n) (st_modify i (\<lambda>_. b') s, r :: engine_error + state_change list)"
      if "acc_id b' = acc_id b" "acc_balance b' = acc_balance b" "acc_nonce b' = acc_nonce b" for b' r
    proof -
      have 1: "acc_id b' = i" and 2: "acc_nonce a \<le> acc_nonce b'" and 3: "bal b' = bal a"
        using that id le n by (simp_all add: bal_def)
      show ?thesis
        using put_account [OF wf Some 1 2] 3 that n by (auto simp: sound_step_def nonce_used_def)
    qed
    show ?thesis
      using Some Inr p put [of b] put f [of b]
      by (cases "f b") (auto simp: with_sender_def)
  qed
qed

lemma modify_steady:
  assumes wf: "st_wf s" and id: "\<And>a. acc_id (f a) = acc_id a" and n: "\<And>a. st_get s i = Some a \<Longrightarrow> acc_nonce a \<le> acc_nonce (f a)"
  shows "steady s (st_modify i f s)"
  using st.swf_mod [OF wf id] n by (auto simp: steady_def st.sget_mod [OF wf])

text \<open>The last part of a transfer between different accounts, after all checks.\<close>

definition move_funds :: "state_tree \<Rightarrow> account_id \<Rightarrow> account_id \<Rightarrow> u64 \<Rightarrow> bool \<Rightarrow> state_tree" where
  "move_funds s src dst amount increment =
    (let s = st_modify src (\<lambda>a. a\<lparr>acc_balance := acc_balance a - amount\<rparr>) s;
         nonce = acc_nonce (the (st_get s src));
         s = (if increment then st_modify src (\<lambda>a. a\<lparr>acc_nonce := nonce + 1\<rparr>) s else s)
     in st_modify dst (\<lambda>a. a\<lparr>acc_balance := acc_balance a + amount\<rparr>) s)"

lemma checked_add_unat:
  fixes x y :: u64
  assumes "checked_add x y \<noteq> None"
  shows "unat (x + y) = unat x + unat y"
proof -
  obtain z where z: "checked_add x y = Some z" using assms by blast
  then have "z = x + y" by (simp add: checked_add_def split: if_splits)
  then show ?thesis using checked_add_Some [OF z] by simp
qed

lemma debit_step:
  assumes wf: "st_wf s" and a: "st_get s src = Some a" and le: "amount \<le> acc_balance a"
  shows "steady s (st_modify src (\<lambda>a. a\<lparr>acc_balance := acc_balance a - amount\<rparr>) s)"
    and "st_total bal (st_modify src (\<lambda>a. a\<lparr>acc_balance := acc_balance a - amount\<rparr>) s) + unat amount = st_total bal s"
proof -
  show "steady s (st_modify src (\<lambda>a. a\<lparr>acc_balance := acc_balance a - amount\<rparr>) s)"
    by (rule modify_steady [OF wf]) simp_all
  have "unat (acc_balance a - amount) + unat amount = unat (acc_balance a)"
    using le by (simp add: unat_sub_le word_le_nat_alt)
  then show "st_total bal (st_modify src (\<lambda>a. a\<lparr>acc_balance := acc_balance a - amount\<rparr>) s) + unat amount = st_total bal s"
    using st.stot_mod [OF wf a, of bal "\<lambda>a. a\<lparr>acc_balance := acc_balance a - amount\<rparr>"] by (simp add: bal_def)
qed

lemma move_funds_effect:
  assumes wf: "st_wf s" and a: "st_get s src = Some a" and b: "st_get s dst = Some b" and ne: "src \<noteq> dst"
    and le: "amount \<le> acc_balance a" and room: "checked_add (acc_balance b) amount \<noteq> None"
    and inc: "increment \<Longrightarrow> checked_add (acc_nonce a) 1 \<noteq> None"
  shows "steady s (move_funds s src dst amount increment)"
    and "st_total bal (move_funds s src dst amount increment) = st_total bal s"
    and "st_get (move_funds s src dst amount increment) j =
      (if j = src then Some (a\<lparr>acc_balance := acc_balance a - amount,
                              acc_nonce := (if increment then acc_nonce a + 1 else acc_nonce a)\<rparr>)
       else if j = dst then Some (b\<lparr>acc_balance := acc_balance b + amount\<rparr>) else st_get s j)"
proof -
  let ?s1 = "st_modify src (\<lambda>a. a\<lparr>acc_balance := acc_balance a - amount\<rparr>) s"
  let ?n = "acc_nonce a"
  let ?s2 = "if increment then st_modify src (\<lambda>a. a\<lparr>acc_nonce := ?n + 1\<rparr>) ?s1 else ?s1"
  let ?s3 = "st_modify dst (\<lambda>a. a\<lparr>acc_balance := acc_balance a + amount\<rparr>) ?s2"
  note d = debit_step [OF wf a le]
  have wf1: "st_wf ?s1" using d(1) by (simp add: steady_def)
  have g1: "st_get ?s1 j = (if j = src then Some (a\<lparr>acc_balance := acc_balance a - amount\<rparr>) else st_get s j)" for j
    using a by (simp add: st.sget_mod [OF wf])
  have eq: "move_funds s src dst amount increment = ?s3"
    by (simp add: move_funds_def Let_def g1)
  have "?n \<le> ?n + 1" if increment
    using inc [OF that] by (auto simp: checked_add_def word_le_nat_alt unat_word_ariths split: if_splits)
  then have st2: "steady ?s1 ?s2"
    using modify_steady [OF wf1, of "\<lambda>a. a\<lparr>acc_nonce := ?n + 1\<rparr>" src] g1 steady_refl [OF wf1] by auto
  have wf2: "st_wf ?s2" using st2 by (simp add: steady_def)
  have g2: "st_get ?s2 j = (if j = src then Some (a\<lparr>acc_balance := acc_balance a - amount,
      acc_nonce := (if increment then ?n + 1 else ?n)\<rparr>) else st_get s j)" for j
    using g1 by (simp add: st.sget_mod [OF wf1])
  have t2: "st_total bal ?s2 = st_total bal ?s1"
    using st.stot_mod [OF wf1, of src _ bal "\<lambda>a. a\<lparr>acc_nonce := ?n + 1\<rparr>"] g1 by (auto simp: bal_def)
  have b2: "st_get ?s2 dst = Some b" using g2 b ne by simp
  have "unat (acc_balance b + amount) = unat (acc_balance b) + unat amount"
    by (rule checked_add_unat [OF room])
  then have t3: "st_total bal ?s3 = st_total bal ?s2 + unat amount"
    using st.stot_mod [OF wf2 b2, of bal "\<lambda>a. a\<lparr>acc_balance := acc_balance a + amount\<rparr>"] by (simp add: bal_def)
  have "steady ?s2 ?s3" by (rule modify_steady [OF wf2]) simp_all
  then show "steady s (move_funds s src dst amount increment)"
    unfolding eq using d(1) st2 steady_trans by blast
  show "st_total bal (move_funds s src dst amount increment) = st_total bal s"
    unfolding eq using t3 t2 d(2) by simp
  show "st_get (move_funds s src dst amount increment) j =
      (if j = src then Some (a\<lparr>acc_balance := acc_balance a - amount,
                              acc_nonce := (if increment then acc_nonce a + 1 else acc_nonce a)\<rparr>)
       else if j = dst then Some (b\<lparr>acc_balance := acc_balance b + amount\<rparr>) else st_get s j)"
    unfolding eq using g2 b ne by (simp add: st.sget_mod [OF wf2])
qed

lemma sound_after:
  assumes "steady s s1" and "st_total bal s1 = st_total bal s" and "sound_step s1 used p"
  shows "sound_step s used p"
  using assms steady_trans [of s s1] by (auto simp: sound_step_def)

text \<open>The receiver is created when it is missing.\<close>

definition with_receiver :: "crypto \<Rightarrow> state_tree \<Rightarrow> account_id \<Rightarrow> state_tree" where
  "with_receiver cr s dst = (if \<not> st_contains s dst then st_insert cr (account_with_balance dst 0) s else s)"

lemma with_receiver_effect:
  assumes wf: "st_wf s"
  shows "steady s (with_receiver cr s dst)" and "st_total bal (with_receiver cr s dst) = st_total bal s"
    and "st_get s src = Some a \<Longrightarrow> st_get (with_receiver cr s dst) src = Some a"
    and "\<exists>b. st_get (with_receiver cr s dst) dst = Some b"
proof -
  have c: "st_contains s dst \<longleftrightarrow> st_get s dst \<noteq> None"
    by (simp add: st_contains_def st_get_def bt_contains_def)
  have z: "acc_id (account_with_balance dst 0) = dst" "acc_balance (account_with_balance dst 0) = 0"
    by (simp_all add: account_with_balance_def account_new_def)
  show "steady s (with_receiver cr s dst)" "st_total bal (with_receiver cr s dst) = st_total bal s"
    using insert_fresh [OF wf, of "account_with_balance dst 0" cr] c z steady_refl [OF wf]
    by (auto simp: with_receiver_def)
  show "st_get s src = Some a \<Longrightarrow> st_get (with_receiver cr s dst) src = Some a"
    and "\<exists>b. st_get (with_receiver cr s dst) dst = Some b"
    using c z by (auto simp: with_receiver_def st.sget_ins [OF wf])
qed

lemma transfer_checked:
  assumes "\<not> is_stubbed s src" and "st_get s src = Some a" and "\<And>n. expected = Some n \<Longrightarrow> acc_nonce a = n"
    and "amount \<le> acc_balance a" and "\<not> is_stubbed s dst" and s1: "s1 = with_receiver cr s dst"
    and a1: "st_get s1 src = Some a" and b1: "st_get s1 dst = Some b" and wf1: "st_wf s1"
  shows "\<exists>cs. transfer_with_nonce_policy cr s src dst amount expected increment =
    (if src = dst
     then if \<not> increment then (s1, Inr [])
          else if checked_add (acc_nonce a) 1 = None then (s1, Inl (ENonceOverflow src))
          else (st_modify src (\<lambda>a'. a'\<lparr>acc_nonce := acc_nonce a + 1\<rparr>) s1, Inr [NonceIncrement src (acc_nonce a + 1)])
     else if checked_add (acc_balance b) amount = None then (s1, Inl (EBalanceOverflow (acc_balance b) amount))
     else if increment \<and> checked_add (acc_nonce a) 1 = None
     then (st_modify src (\<lambda>a. a\<lparr>acc_balance := acc_balance a - amount\<rparr>) s1, Inl (ENonceOverflow src))
     else (move_funds s1 src dst amount increment, Inr cs))"
proof -
  have n: "\<not> (case expected of Some nonce \<Rightarrow> acc_nonce a \<noteq> nonce | None \<Rightarrow> False)"
    using assms(3) by (auto split: option.splits)
  have g: "st_get (st_modify src (\<lambda>a. a\<lparr>acc_balance := acc_balance a - amount\<rparr>) s1) src
      = Some (a\<lparr>acc_balance := acc_balance a - amount\<rparr>)"
    using a1 by (simp add: st.sget_mod [OF wf1])
  have c: "checked_add (acc_nonce a) 1 = Some m \<Longrightarrow> m = acc_nonce a + 1" for m
    by (simp add: checked_add_def split: if_splits)
  show ?thesis
    unfolding transfer_with_nonce_policy_def
    using assms(1,2,4,5) n a1 b1 g c
    by (auto simp: s1 [symmetric, unfolded with_receiver_def] move_funds_def Let_def split: option.splits)
qed

lemma transfer_refused:
  assumes "\<not> (\<not> is_stubbed s src \<and> \<not> is_stubbed s dst \<and> (\<exists>a. st_get s src = Some a
    \<and> (\<forall>n. expected = Some n \<longrightarrow> acc_nonce a = n) \<and> amount \<le> acc_balance a))"
  shows "\<exists>e. transfer_with_nonce_policy cr s src dst amount expected increment = (s, Inl e)"
proof (cases "is_stubbed s src \<or> st_get s src = None")
  case True
  then show ?thesis by (auto simp: transfer_with_nonce_policy_def)
next
  case False
  then obtain a where a: "\<not> is_stubbed s src" "st_get s src = Some a" by auto
  show ?thesis
  proof (cases "case expected of Some nonce \<Rightarrow> acc_nonce a \<noteq> nonce | None \<Rightarrow> False")
    case True
    then show ?thesis using a by (simp add: transfer_with_nonce_policy_def)
  next
    case n: False
    then have "is_stubbed s dst \<or> acc_balance a < amount"
      using assms a by (auto simp: not_le split: option.splits)
    then show ?thesis using a n by (auto simp: transfer_with_nonce_policy_def)
  qed
qed

lemma transfer_sound:
  assumes wf: "st_wf s"
  shows "sound_step s (\<lambda>s'. increment \<longrightarrow> (\<forall>n. expected = Some n \<longrightarrow> nonce_used s' src n))
    (transfer_with_nonce_policy cr s src dst amount expected increment)"
    (is "sound_step s ?used ?t")
proof (cases "\<not> is_stubbed s src \<and> \<not> is_stubbed s dst \<and> (\<exists>a. st_get s src = Some a
    \<and> (\<forall>n. expected = Some n \<longrightarrow> acc_nonce a = n) \<and> amount \<le> acc_balance a)")
  case False
  then show ?thesis using transfer_refused [OF False, of cr increment] sound_fail [OF wf] by auto
next
  case True
  then obtain a where ok: "\<not> is_stubbed s src" "\<not> is_stubbed s dst" "st_get s src = Some a"
      "\<And>n. expected = Some n \<Longrightarrow> acc_nonce a = n" "amount \<le> acc_balance a" by blast
  define s1 where "s1 = with_receiver cr s dst"
  note r = with_receiver_effect [OF wf, where cr = cr and dst = dst, folded s1_def]
  obtain b where b: "st_get s1 dst = Some b" using r(4) by blast
  have wf1: "st_wf s1" using r(1) by (simp add: steady_def)
  note a1 = r(3) [OF ok(3)]
  have lt: "acc_nonce a < acc_nonce a + 1" if "checked_add (acc_nonce a) 1 \<noteq> None"
    using checked_add_unat [OF that] by (simp add: word_less_nat_alt)
  let ?f = "\<lambda>a'. a'\<lparr>acc_nonce := acc_nonce a + 1\<rparr>"
  have self: "sound_step s1 ?used (st_modify src ?f s1, Inr cs)" if c: "checked_add (acc_nonce a) 1 \<noteq> None" for cs
  proof -
    have "steady s1 (st_modify src ?f s1)"
      by (rule modify_steady [OF wf1]) (use a1 lt [OF c] in \<open>auto simp: less_imp_le\<close>)
    moreover have "st_total bal (st_modify src ?f s1) = st_total bal s1"
      using st.stot_mod [OF wf1 a1, of bal ?f] by (simp add: bal_def)
    moreover have "st_get (st_modify src ?f s1) src = Some (?f a)"
      using a1 by (simp add: st.sget_mod [OF wf1])
    ultimately show ?thesis using lt [OF c] ok(4) by (auto simp: sound_step_def nonce_used_def)
  qed
  have move: "sound_step s1 ?used (move_funds s1 src dst amount increment, Inr cs)"
    if ne: "src \<noteq> dst" "checked_add (acc_balance b) amount \<noteq> None"
      and c: "increment \<Longrightarrow> checked_add (acc_nonce a) 1 \<noteq> None" for cs
    using move_funds_effect(1,2) [OF wf1 a1 b ne(1) ok(5) ne(2) c]
      move_funds_effect(3) [OF wf1 a1 b ne(1) ok(5) ne(2) c, where j = src] lt [OF c]
    by (auto simp: sound_step_def nonce_used_def dest!: ok(4))
  have burn: "sound_step s1 ?used (st_modify src (\<lambda>a. a\<lparr>acc_balance := acc_balance a - amount\<rparr>) s1, Inl (ENonceOverflow src))"
    using debit_step [OF wf1 a1 ok(5)] by (simp add: sound_step_def)
  obtain cs where t: "?t = (if src = dst
     then if \<not> increment then (s1, Inr [])
          else if checked_add (acc_nonce a) 1 = None then (s1, Inl (ENonceOverflow src))
          else (st_modify src ?f s1, Inr [NonceIncrement src (acc_nonce a + 1)])
     else if checked_add (acc_balance b) amount = None then (s1, Inl (EBalanceOverflow (acc_balance b) amount))
     else if increment \<and> checked_add (acc_nonce a) 1 = None
     then (st_modify src (\<lambda>a. a\<lparr>acc_balance := acc_balance a - amount\<rparr>) s1, Inl (ENonceOverflow src))
     else (move_funds s1 src dst amount increment, Inr cs))"
    using transfer_checked [OF ok(1,3,4,5,2) s1_def a1 b wf1, where increment = increment and expected = expected] by blast
  have noop: "\<not> increment \<Longrightarrow> sound_step s1 ?used (s1, Inr [])"
    using wf1 by (simp add: sound_step_def steady_refl)
  have "sound_step s1 ?used ?t"
    unfolding t
    by (cases "src = dst"; cases increment; cases "checked_add (acc_nonce a) 1 = None";
        cases "checked_add (acc_balance b) amount = None"; use noop burn self move sound_fail [OF wf1] in \<open>simp del: not_None_eq\<close>)
  then show ?thesis by (rule sound_after [OF r(1,2)])
qed

end
