(* ===== verification/Execution.thy ===== *)
theory Execution
  imports Executor
begin

text \<open>
  What the executor guarantees. Every operation is a sound step: accounts stay, nonces never fall,
  replay commitments are never forgotten, the total balance is kept, and an operation that succeeds
  leaves a mark that makes the same transaction fail from then on. From this follow, for chains
  of blocks, that no transaction succeeds twice and that money is conserved. The up-front
  verification of signatures in \<open>execute_block\<close> agrees with one-by-one execution as long as no
  transaction of the block changes keys, and differs when one does.
\<close>

section \<open>The operations that change an account\<close>

text \<open>The fields no key or address operation touches.\<close>

definition same_funds :: "account \<Rightarrow> account \<Rightarrow> bool" where
  "same_funds a a' \<longleftrightarrow> acc_id a' = acc_id a \<and> acc_balance a' = acc_balance a \<and> acc_nonce a' = acc_nonce a"

definition same_auth :: "account \<Rightarrow> account \<Rightarrow> bool" where
  "same_auth a a' \<longleftrightarrow> acc_auth_pubkey a' = acc_auth_pubkey a \<and> acc_auth_keys a' = acc_auth_keys a"

lemma add_auth_key_funds: "add_auth_key a k = Inr a' \<Longrightarrow> same_funds a a'"
  by (auto simp: add_auth_key_def same_funds_def split: if_splits)

lemma set_auth_pubkey_funds: "set_auth_pubkey a k = Inr a' \<Longrightarrow> same_funds a a'"
  using add_auth_key_funds [of a k]
  by (cases "add_auth_key a k") (auto simp: set_auth_pubkey_def same_funds_def split: if_splits)

lemma bind_secp_frame:
  assumes "\<And>x. same_funds a (upd x a) \<and> same_auth a (upd x a)"
    and "bind_secp_address env ty m resolve upd msg a b = Inr a'"
  shows "same_funds a a' \<and> same_auth a a'"
  using assms by (auto simp: bind_secp_address_def Let_def split: option.splits if_splits sum.splits)

lemma bind_solana_frame: "bind_solana env s msg a b = Inr a' \<Longrightarrow> same_funds a a' \<and> same_auth a a'"
  by (auto simp: bind_solana_def Let_def same_funds_def same_auth_def split: option.splits if_splits)

lemma bind_btc_frame: "bind_btc env s msg a b = Inr a' \<Longrightarrow> same_funds a a' \<and> same_auth a a'"
  by (auto simp: bind_btc_def same_funds_def same_auth_def split: option.splits if_splits)

lemma bind_xid_frame: "bind_xid env s sender a b = Inr a' \<Longrightarrow> same_funds a a' \<and> same_auth a a'"
  by (auto simp: bind_xid_def Let_def same_funds_def same_auth_def split: option.splits if_splits)

lemma bind_xaddress_frame: "bind_xaddress env s msg a b = Inr a' \<Longrightarrow> same_funds a a' \<and> same_auth a a'"
  by (auto simp: bind_xaddress_def Let_def same_funds_def same_auth_def split: option.splits if_splits)

lemma result_with: "(case r of Inl e \<Rightarrow> Inl e | Inr a \<Rightarrow> Inr (a, g a)) = Inr (a', c) \<Longrightarrow> r = Inr a'"
  by (cases r) simp_all

lemma if_case: "(if c then x else y) = z \<Longrightarrow> (x = z \<Longrightarrow> P) \<Longrightarrow> (y = z \<Longrightarrow> P) \<Longrightarrow> P"
  by (cases c) simp_all

lemma binding_frame:
  assumes "verify_and_apply_binding env s a sender b = Inr (a', c)"
  shows "same_funds a a' \<and> same_auth a a'"
proof -
  have upd: "same_funds a (a\<lparr>acc_evm_address := x\<rparr>) \<and> same_auth a (a\<lparr>acc_evm_address := x\<rparr>)"
      "same_funds a (a\<lparr>acc_tron_address := x\<rparr>) \<and> same_auth a (a\<lparr>acc_tron_address := x\<rparr>)" for x
    by (simp_all add: same_funds_def same_auth_def)
  show ?thesis
    by (rule result_with [OF assms [unfolded verify_and_apply_binding_def Let_def], THEN if_case],
        erule bind_secp_frame [rotated], rule upd(1), erule if_case, erule bind_secp_frame [rotated], rule upd(2),
        erule if_case, erule bind_solana_frame, erule if_case, erule bind_btc_frame,
        erule if_case, erule bind_xid_frame, erule if_case, erule bind_xaddress_frame) simp
qed

lemma bindings_frame:
  "apply_bindings env s sender bs a = Inr (a', cs) \<Longrightarrow> same_funds a a' \<and> same_auth a a'"
proof (induction bs arbitrary: a a' cs)
  case Nil
  then show ?case by (simp add: same_funds_def same_auth_def)
next
  case (Cons b bs)
  from Cons.prems obtain a1 c cs' where
      1: "verify_and_apply_binding env s a sender b = Inr (a1, c)" and
      2: "apply_bindings env s sender bs a1 = Inr (a', cs')"
    by (auto split: sum.splits)
  from binding_frame [OF 1] Cons.IH [OF 2] show ?case by (simp add: same_funds_def same_auth_def)
qed

section \<open>Every operation is a sound step\<close>

lemma register_addresses_cases:
  obtains (fail) e where "register_addresses env s i n bs = (s, Inl e)"
  | (half) a b c e where "st_get s i = Some a" "consume_account_nonce a i n = Inr (b, c)"
      "register_addresses env s i n bs = (st_modify i (\<lambda>_. b) s, Inl e)"
  | (bound) a b c b' cs where "st_get s i = Some a" "consume_account_nonce a i n = Inr (b, c)"
      "same_funds b b'" "same_auth b b'"
      "register_addresses env s i n bs = (st_insert (ev_crypto env) b' (st_modify i (\<lambda>_. b) s), Inr (c # cs))"
proof (cases "st_get s i")
  case None
  then show ?thesis using fail by (simp add: register_addresses_def)
next
  case a: (Some a)
  show ?thesis
  proof (cases "consume_account_nonce a i n")
    case (Inl e)
    then show ?thesis using a fail by (simp add: register_addresses_def)
  next
    case n: (Inr p)
    obtain b c where p: "p = (b, c)" by (cases p)
    show ?thesis
    proof (cases "apply_bindings env (st_modify i (\<lambda>_. b) s) i bs b")
      case (Inl e)
      then show ?thesis using a n p half by (simp add: register_addresses_def Let_def)
    next
      case (Inr q)
      obtain b' cs where q: "q = (b', cs)" by (cases q)
      have "same_funds b b'" "same_auth b b'" using bindings_frame Inr q by auto
      then show ?thesis
        by (intro bound [of a b c b' cs]) (use a n p q Inr in \<open>simp_all add: register_addresses_def Let_def\<close>)
    qed
  qed
qed

lemma put_nonce:
  assumes wf: "st_wf s" and a: "st_get s i = Some a" and c: "consume_account_nonce a i n = Inr (b, c)"
  shows "steady s (st_modify i (\<lambda>_. b) s)" and "st_total bal (st_modify i (\<lambda>_. b) s) = st_total bal s"
    and "st_get (st_modify i (\<lambda>_. b) s) i = Some b" and "acc_id b = i" and "n < acc_nonce b"
proof -
  note n = consume_nonce_Inr [OF c]
  have le: "acc_nonce a \<le> acc_nonce b" using n by (simp add: less_imp_le)
  show id: "acc_id b = i" using st_get_id [OF wf a] n(2) by simp
  show "steady s (st_modify i (\<lambda>_. b) s)" "st_get (st_modify i (\<lambda>_. b) s) i = Some b"
    using put_account(1,3) [OF wf a id le] by simp_all
  show "st_total bal (st_modify i (\<lambda>_. b) s) = st_total bal s"
    using put_account(2) [OF wf a id le] n(3) by (simp add: bal_def)
  show "n < acc_nonce b" using n by simp
qed

lemma register_addresses_sound:
  assumes wf: "st_wf s"
  shows "sound_step s (\<lambda>s'. nonce_used s' i n) (register_addresses env s i n bs)"
proof (cases rule: register_addresses_cases [of env s i n bs])
  case (fail e)
  then show ?thesis using wf by (simp add: sound_fail)
next
  case (half a b c e)
  from put_nonce [OF wf half(1,2)] half(3) show ?thesis by (simp add: sound_step_def)
next
  case (bound a b c b' cs)
  note p = put_nonce [OF wf bound(1,2)]
  let ?s1 = "st_modify i (\<lambda>_. b) s"
  have wf1: "st_wf ?s1" using p(1) by (simp add: steady_def)
  have f: "acc_id b' = i" "acc_nonce b \<le> acc_nonce b'" "bal b' = bal b" "acc_nonce b' = acc_nonce b"
    using bound(3) p(4) by (simp_all add: same_funds_def bal_def)
  have g: "st_get ?s1 (acc_id b') = Some b" using p(3) f(1) by simp
  have "sound_step ?s1 (\<lambda>s'. nonce_used s' i n) (register_addresses env s i n bs)"
    using insert_account [OF wf1 g f(2,3), of "ev_crypto env"] f p(5) bound(5)
    by (simp add: sound_step_def nonce_used_def)
  then show ?thesis by (rule sound_after [OF p(1,2)])
qed

lemma st_contains_get: "st_contains s i \<longleftrightarrow> st_get s i \<noteq> None"
  by (simp add: st_contains_def st_get_def bt_contains_def)

lemma create_account_sound:
  assumes wf: "st_wf s"
  shows "sound_step s (\<lambda>s'. st_contains s' j) (create_account env s i j k)"
proof (cases "j \<noteq> i \<or> st_contains s j")
  case True
  then show ?thesis using wf by (auto simp: create_account_def intro: sound_fail)
next
  case False
  let ?a = "account_with_auth j 0 k"
  have a: "acc_id ?a = j" "acc_balance ?a = 0" by (simp_all add: account_with_auth_def account_new_def)
  have "st_get s (acc_id ?a) = None" using False a(1) by (simp add: st_contains_get)
  from insert_fresh [OF wf this a(2), of "ev_crypto env"] show ?thesis
    using False a(1) by (simp add: create_account_def sound_step_def st_contains_get st.sget_ins [OF wf])
qed

lemma replay_consume_effect:
  assumes wf: "st_wf s" and c: "zk_replay_consume s rp x = (s', f)"
  shows "steady s s'" and "st_total bal s' = st_total bal s" and "zk_replay_contains s' rp"
    and "f = (\<not> zk_replay_contains s rp)" and "st_get s' = st_get s"
proof -
  have s': "s' = (if zk_replay_contains s rp then s else s\<lparr>zk_replay_registry := bt_insert rp x (zk_replay_registry s)\<rparr>)"
    and f: "f = (\<not> zk_replay_contains s rp)"
    using c by (auto simp: zk_replay_consume_def zk_replay_contains_def split: if_splits)
  show "f = (\<not> zk_replay_contains s rp)" by (rule f)
  have wf': "st_wf s'" using wf by (simp add: s' st_wf_def)
  have mono: "zk_replay_contains s q \<Longrightarrow> zk_replay_contains s' q" for q
    using wf by (auto simp: s' zk_replay_contains_def bt_contains_def st_wf_def map_of_bt_insert)
  show get: "st_get s' = st_get s" by (rule ext) (simp add: s' st_get_def)
  show "steady s s'" using wf' mono by (auto simp: steady_def get)
  show "st_total bal s' = st_total bal s" by (simp add: s' st_total_def)
  show "zk_replay_contains s' rp"
    using wf by (auto simp: s' zk_replay_contains_def bt_contains_def st_wf_def map_of_bt_insert)
qed

text \<open>The mark a successful transaction leaves behind.\<close>

fun op_used :: "transaction \<Rightarrow> account_id \<Rightarrow> transaction_op \<Rightarrow> state_tree \<Rightarrow> bool" where
  "op_used tx i (Transfer n to amount) s =
    (case tx_zk_auth tx of Some zk \<Rightarrow> zk_replay_contains s (zk_rp_com zk) | None \<Rightarrow> nonce_used s i n)"
| "op_used tx i (CreateAccount j k) s = st_contains s j"
| "op_used tx i (SetAuthPubkey n k) s = nonce_used s i n"
| "op_used tx i (AddAuthKey n k) s = nonce_used s i n"
| "op_used tx i (RegisterAddresses n bs) s = nonce_used s i n"
| "op_used tx i (ApproveValidator n c k) s = nonce_used s i n"
| "op_used tx i _ s = False"

lemma nonce_used_steady: "steady s s' \<Longrightarrow> nonce_used s i n \<Longrightarrow> nonce_used s' i n"
  by (auto simp: steady_def nonce_used_def split: option.splits dest!: spec [of _ i])

lemma op_used_steady:
  assumes "steady s s'" and "op_used tx i op s"
  shows "op_used tx i op s'"
proof -
  have "st_contains s j \<Longrightarrow> st_contains s' j" for j
    using assms(1) unfolding steady_def st_contains_get by (metis not_Some_eq)
  moreover have "zk_replay_contains s rp \<Longrightarrow> zk_replay_contains s' rp" for rp
    using assms(1) by (simp add: steady_def)
  ultimately show ?thesis
    using assms(2) nonce_used_steady [OF assms(1)] by (cases op) (auto split: option.splits)
qed

lemma sound_weaken:
  "sound_step s used p \<Longrightarrow> (\<And>s'. used s' \<Longrightarrow> used' s') \<Longrightarrow> sound_step s used' p"
  by (auto simp: sound_step_def)

lemma execute_transfer_sound:
  assumes wf: "st_wf s"
  shows "sound_step s (op_used tx i (Transfer n to amount)) (execute_transfer env s tx i n to amount)"
proof (cases "tx_zk_auth tx")
  case None
  then show ?thesis
    using sound_weaken [OF transfer_sound [OF wf, of True "Some n" i "ev_crypto env" to amount]]
    by (simp add: execute_transfer_def is_zk_auth_def transfer_def)
next
  case (Some zk)
  obtain s1 f where c: "zk_replay_consume s (zk_rp_com zk) i = (s1, f)" by (cases "zk_replay_consume s (zk_rp_com zk) i")
  note e = replay_consume_effect [OF wf c]
  obtain s2 r where t: "transfer_with_nonce_policy (ev_crypto env) s1 i to amount None False = (s2, r)"
    by (cases "transfer_with_nonce_policy (ev_crypto env) s1 i to amount None False")
  have wf1: "st_wf s1" using e(1) by (simp add: steady_def)
  have snd: "sound_step s1 (\<lambda>_. True) (s2, r)"
    using sound_weaken [OF transfer_sound [OF wf1, of False None i "ev_crypto env" to amount]] t by simp
  have "zk_replay_contains s2 (zk_rp_com zk)" using snd e(3) by (simp add: sound_step_def steady_def)
  then have "sound_step s1 (op_used tx i (Transfer n to amount)) (execute_transfer env s tx i n to amount)"
    using Some c t snd wf1
    by (cases f; cases r) (auto simp: execute_transfer_def is_zk_auth_def consume_zk_replay_def sound_step_def steady_refl)
  then show ?thesis by (rule sound_after [OF e(1,2)])
qed

lemma with_sender_funds:
  assumes "st_wf s" and "\<And>a a' cs. f a = Inr (a', cs) \<Longrightarrow> same_funds a a'"
  shows "sound_step s (\<lambda>s'. nonce_used s' i n) (with_sender s i n f)"
  using with_sender_sound [OF assms(1), of f] assms(2) unfolding same_funds_def by blast

lemma apply_op_sound:
  assumes wf: "st_wf s"
  shows "sound_step s (op_used tx i op) (apply_op env s tx i op)"
proof (cases op)
  case (Transfer n to amount)
  then show ?thesis using execute_transfer_sound [OF wf] by simp
next
  case (CreateAccount j k)
  then show ?thesis using sound_weaken [OF create_account_sound [OF wf]] by simp
next
  case (SetAuthPubkey n k)
  show ?thesis unfolding SetAuthPubkey apply_op.simps
    by (rule sound_weaken [OF with_sender_funds [OF wf]]) (auto split: sum.splits dest: set_auth_pubkey_funds)
next
  case (AddAuthKey n k)
  show ?thesis unfolding AddAuthKey apply_op.simps
    by (rule sound_weaken [OF with_sender_funds [OF wf]]) (auto split: sum.splits dest: add_auth_key_funds)
next
  case (RegisterAddresses n bs)
  then show ?thesis using sound_weaken [OF register_addresses_sound [OF wf]] by simp
next
  case (ApproveValidator n c k)
  have "sound_step s (op_used tx i op) (with_sender s i n (\<lambda>a. Inr (a, [])))"
    unfolding ApproveValidator
    by (rule sound_weaken [OF with_sender_funds [OF wf]]) (simp_all add: same_funds_def)
  then show ?thesis
    using sound_fail [OF wf]
    by (cases "check_approve_sender (ev_founder env) i") (simp_all add: ApproveValidator approve_validator_nonce_def)
qed (use sound_fail [OF wf] in simp_all)

section \<open>A transaction whose mark is set fails\<close>

lemma used_nonce_refused: "nonce_used s i n \<Longrightarrow> \<exists>s' e. with_sender s i n f = (s', Inl e)"
  by (auto simp: nonce_used_def with_sender_def consume_account_nonce_def split: option.splits)

lemma apply_op_used:
  assumes "op_used tx i op s"
  shows "\<exists>s' e. apply_op env s tx i op = (s', Inl e)"
proof (cases op)
  case (Transfer n to amount)
  show ?thesis
  proof (cases "tx_zk_auth tx")
    case None
    then have "\<exists>a. st_get s i = Some a \<and> n < acc_nonce a"
      using assms Transfer by (auto simp: nonce_used_def split: option.splits)
    then have "\<exists>e. transfer_with_nonce_policy (ev_crypto env) s i to amount (Some n) True = (s, Inl e)"
      by (intro transfer_refused) auto
    then show ?thesis using Transfer None by (auto simp: execute_transfer_def is_zk_auth_def transfer_def)
  next
    case (Some zk)
    then have "bt_contains (zk_rp_com zk) (zk_replay_registry s)"
      using assms Transfer by (simp add: zk_replay_contains_def)
    then show ?thesis
      using Transfer Some
      by (simp add: execute_transfer_def is_zk_auth_def consume_zk_replay_def zk_replay_consume_def)
  qed
next
  case (CreateAccount j k)
  then show ?thesis using assms by (auto simp: create_account_def)
next
  case (SetAuthPubkey n k)
  then show ?thesis using assms used_nonce_refused [of s i n] by simp
next
  case (AddAuthKey n k)
  then show ?thesis using assms used_nonce_refused [of s i n] by simp
next
  case (RegisterAddresses n bs)
  then show ?thesis using assms
    by (auto simp: nonce_used_def register_addresses_def consume_account_nonce_def split: option.splits)
next
  case (ApproveValidator n c k)
  then show ?thesis using assms used_nonce_refused [of s i n]
    by (auto simp: approve_validator_nonce_def split: option.splits)
qed (use assms in simp_all)

section \<open>Chains of blocks\<close>

text \<open>What one entry of a block does: its state and receipt.\<close>

definition entry :: "exec_env \<Rightarrow> state_tree \<Rightarrow> transaction \<times> bool \<Rightarrow> state_tree \<times> execution_receipt" where
  "entry env s = (\<lambda>(tx, ok).
    if ok then case execute_transaction_presigned env s tx of
                 (s, Inr r) \<Rightarrow> (s, r)
               | (s, Inl e) \<Rightarrow> (s, failed_receipt env tx (ExecutionFailed e))
    else (s, failed_receipt env tx InvalidAttestationSignature))"

lemma apply_block_Cons:
  "apply_block env s (x # xs) =
    (fst (apply_block env (fst (entry env s x)) xs), snd (entry env s x) # snd (apply_block env (fst (entry env s x)) xs))"
proof -
  obtain tx ok where x: "x = (tx, ok)" by (cases x)
  show ?thesis by (simp add: x entry_def split_beta Let_def)
qed

definition overflowed :: "execution_receipt \<Rightarrow> bool" where
  "overflowed r \<longleftrightarrow> (\<exists>i. er_error r = Some (ExecutionFailed (ENonceOverflow i)))"

text \<open>The mark of a transaction; a payload that does not decode never succeeds.\<close>

definition tx_used :: "transaction \<Rightarrow> state_tree \<Rightarrow> bool" where
  "tx_used tx s = (case decode (tx_payload tx) of
     Inl e \<Rightarrow> True | Inr op \<Rightarrow> op_used tx (att_idcom (tx_attestation tx)) op s)"

lemma presigned_cases:
  obtains (refused) e where "execute_transaction_presigned env s tx = (s, Inl e)"
  | (run) op where "decode (tx_payload tx) = Inr op"
      "execute_transaction_presigned env s tx =
        (fst (apply_op env s tx (att_idcom (tx_attestation tx)) op),
         map_sum id (ok_receipt env tx) (snd (apply_op env s tx (att_idcom (tx_attestation tx)) op)))"
proof (cases "decode (tx_payload tx)")
  case (Inl e)
  then show ?thesis using refused by (cases e) (simp add: execute_transaction_presigned_def)
next
  case (Inr op)
  show ?thesis
  proof (cases "is_zk_auth tx \<and> \<not> is_transfer op")
    case True
    then show ?thesis using refused Inr by (simp add: execute_transaction_presigned_def)
  next
    case False
    show ?thesis
      by (rule run [OF Inr], cases "apply_op env s tx (att_idcom (tx_attestation tx)) op",
          cases "snd (apply_op env s tx (att_idcom (tx_attestation tx)) op)")
         (use Inr False in \<open>auto simp: execute_transaction_presigned_def\<close>)
  qed
qed

lemma receipt_fields [simp]:
  "er_success (failed_receipt env tx e) = False" "er_error (failed_receipt env tx e) = Some e"
  "er_success (ok_receipt env tx cs) = True" "er_error (ok_receipt env tx cs) = None"
  "er_tx_hash (failed_receipt env tx e) = tx_hash (ev_crypto env) tx"
  "er_tx_hash (ok_receipt env tx cs) = tx_hash (ev_crypto env) tx"
  by (simp_all add: failed_receipt_def ok_receipt_def)

lemma entry_effect:
  assumes wf: "st_wf s"
  shows "steady s (fst (entry env s x))"
    and "st_total bal (fst (entry env s x)) \<le> st_total bal s"
    and "\<not> overflowed (snd (entry env s x)) \<Longrightarrow> st_total bal (fst (entry env s x)) = st_total bal s"
    and "er_success (snd (entry env s x)) \<Longrightarrow> tx_used (fst x) (fst (entry env s x))"
    and "tx_used (fst x) s \<Longrightarrow> \<not> er_success (snd (entry env s x))"
    and "er_tx_hash (snd (entry env s x)) = tx_hash (ev_crypto env) (fst x)"
proof -
  obtain tx ok where x: "x = (tx, ok)" by (cases x)
  have "steady s (fst (entry env s x)) \<and> st_total bal (fst (entry env s x)) \<le> st_total bal s
    \<and> (\<not> overflowed (snd (entry env s x)) \<longrightarrow> st_total bal (fst (entry env s x)) = st_total bal s)
    \<and> (er_success (snd (entry env s x)) \<longrightarrow> tx_used (fst x) (fst (entry env s x)))
    \<and> (tx_used (fst x) s \<longrightarrow> \<not> er_success (snd (entry env s x)))
    \<and> er_tx_hash (snd (entry env s x)) = tx_hash (ev_crypto env) (fst x)"
  proof (cases ok)
    case False
    then show ?thesis using steady_refl [OF wf] by (simp add: x entry_def)
  next
    case True
    show ?thesis
    proof (cases rule: presigned_cases [of env s tx])
      case (refused e)
      then show ?thesis using True steady_refl [OF wf] by (simp add: x entry_def)
    next
      case (run op)
      let ?i = "att_idcom (tx_attestation tx)"
      obtain s' r where a: "apply_op env s tx ?i op = (s', r)" by (cases "apply_op env s tx ?i op")
      have "sound_step s (op_used tx ?i op) (s', r)" using apply_op_sound [OF wf, of tx ?i op env] a by simp
      then have snd: "steady s s'" "st_total bal s' \<le> st_total bal s"
          "(\<forall>i. r \<noteq> Inl (ENonceOverflow i)) \<Longrightarrow> st_total bal s' = st_total bal s"
          "\<And>cs. r = Inr cs \<Longrightarrow> op_used tx ?i op s'"
        by (auto simp: sound_step_def)
      have fails: "op_used tx ?i op s \<Longrightarrow> \<exists>e. r = Inl e"
        using apply_op_used [of tx ?i op s env] a by auto
      show ?thesis
        using True run a snd fails
        by (cases r) (auto simp: x entry_def tx_used_def overflowed_def)
    qed
  qed
  then show "steady s (fst (entry env s x))" "st_total bal (fst (entry env s x)) \<le> st_total bal s"
    "\<not> overflowed (snd (entry env s x)) \<Longrightarrow> st_total bal (fst (entry env s x)) = st_total bal s"
    "er_success (snd (entry env s x)) \<Longrightarrow> tx_used (fst x) (fst (entry env s x))"
    "tx_used (fst x) s \<Longrightarrow> \<not> er_success (snd (entry env s x))"
    "er_tx_hash (snd (entry env s x)) = tx_hash (ev_crypto env) (fst x)"
    by blast+
qed

lemma tx_used_steady: "steady s s' \<Longrightarrow> tx_used tx s \<Longrightarrow> tx_used tx s'"
  by (auto simp: tx_used_def op_used_steady split: sum.splits)

lemma steady_wf: "steady s s' \<Longrightarrow> st_wf s'"
  by (simp add: steady_def)

lemma apply_block_effect:
  assumes "st_wf s"
  shows "steady s (fst (apply_block env s xs))
    \<and> st_total bal (fst (apply_block env s xs)) \<le> st_total bal s
    \<and> ((\<forall>r \<in> set (snd (apply_block env s xs)). \<not> overflowed r)
         \<longrightarrow> st_total bal (fst (apply_block env s xs)) = st_total bal s)
    \<and> map er_tx_hash (snd (apply_block env s xs)) = map (tx_hash (ev_crypto env) \<circ> fst) xs"
  using assms
proof (induction xs arbitrary: s)
  case Nil
  then show ?case by (simp add: steady_refl)
next
  case (Cons x xs)
  note e = entry_effect [OF Cons.prems, where env = env and x = x]
  from Cons.IH [OF steady_wf [OF e(1)]] e show ?case
    unfolding apply_block_Cons by (auto intro: steady_trans)
qed

lemma used_never_succeeds:
  assumes "st_wf s" and "tx_used tx s" and "j < length xs" and "fst (xs ! j) = tx"
  shows "\<not> er_success (snd (apply_block env s xs) ! j)"
  using assms
proof (induction xs arbitrary: s j)
  case (Cons x xs)
  note e = entry_effect [OF Cons.prems(1), where env = env and x = x]
  show ?case
  proof (cases j)
    case 0
    then show ?thesis using e(5) Cons.prems by (simp add: apply_block_Cons)
  next
    case (Suc k)
    then show ?thesis
      using Cons.IH [OF steady_wf [OF e(1)] tx_used_steady [OF e(1) Cons.prems(2)]] Cons.prems
      by (simp add: apply_block_Cons)
  qed
qed simp

lemma apply_block_once:
  assumes "st_wf s" and "i < j" and "j < length xs" and "fst (xs ! i) = fst (xs ! j)"
    and "er_success (snd (apply_block env s xs) ! i)"
  shows "\<not> er_success (snd (apply_block env s xs) ! j)"
  using assms
proof (induction xs arbitrary: s i j)
  case (Cons x xs)
  note e = entry_effect [OF Cons.prems(1), where env = env and x = x]
  obtain k where j: "j = Suc k" "k < length xs" using Cons.prems by (cases j) auto
  show ?case
  proof (cases i)
    case 0
    then have "tx_used (fst x) (fst (entry env s x))" using e(4) Cons.prems by (simp add: apply_block_Cons)
    from used_never_succeeds [OF steady_wf [OF e(1)] this j(2)] show ?thesis
      using 0 j Cons.prems by (simp add: apply_block_Cons)
  next
    case (Suc i')
    then show ?thesis
      using Cons.IH [OF steady_wf [OF e(1)], of i' k] Cons.prems j by (simp add: apply_block_Cons)
  qed
qed simp

lemma apply_block_append:
  "apply_block env s (xs @ ys) =
    (fst (apply_block env (fst (apply_block env s xs)) ys),
     snd (apply_block env s xs) @ snd (apply_block env (fst (apply_block env s xs)) ys))"
  by (induction xs arbitrary: s) (simp_all add: apply_block_Cons)

text \<open>A chain of blocks, as the node applies them one after the other.\<close>

fun run_chain :: "exec_env \<Rightarrow> state_tree \<Rightarrow> transaction list list \<Rightarrow> state_tree \<times> execution_receipt list" where
  "run_chain env s [] = (s, [])"
| "run_chain env s (txs # blocks) =
    (let (s, receipts) = execute_block env s txs; (s, rest) = run_chain env s blocks in (s, receipts @ rest))"

lemma run_chain_entries:
  "\<exists>xs. map fst xs = concat blocks \<and> run_chain env s blocks = apply_block env s xs"
proof (induction blocks arbitrary: s)
  case (Cons txs blocks)
  let ?b = "map (\<lambda>tx. (tx, sig_ok env s tx)) txs"
  obtain xs where "map fst xs = concat blocks"
      "run_chain env (fst (apply_block env s ?b)) blocks = apply_block env (fst (apply_block env s ?b)) xs"
    using Cons.IH by blast
  then have "map fst (?b @ xs) = concat (txs # blocks)
      \<and> run_chain env s (txs # blocks) = apply_block env s (?b @ xs)"
    by (simp add: apply_block_append execute_block_def split_beta Let_def o_def)
  then show ?case by blast
qed simp

text \<open>
  C2: Replay protection. In a chain of blocks executed from any well-formed state, no
  transaction succeeds twice: if the transaction at one position has a successful receipt, every
  later occurrence of the same transaction, in the same block or in a later one, fails.
\<close>

theorem no_transaction_succeeds_twice:
  assumes "st_wf s" and "run_chain env s blocks = (s', receipts)"
    and "i < j" and "j < length (concat blocks)" and "concat blocks ! i = concat blocks ! j"
    and "er_success (receipts ! i)"
  shows "\<not> er_success (receipts ! j)"
proof -
  obtain xs where xs: "map fst xs = concat blocks" "run_chain env s blocks = apply_block env s xs"
    using run_chain_entries by blast
  have len: "length xs = length (concat blocks)" using xs(1) by (metis length_map)
  have "fst (xs ! k) = concat blocks ! k" if "k < length xs" for k
    using xs(1) that by (metis nth_map)
  then have "fst (xs ! i) = fst (xs ! j)" using assms(3-5) len by simp
  from apply_block_once [OF assms(1,3) _ this, of env] show ?thesis
    using assms(2,4,6) xs(2) len by simp
qed

text \<open>
  C3: Conservation. A chain of blocks keeps the state well-formed, never lowers a nonce, never
  loses an account or a replay commitment and never creates money; unless a nonce overflows, the
  total balance stays exactly the same. There is one receipt per transaction, in order.
\<close>

theorem execution_conserves:
  assumes "st_wf s" and "run_chain env s blocks = (s', receipts)"
  shows "st_wf s' \<and> steady s s' \<and> st_total bal s' \<le> st_total bal s
    \<and> ((\<forall>r \<in> set receipts. \<not> overflowed r) \<longrightarrow> st_total bal s' = st_total bal s)
    \<and> map er_tx_hash receipts = map (tx_hash (ev_crypto env)) (concat blocks)"
proof -
  obtain xs where xs: "map fst xs = concat blocks" "run_chain env s blocks = apply_block env s xs"
    using run_chain_entries by blast
  have r: "fst (apply_block env s xs) = s'" "snd (apply_block env s xs) = receipts"
    using assms(2) xs(2) by simp_all
  have "map er_tx_hash receipts = map (tx_hash (ev_crypto env)) (map fst xs)"
    using apply_block_effect [OF assms(1), of env xs] r by simp
  then show ?thesis
    using apply_block_effect [OF assms(1), of env xs] steady_wf unfolding r xs(1) by blast
qed

section \<open>Blocks against one-by-one execution\<close>

text \<open>
  The keys of the accounts, up to accounts that have none. An account that a transfer creates
  in the middle of a block has no key and cannot sign.
\<close>

definition key_of :: "state_tree \<Rightarrow> account_id \<Rightarrow> (tagged_pubkey \<times> tagged_pubkey list) option" where
  "key_of s i = map_option (\<lambda>a. (acc_auth_pubkey a, acc_auth_keys a)) (st_get s i)"

definition unkeyed :: "state_tree \<Rightarrow> account_id \<Rightarrow> bool" where
  "unkeyed s i = (case key_of s i of None \<Rightarrow> True | Some (k, ks) \<Rightarrow> pk_is_zero k \<and> ks = [])"

definition same_keys :: "state_tree \<Rightarrow> state_tree \<Rightarrow> bool" where
  "same_keys s s' \<longleftrightarrow> st_wf s' \<and> (\<forall>i. key_of s' i = key_of s i \<or> unkeyed s i \<and> unkeyed s' i)"

lemma same_keys_refl: "st_wf s \<Longrightarrow> same_keys s s"
  by (simp add: same_keys_def)

lemma same_keys_trans: "same_keys s t \<Longrightarrow> same_keys t u \<Longrightarrow> same_keys s u"
  unfolding same_keys_def unkeyed_def by metis

lemma keys_modify:
  assumes "same_keys s t" and "\<And>a. acc_id (f a) = acc_id a" and "\<And>a. same_auth a (f a)"
  shows "same_keys s (st_modify i f t)"
proof -
  have wf: "st_wf t" using assms(1) by (simp add: same_keys_def)
  have "key_of (st_modify i f t) = key_of t"
    using assms(3) by (auto simp: fun_eq_iff key_of_def same_auth_def st.sget_mod [OF wf] option.map_comp o_def)
  then show ?thesis
    using assms(1) st.swf_mod [OF wf assms(2)] by (simp add: same_keys_def unkeyed_def)
qed

lemma keys_put:
  assumes "same_keys s t" and a: "st_get t i = Some a" and id: "acc_id a' = i" and n: "acc_nonce a \<le> acc_nonce a'"
    and "same_auth a a'"
  shows "same_keys s (st_modify i (\<lambda>_. a') t)"
proof -
  have wf: "st_wf t" using assms(1) by (simp add: same_keys_def)
  have "key_of (st_modify i (\<lambda>_. a') t) = key_of t"
    using assms(5) a put_account(3) [OF wf a id n] by (auto simp: fun_eq_iff key_of_def same_auth_def)
  then show ?thesis
    using assms(1) put_account(1) [OF wf a id n] by (simp add: same_keys_def unkeyed_def steady_def)
qed

lemma keys_create:
  assumes "same_keys s t" and "\<not> st_contains t i"
  shows "same_keys s (st_insert cr (account_with_balance i 0) t)"
proof -
  let ?a = "account_with_balance i 0"
  have wf: "st_wf t" using assms(1) by (simp add: same_keys_def)
  have a: "acc_id ?a = i" "pk_is_zero (acc_auth_pubkey ?a)" "acc_auth_keys ?a = []"
    by (simp_all add: account_with_balance_def account_new_def default_pubkey_def pk_is_zero_def list_all_iff)
  have "key_of (st_insert cr ?a t) j = key_of t j \<or> unkeyed t j \<and> unkeyed (st_insert cr ?a t) j" for j
    using a assms(2) by (auto simp: key_of_def unkeyed_def st.sget_ins [OF wf] st_contains_get)
  moreover have "st_wf (st_insert cr ?a t)" by (rule st.swf_ins [OF wf])
  ultimately have "same_keys t (st_insert cr ?a t)" by (simp add: same_keys_def)
  then show ?thesis by (rule same_keys_trans [OF assms(1)])
qed

lemma keys_insert:
  assumes "same_keys s t" and "st_get t (acc_id a') = Some a" and "same_auth a a'"
  shows "same_keys s (st_insert cr a' t)"
proof -
  have wf: "st_wf t" using assms(1) by (simp add: same_keys_def)
  have "key_of (st_insert cr a' t) = key_of t"
    using assms(2,3) by (auto simp: fun_eq_iff key_of_def same_auth_def st.sget_ins [OF wf])
  then show ?thesis using assms(1) st.swf_ins [OF wf] by (simp add: same_keys_def unkeyed_def)
qed

lemma transfer_keys:
  assumes "same_keys s0 s"
  shows "same_keys s0 (fst (transfer_with_nonce_policy cr s src dst amount expected increment))"
proof -
  have r: "same_keys s0 (with_receiver cr s dst)"
    using assms keys_create [OF assms] by (simp add: with_receiver_def)
  have b: "same_keys s0 t \<Longrightarrow> same_keys s0 (st_modify i (\<lambda>a. a\<lparr>acc_balance := g a\<rparr>) t)" for i g t
    by (rule keys_modify) (simp_all add: same_auth_def)
  have n: "same_keys s0 t \<Longrightarrow> same_keys s0 (st_modify i (\<lambda>a. a\<lparr>acc_nonce := g a\<rparr>) t)" for i g t
    by (rule keys_modify) (simp_all add: same_auth_def)
  show ?thesis
    unfolding transfer_with_nonce_policy_def with_receiver_def [symmetric] Let_def
    using assms r b n by (simp split: option.split)
qed

fun keeps_keys :: "transaction_op \<Rightarrow> bool" where
  "keeps_keys (CreateAccount _ _) = False"
| "keeps_keys (SetAuthPubkey _ _) = False"
| "keeps_keys (AddAuthKey _ _) = False"
| "keeps_keys _ = True"

lemma apply_op_keys:
  assumes k: "same_keys s0 s" and op: "keeps_keys op"
  shows "same_keys s0 (fst (apply_op env s tx i op))"
proof -
  have wf: "st_wf s" using k by (simp add: same_keys_def)
  have nonce: "same_keys s0 (st_modify i (\<lambda>_. b) s)"
    if "st_get s i = Some a" "consume_account_nonce a i n = Inr (b, c)" for a b c n
  proof (rule keys_put [OF k that(1)])
    show "acc_id b = i" "acc_nonce a \<le> acc_nonce b"
      using put_nonce [OF wf that] consume_nonce_Inr [OF that(2)] by (simp_all add: less_imp_le)
    show "same_auth a b"
      using that(2) by (auto simp: consume_account_nonce_def same_auth_def split: if_splits option.splits)
  qed
  show ?thesis
  proof (cases op)
    case (Transfer n to amount)
    obtain s1 f where c: "consume_zk_replay s tx i = (s1, f)" by (cases "consume_zk_replay s tx i")
    have "same_keys s0 s1"
    proof (cases "tx_zk_auth tx")
      case (Some zk)
      obtain s2 g where z: "zk_replay_consume s (zk_rp_com zk) i = (s2, g)" by (cases "zk_replay_consume s (zk_rp_com zk) i")
      note e = replay_consume_effect [OF wf z]
      have "s1 = s2" using c Some z by (auto simp: consume_zk_replay_def split: if_splits)
      then have "same_keys s s1" using e(1,5) by (simp add: same_keys_def steady_def key_of_def)
      then show ?thesis by (rule same_keys_trans [OF k])
    qed (use c k in \<open>simp add: consume_zk_replay_def\<close>)
    then show ?thesis
      using Transfer c transfer_keys [OF k] transfer_keys [of s0 s1]
      by (auto simp: execute_transfer_def transfer_def split: sum.splits prod.splits) (metis fst_conv)+
  next
    case (RegisterAddresses n bs)
    show ?thesis
    proof (cases rule: register_addresses_cases [of env s i n bs])
      case (fail e)
      then show ?thesis using RegisterAddresses k by simp
    next
      case (half a b c e)
      then show ?thesis using RegisterAddresses nonce by simp
    next
      case (bound a b c b' cs)
      have "st_get (st_modify i (\<lambda>_. b) s) (acc_id b') = Some b"
        using put_nonce [OF wf bound(1,2)] bound(3) by (simp add: same_funds_def)
      from keys_insert [OF nonce [OF bound(1,2)] this bound(4)] show ?thesis
        using RegisterAddresses bound(5) by simp
    qed
  next
    case (ApproveValidator n c key)
    then show ?thesis
      using k nonce by (auto simp: approve_validator_nonce_def with_sender_def split: option.splits sum.splits)
  qed (use op k in simp_all)
qed

lemma sig_ok_same:
  assumes k: "same_keys s0 s" and d: "decode (tx_payload tx) = Inr op" and op: "keeps_keys op"
  shows "sig_ok env s0 tx \<longleftrightarrow> authorized env s tx op = None"
proof (cases "tx_zk_auth tx")
  case (Some zk)
  then show ?thesis by (simp add: sig_ok_def authorized_def Let_def)
next
  case None
  let ?i = "att_idcom (tx_attestation tx)" let ?alg = "sig_alg (credential (tx_attestation tx))"
  have v: "verify_pubkey t ?i ?alg op = map_option (\<lambda>a. sender_key a ?alg) (st_get t ?i)" for t
    using op by (cases op) (simp_all add: verify_pubkey_def Let_def)
  have p: "pre_pubkey s0 tx = map_option (\<lambda>a. sender_key a ?alg) (st_get s0 ?i)"
    using d v by (simp add: pre_pubkey_def)
  have zero: "pk_is_zero key \<Longrightarrow> \<not> verify_credential cr att pl key" for cr att pl key
    by (simp add: verify_credential_def)
  from k have "key_of s ?i = key_of s0 ?i \<or> unkeyed s0 ?i \<and> unkeyed s ?i" by (simp add: same_keys_def)
  then show ?thesis
  proof
    assume "key_of s ?i = key_of s0 ?i"
    then have "map_option (\<lambda>a. sender_key a ?alg) (st_get s ?i) = map_option (\<lambda>a. sender_key a ?alg) (st_get s0 ?i)"
      by (cases "st_get s ?i"; cases "st_get s0 ?i")
         (auto simp: key_of_def sender_key_def auth_key_for_algorithm_def split: option.split)
    then show ?thesis
      using None p v zero by (auto simp: sig_ok_def authorized_def Let_def split: option.splits)
  next
    assume u: "unkeyed s0 ?i \<and> unkeyed s ?i"
    have "pk_is_zero (sender_key a ?alg)" if "st_get t ?i = Some a" "unkeyed t ?i" for a t
      using that by (auto simp: unkeyed_def key_of_def sender_key_def auth_key_for_algorithm_def)
    then show ?thesis
      using None u p v zero by (auto simp: sig_ok_def authorized_def Let_def split: option.splits)
  qed
qed

text \<open>The reference: each transaction is verified against the state it is executed in.\<close>

fun execute_each :: "exec_env \<Rightarrow> state_tree \<Rightarrow> transaction list \<Rightarrow> state_tree \<times> bool list" where
  "execute_each env s [] = (s, [])"
| "execute_each env s (tx # txs) =
    (let (s, r) = execute_transaction env s tx; (s, oks) = execute_each env s txs
     in (s, (case r of Inl e \<Rightarrow> False | Inr rc \<Rightarrow> er_success rc) # oks))"

lemma entry_matches:
  assumes k: "same_keys s0 s" and op: "\<And>op. decode (tx_payload tx) = Inr op \<Longrightarrow> keeps_keys op"
  shows "fst (entry env s (tx, sig_ok env s0 tx)) = fst (execute_transaction env s tx)"
    and "er_success (snd (entry env s (tx, sig_ok env s0 tx)))
      = (case snd (execute_transaction env s tx) of Inl e \<Rightarrow> False | Inr rc \<Rightarrow> er_success rc)"
    and "same_keys s0 (fst (execute_transaction env s tx))"
proof -
  have "fst (entry env s (tx, sig_ok env s0 tx)) = fst (execute_transaction env s tx)
    \<and> er_success (snd (entry env s (tx, sig_ok env s0 tx)))
      = (case snd (execute_transaction env s tx) of Inl e \<Rightarrow> False | Inr rc \<Rightarrow> er_success rc)
    \<and> same_keys s0 (fst (execute_transaction env s tx))"
  proof (cases "decode (tx_payload tx)")
    case (Inl e)
    then show ?thesis using k
      by (cases e) (simp add: entry_def execute_transaction_def execute_transaction_presigned_def)
  next
    case (Inr o')
    note s = sig_ok_same [OF k Inr op [OF Inr], of env]
    have a: "same_keys s0 (fst (apply_op env s tx (att_idcom (tx_attestation tx)) o'))"
      by (rule apply_op_keys [OF k op [OF Inr]])
    obtain s' r where ap: "apply_op env s tx (att_idcom (tx_attestation tx)) o' = (s', r)"
      by (cases "apply_op env s tx (att_idcom (tx_attestation tx)) o'")
    show ?thesis
    proof (cases "is_zk_auth tx \<and> \<not> is_transfer o'")
      case True
      then show ?thesis using Inr k
        by (simp add: entry_def execute_transaction_def execute_transaction_presigned_def)
    next
      case False
      then show ?thesis using Inr k s a ap
        by (cases "authorized env s tx o'"; cases r)
           (auto simp: entry_def execute_transaction_def execute_transaction_presigned_def)
    qed
  qed
  then show "fst (entry env s (tx, sig_ok env s0 tx)) = fst (execute_transaction env s tx)"
    "er_success (snd (entry env s (tx, sig_ok env s0 tx)))
      = (case snd (execute_transaction env s tx) of Inl e \<Rightarrow> False | Inr rc \<Rightarrow> er_success rc)"
    "same_keys s0 (fst (execute_transaction env s tx))"
    by blast+
qed

lemma block_each:
  assumes "same_keys s0 s" and "\<forall>tx \<in> set txs. \<forall>op. decode (tx_payload tx) = Inr op \<longrightarrow> keeps_keys op"
  shows "fst (apply_block env s (map (\<lambda>tx. (tx, sig_ok env s0 tx)) txs)) = fst (execute_each env s txs)
    \<and> map er_success (snd (apply_block env s (map (\<lambda>tx. (tx, sig_ok env s0 tx)) txs))) = snd (execute_each env s txs)"
  using assms
proof (induction txs arbitrary: s)
  case (Cons tx txs)
  have op: "\<And>op. decode (tx_payload tx) = Inr op \<Longrightarrow> keeps_keys op" using Cons.prems(2) by simp
  note e = entry_matches [where tx = tx and env = env, OF Cons.prems(1) op]
  show ?case
    using e Cons.IH [OF e(3)] Cons.prems(2) by (simp add: apply_block_Cons split_beta Let_def)
qed simp

text \<open>
  C8: A block whose transactions change no keys is executed as if each transaction were verified
  and executed on its own: verifying all signatures up front, against the state before the block,
  gives the same final state and the same outcome for every transaction, whatever mixture of
  valid, invalid, replayed and ZK-authorized transactions the block holds.
\<close>

theorem block_matches_single_execution:
  assumes "st_wf s" and "\<forall>tx \<in> set txs. \<forall>op. decode (tx_payload tx) = Inr op \<longrightarrow> keeps_keys op"
  shows "fst (execute_block env s txs) = fst (execute_each env s txs)
    \<and> map er_success (snd (execute_block env s txs)) = snd (execute_each env s txs)"
  unfolding execute_block_def by (rule block_each [OF same_keys_refl [OF assms(1)] assms(2)])

section \<open>Runs\<close>

definition demo_exec_crypto :: crypto where
  "demo_exec_crypto =
     \<lparr>sha256 = (\<lambda>m. 0), ed25519_key = (\<lambda>k. True), ed25519_verify_strict = (\<lambda>k m s. take 1 k = take 1 s),
      k256_key = (\<lambda>k. True), k256_sig = (\<lambda>s. True), k256_verify = (\<lambda>k m s. False),
      ml_dsa_key = (\<lambda>k. True), ml_dsa_verify = (\<lambda>k m s. False),
      hmac_key = (\<lambda>k. True), hmac_verify_slice = (\<lambda>k m s. False)\<rparr>"

definition demo_env :: exec_env where
  "demo_env = \<lparr>ev_crypto = demo_exec_crypto, ev_zk = None, ev_ripemd160 = (\<lambda>_. 0), ev_keccak256 = (\<lambda>_. 0),
     ev_uncompressed = (\<lambda>_. None), ev_founder = None\<rparr>"

definition demo_key :: "u8 \<Rightarrow> tagged_pubkey" where
  "demo_key c = \<lparr>pk_alg = Ed25519, pk_bytes = c # replicate 31 0\<rparr>"

definition demo_tx :: "u8 \<Rightarrow> account_id \<Rightarrow> transaction_op \<Rightarrow> transaction" where
  "demo_tx c i op = \<lparr>tx_payload = the (encode op),
     tx_attestation = \<lparr>obj_hash = 0, att_idcom = i, att_domain = \<lparr>dom_chain_id = 1, dom_slot = 0\<rparr>, context_tag = 0,
       credential = \<lparr>sig_alg = Ed25519, sig_bytes = c # replicate 63 0\<rparr>\<rparr>,
     tx_raw_chain = None, tx_zk_auth = None\<rparr>"

definition demo_state :: state_tree where
  "demo_state = st_insert demo_exec_crypto (account_with_auth 1 100 (demo_key 7)) st_new"

definition demo_rotate :: transaction where "demo_rotate = demo_tx 7 1 (SetAuthPubkey 0 (demo_key 9))"
definition demo_pay :: transaction where "demo_pay = demo_tx 7 1 (Transfer 1 2 40)"

lemma demo_state_wf: "st_wf demo_state"
  by (simp add: demo_state_def)

text \<open>
  The comment in \<open>execute_block\<close> says that a transaction signed with a key that an earlier
  transaction of the block replaced fails at the nonce check. It does not: with the next nonce it
  is executed, while executing the two one by one refuses its credential.
\<close>

theorem block_accepts_replaced_key:
  "map er_success (snd (execute_block demo_env demo_state [demo_rotate, demo_pay])) = [True, True]
    \<and> acc_balance (the (st_get (fst (execute_block demo_env demo_state [demo_rotate, demo_pay])) 1)) = 60
    \<and> snd (execute_transaction demo_env (fst (execute_transaction demo_env demo_state demo_rotate)) demo_pay)
        = Inl (EInvalidCredential 1)"
  by (intro conjI; code_simp)

definition demo_first :: transaction where "demo_first = demo_tx 7 1 (Transfer 0 2 40)"

theorem no_transaction_succeeds_twice_witness:
  "er_success (snd (run_chain demo_env demo_state [[demo_first, demo_rotate], [demo_first]]) ! 0)
    \<and> \<not> er_success (snd (run_chain demo_env demo_state [[demo_first, demo_rotate], [demo_first]]) ! 2)"
proof
  let ?run = "run_chain demo_env demo_state [[demo_first, demo_rotate], [demo_first]]"
  show ok: "er_success (snd ?run ! 0)" by code_simp
  show "\<not> er_success (snd ?run ! 2)"
    by (rule no_transaction_succeeds_twice [OF demo_state_wf, of demo_env "[[demo_first, demo_rotate], [demo_first]]"
        "fst ?run" _ 0]) (use ok in simp_all)
qed

theorem execution_conserves_witness:
  "st_total bal (fst (run_chain demo_env demo_state [[demo_first], [demo_pay]])) = 100"
proof -
  let ?run = "run_chain demo_env demo_state [[demo_first], [demo_pay]]"
  have "\<forall>r \<in> set (snd ?run). er_error r = None" by code_simp
  then have "\<forall>r \<in> set (snd ?run). \<not> overflowed r" by (simp add: overflowed_def)
  moreover have "st_total bal demo_state = 100" by code_simp
  ultimately show ?thesis
    using execution_conserves [OF demo_state_wf, of demo_env "[[demo_first], [demo_pay]]" "fst ?run" "snd ?run"]
    by simp
qed

theorem block_matches_single_execution_witness:
  "map er_success (snd (execute_block demo_env demo_state [demo_first, demo_pay, demo_first])) = [True, True, False]"
proof -
  have "decode (tx_payload demo_first) = Inr (Transfer 0 2 40)" "decode (tx_payload demo_pay) = Inr (Transfer 1 2 40)"
    by code_simp+
  then have "\<forall>tx \<in> set [demo_first, demo_pay, demo_first]. \<forall>op. decode (tx_payload tx) = Inr op \<longrightarrow> keeps_keys op"
    by simp
  moreover have "snd (execute_each demo_env demo_state [demo_first, demo_pay, demo_first]) = [True, True, False]"
    by code_simp
  ultimately show ?thesis
    using block_matches_single_execution [OF demo_state_wf, of "[demo_first, demo_pay, demo_first]" demo_env] by simp
qed

section \<open>Where protection ends\<close>

text \<open>
  Replay protection ends with the account. A transfer refuses an expired account, but its owner
  can create it anew: the new account starts at nonce 0 and the stub with the old nonce is
  dropped, so no nonce of the old account counts as used any more.
\<close>

theorem create_account_forgets_expired:
  assumes wf: "st_wf s" and stub: "is_stubbed s i"
  shows "snd (create_account env s i i k) = Inr [AccountCreated i]
    \<and> st_get (fst (create_account env s i i k)) i = Some (account_with_auth i 0 k)
    \<and> \<not> is_stubbed (fst (create_account env s i i k)) i
    \<and> (\<forall>n. \<not> nonce_used (fst (create_account env s i i k)) i n)"
proof -
  have "\<not> st_contains s i"
    using wf stub by (auto simp: st_wf_def is_stubbed_def st_contains_get st_get_def bt_contains_def)
  moreover have "acc_id (account_with_auth i 0 k) = i" "acc_nonce (account_with_auth i 0 k) = 0"
    by (simp_all add: account_with_auth_def account_new_def)
  moreover have "\<not> is_stubbed (st_insert (ev_crypto env) (account_with_auth i 0 k) s) i"
    using wf by (simp add: is_stubbed_def st_insert_def Let_def bt_contains_def st_wf_def map_of_bt_remove
        account_with_auth_def account_new_def)
  ultimately show ?thesis
    by (simp add: create_account_def nonce_used_def st.sget_ins [OF wf])
qed

text \<open>
  A transfer debits the sender before it finds that the nonce has no successor: the failed
  transfer takes the amount and nobody receives it.
\<close>

theorem overflowing_transfer_burns:
  assumes wf: "st_wf s" and "\<not> is_stubbed s src" and "\<not> is_stubbed s dst" and "src \<noteq> dst"
    and a: "st_get s src = Some a" and b: "st_get s dst = Some b"
    and n: "acc_nonce a = - 1" and le: "amount \<le> acc_balance a" and "checked_add (acc_balance b) amount \<noteq> None"
  shows "snd (transfer cr s src dst amount (Some (- 1))) = Inl (ENonceOverflow src)
    \<and> st_total bal (fst (transfer cr s src dst amount (Some (- 1)))) + unat amount = st_total bal s"
proof -
  have r: "with_receiver cr s dst = s" using b by (simp add: with_receiver_def st_contains_get)
  have "checked_add (- 1) (1 :: u64) = None" by code_simp
  then have "transfer cr s src dst amount (Some (- 1))
      = (st_modify src (\<lambda>a. a\<lparr>acc_balance := acc_balance a - amount\<rparr>) s, Inl (ENonceOverflow src))"
    using transfer_checked [OF assms(2) a _ le assms(3) r [symmetric] a b wf, where increment = True and expected = "Some (- 1)"]
      assms(4,9) n by (simp add: transfer_def)
  then show ?thesis using debit_step(2) [OF wf a le] by simp
qed

end
