(* ===== verification/Slots.thy ===== *)
theory Slots
  imports Byte_Codec State_Tree
begin

text \<open>
  Typed access to contract storage. The programs of the chain keep their state in 32-byte slots
  of an account; a slot is the hash of a domain string and a key. This theory has the value formats
  shared by \<open>ace-liquid/src/state.rs\<close>, \<open>ace-liquid/src/critbit.rs\<close> and
  \<open>ace-n-vm/src/token_runtime.rs\<close>: one and two little-endian integers at the start of a slot.

  Two slots of one account coincide only on a collision of SHA-256; what a component needs of
  that is a hypothesis \<open>inj_on (sha256 cr) P\<close> for the set \<open>P\<close> of preimages it uses.
\<close>

text \<open>A 32-byte array from its leading bytes, the rest zero.\<close>

definition slot_value :: "bytes \<Rightarrow> hash32" where
  "slot_value bs = hash_from_bytes (bs @ replicate (32 - length bs) 0)"

definition read_u64 :: "state_tree \<Rightarrow> account_id \<Rightarrow> hash32 \<Rightarrow> u64" where
  "read_u64 s owner slot = u64_from_le (slice 0 8 (bytes32 (st_get_storage s owner slot)))"

definition write_u64 :: "account_id \<Rightarrow> hash32 \<Rightarrow> u64 \<Rightarrow> state_tree \<Rightarrow> state_tree" where
  "write_u64 owner slot v s = st_set_storage owner slot (slot_value (u64_le v)) s"

definition read_pair :: "state_tree \<Rightarrow> account_id \<Rightarrow> hash32 \<Rightarrow> u64 \<times> u64" where
  "read_pair s owner slot =
    (let v = bytes32 (st_get_storage s owner slot) in (u64_from_le (slice 0 8 v), u64_from_le (slice 8 8 v)))"

definition write_pair :: "account_id \<Rightarrow> hash32 \<Rightarrow> u64 \<Rightarrow> u64 \<Rightarrow> state_tree \<Rightarrow> state_tree" where
  "write_pair owner slot a b s = st_set_storage owner slot (slot_value (u64_le a @ u64_le b)) s"

section \<open>Laws\<close>

named_theorems slot_simps

lemma nat_of_le_inj: "length a = length b \<Longrightarrow> nat_of_le a = nat_of_le b \<Longrightarrow> a = b"
  by (metis le_bytes_nat_of)

lemma bytes32_from [simp]:
  assumes "length bs = 32"
  shows "bytes32 (hash_from_bytes bs) = bs"
proof -
  have "nat_of_le (rev bs) < 256 ^ 32" using nat_of_le_lt [of "rev bs"] assms by simp
  also have "(256 :: nat) ^ 32 = 2 ^ 256" by simp
  finally have "unat (word_of_nat (nat_of_le (rev bs)) :: hash32) = nat_of_le (rev bs)"
    by (simp add: unat_of_nat)
  then have "le_bytes 32 (unat (hash_from_bytes bs)) = rev bs"
    using le_bytes_nat_of [of "rev bs"] assms by (simp add: hash_from_bytes_def)
  then show ?thesis by (simp add: bytes32_def)
qed

lemma bytes32_slot_value [slot_simps]:
  "length bs \<le> 32 \<Longrightarrow> bytes32 (slot_value bs) = bs @ replicate (32 - length bs) 0"
  by (simp add: slot_value_def)

lemma bytes32_zero: "bytes32 0 = replicate 32 0"
  by code_simp

lemma nat_of_le_zeros [simp]: "nat_of_le (replicate n 0) = 0"
  by (induction n) simp_all

lemma read_u64_zero [simp]: "st_get_storage s owner slot = 0 \<Longrightarrow> read_u64 s owner slot = 0"
  by (simp add: read_u64_def bytes32_zero slice_def u64_from_le_def)

lemma read_pair_zero [simp]: "st_get_storage s owner slot = 0 \<Longrightarrow> read_pair s owner slot = (0, 0)"
  by (simp add: read_pair_def bytes32_zero Let_def slice_def u64_from_le_def)

lemma write_wf [simp]:
  "st_wf s \<Longrightarrow> st_wf (write_u64 owner slot v s)"
  "st_wf s \<Longrightarrow> st_wf (write_pair owner slot a b s)"
  by (simp_all add: write_u64_def write_pair_def)

lemma get_write_u64 [slot_simps]:
  "st_wf s \<Longrightarrow> st_get_storage (write_u64 owner slot v s) i k =
    (if i = owner \<and> k = slot then slot_value (u64_le v) else st_get_storage s i k)"
  by (simp add: write_u64_def st_get_set_storage)

lemma get_write_pair [slot_simps]:
  "st_wf s \<Longrightarrow> st_get_storage (write_pair owner slot a b s) i k =
    (if i = owner \<and> k = slot then slot_value (u64_le a @ u64_le b) else st_get_storage s i k)"
  by (simp add: write_pair_def st_get_set_storage)

lemma read_write_u64 [slot_simps]:
  "st_wf s \<Longrightarrow> read_u64 (write_u64 owner slot v s) i k = (if i = owner \<and> k = slot then v else read_u64 s i k)"
  by (simp add: read_u64_def slot_simps codec_simps)

lemma read_write_pair [slot_simps]:
  "st_wf s \<Longrightarrow> read_pair (write_pair owner slot a b s) i k = (if i = owner \<and> k = slot then (a, b) else read_pair s i k)"
  by (simp add: read_pair_def slot_simps codec_simps)

text \<open>A read depends on its slot only.\<close>

lemma read_u64_cong: "st_get_storage s' i k = st_get_storage s i k \<Longrightarrow> read_u64 s' i k = read_u64 s i k"
  by (simp add: read_u64_def)

lemma read_pair_cong: "st_get_storage s' i k = st_get_storage s i k \<Longrightarrow> read_pair s' i k = read_pair s i k"
  by (simp add: read_pair_def)

text \<open>
  A concrete hash for samples: injective on messages of fewer than 32 bytes.
\<close>

definition short_hash :: "bytes \<Rightarrow> hash32" where
  "short_hash m = hash_from_bytes (m @ 1 # replicate (31 - length m) 0)"

lemma short_hash_inj:
  assumes "length a \<le> 31" and "length b \<le> 31" and "short_hash a = short_hash b"
  shows "a = b"
proof -
  have eq: "a @ 1 # replicate (31 - length a) 0 = b @ 1 # replicate (31 - length b) (0 :: u8)"
  proof -
    have len: "length (c @ 1 # replicate (31 - length c) (0 :: u8)) = 32" if "length c \<le> 31" for c
      using that by simp
    show ?thesis
      using assms(3) bytes32_from [OF len [OF assms(1)]] bytes32_from [OF len [OF assms(2)]]
      unfolding short_hash_def by metis
  qed
  have drop: "dropWhile (\<lambda>x. x = 0) (rev (c @ 1 # replicate n (0 :: u8))) = 1 # rev c" for c n
  proof -
    have "rev (c @ 1 # replicate n (0 :: u8)) = replicate n 0 @ 1 # rev c" by simp
    then show ?thesis by (simp add: dropWhile_append)
  qed
  from eq have "1 # rev a = (1 :: u8) # rev b" by (metis drop)
  then show ?thesis by simp
qed

end
