(* ===== verification/Price_Ladder.thy ===== *)
theory Price_Ladder
  imports Slots
begin

text \<open>
  The price ladder of a market side, after \<open>ace-liquid/src/critbit.rs\<close>: a crit-bit tree of
  64-bit prices whose nodes live in storage slots of the market account, in an arena with a free
  list that both sides of a market share.

  \<open>None\<close> is a loop that does not end or a panic of \<open>unreachable!\<close>; the theorems show that neither
  happens on a well-formed arena. A tree of 64-bit keys has at most 64 inner nodes on a path, so no
  fuel is needed: the loops are partial functions.
\<close>

unbundle bit_operations_syntax

datatype order_side = Buy | Sell

type_synonym market_id = hash32

section \<open>Slots and nodes\<close>

definition BOOK_DOMAIN :: bytes where "BOOK_DOMAIN = ascii ''ace-liquid:book:v1:''"
definition CB_ROOT_DOMAIN :: bytes where "CB_ROOT_DOMAIN = ascii ''ace-liquid:cb-root:v1''"
definition CB_NODE_DOMAIN :: bytes where "CB_NODE_DOMAIN = ascii ''ace-liquid:cb-node:v1''"
definition ALLOC_DOMAIN :: bytes where "ALLOC_DOMAIN = ascii ''ace-liquid:cb-alloc:v1''"
definition FREELIST_DOMAIN :: bytes where "FREELIST_DOMAIN = ascii ''ace-liquid:cb-free:v1''"

definition TAG_FREE :: u8 where "TAG_FREE = 0"
definition TAG_INNER :: u8 where "TAG_INNER = 1"
definition TAG_LEAF :: u8 where "TAG_LEAF = 2"

definition market_book_id :: "crypto \<Rightarrow> market_id \<Rightarrow> account_id" where
  "market_book_id cr m = sha256 cr (BOOK_DOMAIN @ bytes32 m)"

datatype cb_node = Inner u8 u64 u64 | Leaf u64

definition cb_domain_slot :: "crypto \<Rightarrow> bytes \<Rightarrow> bytes \<Rightarrow> hash32" where
  "cb_domain_slot cr domain key = sha256 cr (domain @ key)"

definition single_slot :: "crypto \<Rightarrow> bytes \<Rightarrow> hash32" where
  "single_slot cr domain = cb_domain_slot cr domain []"

definition node_slot :: "crypto \<Rightarrow> u64 \<Rightarrow> hash32" where
  "node_slot cr h = cb_domain_slot cr CB_NODE_DOMAIN (u64_le h)"

fun side_byte :: "order_side \<Rightarrow> u8" where
  "side_byte Buy = 0"
| "side_byte Sell = 1"

definition root_slot :: "crypto \<Rightarrow> order_side \<Rightarrow> hash32" where
  "root_slot cr side = cb_domain_slot cr CB_ROOT_DOMAIN [side_byte side]"

definition leading_zeros :: "u64 \<Rightarrow> nat" where
  "leading_zeros x = length (takeWhile (\<lambda>i. \<not> bit x i) (rev [0..<64]))"

definition highest_bit :: "u64 \<Rightarrow> u8" where
  "highest_bit x = word_of_nat (63 - leading_zeros x)"

text \<open>The shift amount wraps at the width of the key.\<close>

definition dir :: "u64 \<Rightarrow> u8 \<Rightarrow> nat" where
  "dir key crit = unat (drop_bit (unat crit mod 64) key AND 1)"

definition cb_read_node :: "crypto \<Rightarrow> state_tree \<Rightarrow> account_id \<Rightarrow> u64 \<Rightarrow> cb_node" where
  "cb_read_node cr s owner h =
    (let v = bytes32 (st_get_storage s owner (node_slot cr h));
         a = u64_from_le (slice 8 8 v); b = u64_from_le (slice 16 8 v)
     in if v ! 0 = TAG_INNER then Inner (v ! 1) a b else Leaf a)"

definition write_raw_node :: "crypto \<Rightarrow> account_id \<Rightarrow> u64 \<Rightarrow> u8 \<Rightarrow> u8 \<Rightarrow> u64 \<Rightarrow> u64 \<Rightarrow> state_tree \<Rightarrow> state_tree" where
  "write_raw_node cr owner h tag crit a b s =
    st_set_storage owner (node_slot cr h)
      (slot_value ([tag, crit, 0, 0, 0, 0, 0, 0] @ u64_le a @ u64_le b)) s"

fun cb_write_node :: "crypto \<Rightarrow> account_id \<Rightarrow> u64 \<Rightarrow> cb_node \<Rightarrow> state_tree \<Rightarrow> state_tree" where
  "cb_write_node cr owner h (Inner crit l r) s = write_raw_node cr owner h TAG_INNER crit l r s"
| "cb_write_node cr owner h (Leaf key) s = write_raw_node cr owner h TAG_LEAF 0 key 0 s"

definition read_root :: "crypto \<Rightarrow> state_tree \<Rightarrow> account_id \<Rightarrow> order_side \<Rightarrow> u64" where
  "read_root cr s owner side = read_u64 s owner (root_slot cr side)"

definition write_root :: "crypto \<Rightarrow> account_id \<Rightarrow> order_side \<Rightarrow> u64 \<Rightarrow> state_tree \<Rightarrow> state_tree" where
  "write_root cr owner side h s = write_u64 owner (root_slot cr side) h s"

section \<open>Arena\<close>

definition alloc :: "crypto \<Rightarrow> account_id \<Rightarrow> state_tree \<Rightarrow> state_tree \<times> u64" where
  "alloc cr owner s =
    (let free_head = read_u64 s owner (single_slot cr FREELIST_DOMAIN)
     in if free_head \<noteq> 0
        then let nxt = (case cb_read_node cr s owner free_head of Leaf key \<Rightarrow> key | _ \<Rightarrow> 0)
          in (write_u64 owner (single_slot cr FREELIST_DOMAIN) nxt s, free_head)
        else let next_handle = max (read_u64 s owner (single_slot cr ALLOC_DOMAIN)) 1
          in (write_u64 owner (single_slot cr ALLOC_DOMAIN) (next_handle + 1) s, next_handle))"

definition cb_free :: "crypto \<Rightarrow> account_id \<Rightarrow> u64 \<Rightarrow> state_tree \<Rightarrow> state_tree" where
  "cb_free cr owner h s =
    (let free_head = read_u64 s owner (single_slot cr FREELIST_DOMAIN)
     in write_u64 owner (single_slot cr FREELIST_DOMAIN) h (write_raw_node cr owner h TAG_FREE 0 free_head 0 s))"

section \<open>Operations\<close>

datatype link = Root | Child u64 nat

definition set_link :: "crypto \<Rightarrow> account_id \<Rightarrow> order_side \<Rightarrow> link \<Rightarrow> u64 \<Rightarrow> state_tree \<Rightarrow> state_tree option" where
  "set_link cr owner side link v s =
    (case link of
       Root \<Rightarrow> Some (write_root cr owner side v s)
     | Child parent idx \<Rightarrow>
         (case cb_read_node cr s owner parent of
            Inner crit l r \<Rightarrow>
              Some (cb_write_node cr owner parent (if idx = 0 then Inner crit v r else Inner crit l v) s)
          | Leaf _ \<Rightarrow> None))"

partial_function (option) cb_walk :: "crypto \<Rightarrow> state_tree \<Rightarrow> account_id \<Rightarrow> u64 \<Rightarrow> u64 \<Rightarrow> u64 option" where
  [code]: "cb_walk cr s owner key p =
    (case cb_read_node cr s owner p of
       Inner crit l r \<Rightarrow> cb_walk cr s owner key (if dir key crit = 0 then l else r)
     | Leaf k \<Rightarrow> Some k)"

partial_function (option) cb_descend ::
    "crypto \<Rightarrow> state_tree \<Rightarrow> account_id \<Rightarrow> u64 \<Rightarrow> u8 \<Rightarrow> link \<Rightarrow> u64 \<Rightarrow> (link \<times> u64) option" where
  [code]: "cb_descend cr s owner key cb link cur =
    (case cb_read_node cr s owner cur of
       Inner crit l r \<Rightarrow>
         if crit > cb then cb_descend cr s owner key cb (Child cur (dir key crit)) (if dir key crit = 0 then l else r)
         else Some (link, cur)
     | Leaf k \<Rightarrow> Some (link, cur))"

definition cb_insert :: "crypto \<Rightarrow> market_id \<Rightarrow> order_side \<Rightarrow> u64 \<Rightarrow> state_tree \<Rightarrow> state_tree option" where
  "cb_insert cr m side key s =
    (let owner = market_book_id cr m; root = read_root cr s owner side
     in if root = 0
        then let (s, leaf) = alloc cr owner s
          in Some (write_root cr owner side leaf (cb_write_node cr owner leaf (Leaf key) s))
        else case cb_walk cr s owner key root of
          None \<Rightarrow> None
        | Some leaf_key \<Rightarrow>
            if leaf_key = key then Some s
            else let cb = highest_bit (key XOR leaf_key)
              in case cb_descend cr s owner key cb Root root of
                   None \<Rightarrow> None
                 | Some (link, cur) \<Rightarrow>
                     let (s, new_leaf) = alloc cr owner s;
                         s = cb_write_node cr owner new_leaf (Leaf key) s;
                         (s, new_inner) = alloc cr owner s;
                         s = cb_write_node cr owner new_inner
                               (if dir key cb = 0 then Inner cb new_leaf cur else Inner cb cur new_leaf) s
                     in set_link cr owner side link new_inner s)"

text \<open>The search of \<open>remove\<close>: the leaf, the link to its parent, the parent and the direction taken there.\<close>

partial_function (option) cb_find ::
    "crypto \<Rightarrow> state_tree \<Rightarrow> account_id \<Rightarrow> u64 \<Rightarrow> link \<Rightarrow> u64 \<Rightarrow> (link \<times> u64 \<times> nat) option
     \<Rightarrow> (u64 \<times> (link \<times> u64 \<times> nat) option) option option" where
  [code]: "cb_find cr s owner key link_p p parent =
    (case cb_read_node cr s owner p of
       Inner crit l r \<Rightarrow>
         cb_find cr s owner key (Child p (dir key crit)) (if dir key crit = 0 then l else r)
           (Some (link_p, p, dir key crit))
     | Leaf leaf_key \<Rightarrow> Some (if leaf_key \<noteq> key then None else Some (p, parent)))"

definition cb_remove :: "crypto \<Rightarrow> market_id \<Rightarrow> order_side \<Rightarrow> u64 \<Rightarrow> state_tree \<Rightarrow> state_tree option" where
  "cb_remove cr m side key s =
    (let owner = market_book_id cr m; root = read_root cr s owner side
     in if root = 0 then Some s
        else case cb_find cr s owner key Root root None of
          None \<Rightarrow> None
        | Some None \<Rightarrow> Some s
        | Some (Some (p, parent)) \<Rightarrow>
            let s = cb_free cr owner p s
            in case parent of
                 None \<Rightarrow> Some (write_root cr owner side 0 s)
               | Some (link_q, q, qdir) \<Rightarrow>
                   (case cb_read_node cr s owner q of
                      Inner crit l r \<Rightarrow>
                        map_option (cb_free cr owner q)
                          (set_link cr owner side link_q (if qdir = 0 then r else l) s)
                    | Leaf _ \<Rightarrow> None))"

partial_function (option) cb_extreme_from :: "crypto \<Rightarrow> state_tree \<Rightarrow> account_id \<Rightarrow> nat \<Rightarrow> u64 \<Rightarrow> u64 option" where
  [code]: "cb_extreme_from cr s owner child p =
    (case cb_read_node cr s owner p of
       Inner crit l r \<Rightarrow> cb_extreme_from cr s owner child (if child = 0 then l else r)
     | Leaf key \<Rightarrow> Some key)"

definition cb_extreme :: "crypto \<Rightarrow> state_tree \<Rightarrow> market_id \<Rightarrow> order_side \<Rightarrow> nat \<Rightarrow> u64 option option" where
  "cb_extreme cr s m side child =
    (let owner = market_book_id cr m; p = read_root cr s owner side
     in if p = 0 then Some None else map_option Some (cb_extreme_from cr s owner child p))"

definition cb_min :: "crypto \<Rightarrow> state_tree \<Rightarrow> market_id \<Rightarrow> order_side \<Rightarrow> u64 option option" where
  "cb_min cr s m side = cb_extreme cr s m side 0"

definition cb_max :: "crypto \<Rightarrow> state_tree \<Rightarrow> market_id \<Rightarrow> order_side \<Rightarrow> u64 option option" where
  "cb_max cr s m side = cb_extreme cr s m side 1"

section \<open>Crit-bit trees\<close>

text \<open>
  The tree behind a ladder: nodes with their handles. \<open>crit_ok\<close> is the crit-bit invariant: below an inner
  node all keys agree above its critical bit, which sends them left or right.
\<close>

datatype cbtree = Lf u64 u64 | Nd u64 u8 cbtree cbtree

primrec th :: "cbtree \<Rightarrow> u64" where
  "th (Lf h k) = h"
| "th (Nd h c l r) = h"

primrec handles :: "cbtree \<Rightarrow> u64 list" where
  "handles (Lf h k) = [h]"
| "handles (Nd h c l r) = h # handles l @ handles r"

primrec keys :: "cbtree \<Rightarrow> u64 set" where
  "keys (Lf h k) = {k}"
| "keys (Nd h c l r) = keys l \<union> keys r"

definition agree_above :: "nat \<Rightarrow> u64 \<Rightarrow> u64 \<Rightarrow> bool" where
  "agree_above c a b \<longleftrightarrow> (\<forall>i. c < i \<longrightarrow> bit a i = bit b i)"

primrec crit_ok :: "cbtree \<Rightarrow> bool" where
  "crit_ok (Lf h k) = True"
| "crit_ok (Nd h c l r) \<longleftrightarrow> crit_ok l \<and> crit_ok r \<and> unat c < 64
    \<and> (\<forall>k \<in> keys l. \<not> bit k (unat c)) \<and> (\<forall>k \<in> keys r. bit k (unat c))
    \<and> (\<forall>a \<in> keys l \<union> keys r. \<forall>b \<in> keys l \<union> keys r. agree_above (unat c) a b)"

primrec repr :: "(u64 \<Rightarrow> cb_node) \<Rightarrow> cbtree \<Rightarrow> bool" where
  "repr rd (Lf h k) \<longleftrightarrow> rd h = Leaf k"
| "repr rd (Nd h c l r) \<longleftrightarrow> rd h = Inner c (th l) (th r) \<and> repr rd l \<and> repr rd r"

lemma th_handles [simp]: "th t \<in> set (handles t)"
  by (cases t) simp_all

lemma repr_cong: "(\<And>h. h \<in> set (handles t) \<Longrightarrow> rd' h = rd h) \<Longrightarrow> repr rd' t = repr rd t"
  by (induction t) simp_all

lemma keys_nonempty [simp]: "keys t \<noteq> {}"
  by (induction t) simp_all

lemma finite_keys [simp]: "finite (keys t)"
  by (induction t) simp_all

lemma agree_sym: "agree_above c a b \<Longrightarrow> agree_above c b a"
  by (simp add: agree_above_def)

lemma agree_trans: "agree_above c a b \<Longrightarrow> agree_above c b d \<Longrightarrow> agree_above c a d"
  by (simp add: agree_above_def)

lemma agree_mono: "agree_above c a b \<Longrightarrow> c \<le> c' \<Longrightarrow> agree_above c' a b"
  by (simp add: agree_above_def)

lemma agree_refl [simp]: "agree_above c a a"
  by (simp add: agree_above_def)

subsection \<open>Bits\<close>

lemma dir_bit: "unat c < 64 \<Longrightarrow> dir key c = (if bit key (unat c) then 1 else 0)"
  by (simp add: dir_def and_one_eq bit_iff_odd_drop_bit mod_2_eq_odd)

lemma leading_zeros_lt:
  assumes "x \<noteq> 0"
  shows "leading_zeros x < 64" and "bit x (63 - leading_zeros x)"
    and "\<And>i. 63 - leading_zeros x < i \<Longrightarrow> \<not> bit x i"
proof -
  let ?xs = "rev [0..<64]" and ?n = "leading_zeros x"
  have nth: "?xs ! i = 63 - i" if "i < 64" for i
    using that by (simp add: rev_nth)
  have small: "bit x j \<Longrightarrow> j < 64" for j
    using bit_imp_le_length [of x j] by simp
  obtain j where j: "bit x j" using assms bit_eq_iff [of x 0] by auto
  have "\<exists>i \<in> set ?xs. bit x i" using j small [OF j] by auto
  then have lt: "?n < length ?xs"
    unfolding leading_zeros_def
    by (metis length_takeWhile_le nat_less_le take_all_iff takeWhile_eq_take takeWhile_eq_all_conv order_refl)
  then show n: "?n < 64" by simp
  have "bit x (?xs ! ?n)"
    using nth_length_takeWhile [of "\<lambda>i. \<not> bit x i" ?xs] lt by (simp add: leading_zeros_def)
  then show "bit x (63 - ?n)" using nth n by simp
  fix i assume i: "63 - ?n < i"
  show "\<not> bit x i"
  proof (cases "i < 64")
    case True
    then have "63 - i < ?n" using i by simp
    then have "takeWhile (\<lambda>i. \<not> bit x i) ?xs ! (63 - i) = ?xs ! (63 - i)"
      and "63 - i < length (takeWhile (\<lambda>i. \<not> bit x i) ?xs)"
      by (simp_all add: leading_zeros_def takeWhile_nth)
    then have "?xs ! (63 - i) \<in> set (takeWhile (\<lambda>i. \<not> bit x i) ?xs)" by (metis nth_mem)
    then show ?thesis using nth [of "63 - i"] True by (auto dest: set_takeWhileD)
  next
    case False
    then show ?thesis using small [of i] by auto
  qed
qed

lemma highest_bit_xor:
  assumes "a \<noteq> (b :: u64)"
  shows "unat (highest_bit (a XOR b)) < 64"
    and "bit a (unat (highest_bit (a XOR b))) \<noteq> bit b (unat (highest_bit (a XOR b)))"
    and "agree_above (unat (highest_bit (a XOR b))) a b"
proof -
  have nz: "a XOR b \<noteq> 0"
  proof
    assume "a XOR b = 0"
    then have "bit (a XOR b) i = False" for i by simp
    then have "a = b" by (intro bit_eqI) (simp add: bit_xor_iff)
    with assms show False by simp
  qed
  have u: "unat (highest_bit (a XOR b)) = 63 - leading_zeros (a XOR b)"
    by (simp add: highest_bit_def unat_of_nat)
  note z = leading_zeros_lt [OF nz]
  show "unat (highest_bit (a XOR b)) < 64" by (simp add: u)
  show "bit a (unat (highest_bit (a XOR b))) \<noteq> bit b (unat (highest_bit (a XOR b)))"
    using z(2) by (simp add: u bit_xor_iff)
  show "agree_above (unat (highest_bit (a XOR b))) a b"
    using z(3) by (auto simp: u agree_above_def bit_xor_iff)
qed

lemma bit_unat: "bit (unat (a :: u64)) i = bit a i"
  by (simp add: bit_unsigned_iff)

lemma half_parity: "(x :: nat) div 2 = y div 2 \<Longrightarrow> even x \<Longrightarrow> odd y \<Longrightarrow> x < y"
  by presburger

lemma less_by_bit:
  assumes "agree_above c a b" and "\<not> bit a c" and "bit b c"
  shows "(a :: u64) < b"
proof -
  have "drop_bit (Suc c) a = drop_bit (Suc c) b"
    using assms(1) by (intro bit_eqI) (simp add: bit_drop_bit_eq agree_above_def)
  then have "unat a div 2 ^ Suc c = unat b div 2 ^ Suc c" by (metis unat_drop_bit)
  then have "(unat a div 2 ^ c) div 2 = (unat b div 2 ^ c) div 2"
    by (simp add: div_mult2_eq [symmetric] mult.commute)
  moreover have "even (unat a div 2 ^ c)" "odd (unat b div 2 ^ c)"
    using assms(2,3) unfolding bit_unat [symmetric] bit_iff_odd by simp_all
  ultimately have "unat a div 2 ^ c < unat b div 2 ^ c" by (rule half_parity)
  then have "unat a < unat b" by (metis div_le_mono linorder_not_less)
  then show ?thesis by (simp add: word_less_nat_alt)
qed

subsection \<open>Search\<close>

primrec t_walk :: "u64 \<Rightarrow> cbtree \<Rightarrow> u64" where
  "t_walk key (Lf h k) = k"
| "t_walk key (Nd h c l r) = (if bit key (unat c) then t_walk key r else t_walk key l)"

lemma t_walk_keys [simp]: "t_walk key t \<in> keys t"
  by (induction t) simp_all

lemma t_walk_found: "crit_ok t \<Longrightarrow> key \<in> keys t \<longleftrightarrow> t_walk key t = key"
proof (induction t)
  case (Nd h c l r)
  then show ?case using t_walk_keys [of key l] t_walk_keys [of key r] by auto
qed auto

primrec t_extreme :: "bool \<Rightarrow> cbtree \<Rightarrow> u64" where
  "t_extreme right (Lf h k) = k"
| "t_extreme right (Nd h c l r) = (if right then t_extreme right r else t_extreme right l)"

lemma t_extreme_keys: "t_extreme right t \<in> keys t"
  by (induction t) auto

lemma crit_order:
  assumes "crit_ok (Nd h c l r)" and "a \<in> keys l" and "b \<in> keys r"
  shows "a < b"
  using assms by (intro less_by_bit [of "unat c"]) auto

lemma t_extreme_bounds:
  "crit_ok t \<Longrightarrow> k \<in> keys t \<Longrightarrow> t_extreme False t \<le> k \<and> k \<le> t_extreme True t"
proof (induction t)
  case (Nd h c l r)
  have lr: "a < b" if "a \<in> keys l" "b \<in> keys r" for a b using crit_order [OF Nd.prems(1) that] .
  from Nd.prems(2) show ?case
  proof (simp, elim disjE)
    assume "k \<in> keys l"
    then show "t_extreme False l \<le> k \<and> k \<le> t_extreme True r"
      using Nd lr t_extreme_keys [of True r] by (auto intro: less_imp_le)
  next
    assume "k \<in> keys r"
    then show "t_extreme False l \<le> k \<and> k \<le> t_extreme True r"
      using Nd lr t_extreme_keys [of False l] by (auto intro: less_imp_le)
  qed
qed simp

lemma t_extreme_min: "crit_ok t \<Longrightarrow> t_extreme False t = Min (keys t)"
  using t_extreme_bounds t_extreme_keys by (intro Min_eqI [symmetric]) auto

lemma t_extreme_max: "crit_ok t \<Longrightarrow> t_extreme True t = Max (keys t)"
  using t_extreme_bounds t_extreme_keys by (intro Max_eqI [symmetric]) auto

subsection \<open>Insertion\<close>

text \<open>\<open>nl\<close> and \<open>ni\<close> are the handles of the new leaf and the new inner node.\<close>

definition t_join :: "u64 \<Rightarrow> u8 \<Rightarrow> u64 \<Rightarrow> u64 \<Rightarrow> cbtree \<Rightarrow> cbtree" where
  "t_join key cb nl ni t = (if bit key (unat cb) then Nd ni cb t (Lf nl key) else Nd ni cb (Lf nl key) t)"

primrec t_ins :: "u64 \<Rightarrow> u8 \<Rightarrow> u64 \<Rightarrow> u64 \<Rightarrow> cbtree \<Rightarrow> cbtree" where
  "t_ins key cb nl ni (Lf h k) = t_join key cb nl ni (Lf h k)"
| "t_ins key cb nl ni (Nd h c l r) =
    (if c > cb
     then if bit key (unat c) then Nd h c l (t_ins key cb nl ni r) else Nd h c (t_ins key cb nl ni l) r
     else t_join key cb nl ni (Nd h c l r))"

lemma keys_join [simp]: "keys (t_join key cb nl ni t) = insert key (keys t)"
  by (auto simp: t_join_def)

lemma keys_ins [simp]: "keys (t_ins key cb nl ni t) = insert key (keys t)"
  by (induction t) auto

lemma handles_ins: "mset (handles (t_ins key cb nl ni t)) = mset (handles t) + {#nl, ni#}"
  by (induction t) (auto simp: t_join_def)

lemma join_ok:
  assumes "crit_ok t" and cb: "unat cb < 64"
    and "\<And>k. k \<in> keys t \<Longrightarrow> bit k (unat cb) \<noteq> bit key (unat cb)"
    and "\<And>k. k \<in> keys t \<Longrightarrow> agree_above (unat cb) key k"
  shows "crit_ok (t_join key cb nl ni t)"
proof -
  have "agree_above (unat cb) a b" if "a \<in> insert key (keys t)" "b \<in> insert key (keys t)" for a b
    using that assms(4) by (auto intro: agree_sym agree_trans [OF agree_sym])
  then show ?thesis using assms(1-3) by (auto simp: t_join_def)
qed

lemma ins_ok:
  assumes "crit_ok t" and "t_walk key t = lk" and "lk \<noteq> key"
    and cb: "unat cb < 64" "bit key (unat cb) \<noteq> bit lk (unat cb)" "agree_above (unat cb) key lk"
  shows "crit_ok (t_ins key cb nl ni t)"
  using assms(1,2)
proof (induction t)
  case (Lf h k)
  then show ?case using cb by (auto intro!: join_ok)
next
  case (Nd h c l r)
  have lk: "lk \<in> keys l \<union> keys r" using Nd.prems(2) t_walk_keys [of key l] t_walk_keys [of key r] by (auto split: if_splits)
  have ab: "agree_above (unat c) lk k" if "k \<in> keys l \<union> keys r" for k
    using Nd.prems(1) lk that by simp
  show ?case
  proof (cases "c > cb")
    case True
    then have lt: "unat cb < unat c" by (simp add: word_less_nat_alt)
    have key: "agree_above (unat c) key k" if "k \<in> keys l \<union> keys r" for k
      using agree_trans [OF agree_mono [OF cb(3) less_imp_le [OF lt]] ab [OF that]] .
    have all: "agree_above (unat c) a b" if "a \<in> insert key (keys l \<union> keys r)" "b \<in> insert key (keys l \<union> keys r)" for a b
      using that key Nd.prems(1) by (auto intro: agree_sym)
    have "bit key (unat c) = bit lk (unat c)" using cb(3) lt by (simp add: agree_above_def)
    then show ?thesis using True Nd all by auto
  next
    case False
    have "c \<noteq> cb"
    proof
      assume "c = cb"
      then have "bit lk (unat cb) = bit key (unat cb)"
        using Nd.prems t_walk_keys [of key l] t_walk_keys [of key r] by (auto split: if_splits)
      with cb(2) show False by simp
    qed
    with False have lt: "unat c < unat cb" by (simp add: word_less_nat_alt word_unat_eq_iff)
    have "bit k (unat cb) \<noteq> bit key (unat cb) \<and> agree_above (unat cb) key k" if "k \<in> keys l \<union> keys r" for k
    proof
      show "bit k (unat cb) \<noteq> bit key (unat cb)"
        using ab [OF that] lt cb(2) by (auto simp: agree_above_def)
      show "agree_above (unat cb) key k"
        by (rule agree_trans [OF cb(3) agree_mono [OF ab [OF that] less_imp_le [OF lt]]])
    qed
    then show ?thesis using False Nd.prems(1) cb(1) by (auto intro!: join_ok)
  qed
qed

subsection \<open>Deletion\<close>

text \<open>The tree without the leaf of \<open>key\<close>, which is not the whole tree.\<close>

primrec is_lf :: "cbtree \<Rightarrow> bool" where
  "is_lf (Lf h k) = True"
| "is_lf (Nd h c l r) = False"

primrec t_del :: "u64 \<Rightarrow> cbtree \<Rightarrow> cbtree" where
  "t_del key (Lf h k) = Lf h k"
| "t_del key (Nd h c l r) =
    (if bit key (unat c) then if is_lf r then l else Nd h c l (t_del key r)
     else if is_lf l then r else Nd h c (t_del key l) r)"

lemma is_lfE: "is_lf t \<Longrightarrow> (\<And>h k. t = Lf h k \<Longrightarrow> P) \<Longrightarrow> P"
  by (cases t) auto

lemma keys_del:
  assumes "crit_ok t" and "key \<in> keys t" and "\<not> is_lf t"
  shows "keys (t_del key t) = keys t - {key}"
  using assms
proof (induction t)
  case (Nd h c l r)
  have k: "if bit key (unat c) then key \<in> keys r \<and> key \<notin> keys l else key \<in> keys l \<and> key \<notin> keys r"
    using Nd.prems by auto
  have leaf: "is_lf t \<Longrightarrow> key \<in> keys t \<Longrightarrow> keys t = {key}" for t by (cases t) simp_all
  show ?case
  proof (cases "bit key (unat c)")
    case True
    then show ?thesis using Nd.IH(2) Nd.prems(1) k leaf [of r] by (cases "is_lf r") auto
  next
    case False
    then show ?thesis using Nd.IH(1) Nd.prems(1) k leaf [of l] by (cases "is_lf l") auto
  qed
qed simp

lemma del_ok:
  assumes "crit_ok t" and "key \<in> keys t" and "\<not> is_lf t"
  shows "crit_ok (t_del key t)"
  using assms
proof (induction t)
  case (Nd h c l r)
  show ?case
  proof (cases "bit key (unat c)")
    case True
    then have "key \<in> keys r" using Nd.prems by auto
    then show ?thesis using Nd True keys_del [of r key] by (cases "is_lf r") auto
  next
    case False
    then have "key \<in> keys l" using Nd.prems by auto
    then show ?thesis using Nd False keys_del [of l key] by (cases "is_lf l") auto
  qed
qed simp

section \<open>The loops on a represented tree\<close>

lemma walk_repr:
  "repr (cb_read_node cr s owner) t \<Longrightarrow> crit_ok t \<Longrightarrow> cb_walk cr s owner key (th t) = Some (t_walk key t)"
  by (induction t) (subst cb_walk.simps, simp add: dir_bit)+

lemma extreme_repr:
  "repr (cb_read_node cr s owner) t \<Longrightarrow>
    cb_extreme_from cr s owner child (th t) = Some (t_extreme (child \<noteq> 0) t)"
  by (induction t) (subst cb_extreme_from.simps, auto)+

primrec t_desc :: "u64 \<Rightarrow> u8 \<Rightarrow> link \<Rightarrow> cbtree \<Rightarrow> link \<times> u64" where
  "t_desc key cb link (Lf h k) = (link, h)"
| "t_desc key cb link (Nd h c l r) =
    (if c > cb then if bit key (unat c) then t_desc key cb (Child h 1) r else t_desc key cb (Child h 0) l
     else (link, h))"

lemma descend_repr:
  "repr (cb_read_node cr s owner) t \<Longrightarrow> crit_ok t \<Longrightarrow>
    cb_descend cr s owner key cb link (th t) = Some (t_desc key cb link t)"
  by (induction t arbitrary: link) (subst cb_descend.simps, simp add: dir_bit)+

primrec t_find :: "u64 \<Rightarrow> link \<Rightarrow> (link \<times> u64 \<times> nat) option \<Rightarrow> cbtree \<Rightarrow> (u64 \<times> (link \<times> u64 \<times> nat) option) option" where
  "t_find key link parent (Lf h k) = (if k \<noteq> key then None else Some (h, parent))"
| "t_find key link parent (Nd h c l r) =
    (if bit key (unat c) then t_find key (Child h 1) (Some (link, h, 1)) r
     else t_find key (Child h 0) (Some (link, h, 0)) l)"

lemma find_repr:
  "repr (cb_read_node cr s owner) t \<Longrightarrow> crit_ok t \<Longrightarrow>
    cb_find cr s owner key link (th t) parent = Some (t_find key link parent t)"
  by (induction t arbitrary: link parent) (subst cb_find.simps, simp add: dir_bit)+

lemma find_none: "crit_ok t \<Longrightarrow> t_find key link parent t = None \<longleftrightarrow> key \<notin> keys t"
  by (induction t arbitrary: link parent) auto

section \<open>Relinking\<close>

definition relink :: "link \<Rightarrow> u64 \<Rightarrow> (u64 \<Rightarrow> cb_node) \<Rightarrow> u64 \<Rightarrow> cb_node" where
  "relink link v rd = (case link of
     Root \<Rightarrow> rd
   | Child p d \<Rightarrow> (case rd p of
       Inner c l r \<Rightarrow> rd(p := (if d = 0 then Inner c v r else Inner c l v))
     | Leaf k \<Rightarrow> rd))"

lemma relink_other: "(\<And>d. link \<noteq> Child h d) \<Longrightarrow> relink link v rd h = rd h"
  by (auto simp: relink_def split: link.splits cb_node.splits)

lemma repr_relink: "(\<And>p d. link = Child p d \<Longrightarrow> p \<notin> set (handles t)) \<Longrightarrow> repr (relink link v rd) t = repr rd t"
  by (rule repr_cong, rule relink_other) auto

lemma repr_join:
  assumes "repr rd t" and "rd nl = Leaf key"
    and "rd ni = (if bit key (unat cb) then Inner cb (th t) nl else Inner cb nl (th t))"
  shows "repr rd (t_join key cb nl ni t) \<and> th (t_join key cb nl ni t) = ni"
  using assms by (simp add: t_join_def)

lemma ins_repr:
  assumes "repr rd t" and "distinct (handles t)" and "nl \<notin> set (handles t)" and "ni \<notin> set (handles t)"
    and "nl \<noteq> ni" and "rd nl = Leaf key" and "t_desc key cb link t = (lk, cur)"
    and "rd ni = (if bit key (unat cb) then Inner cb cur nl else Inner cb nl cur)"
  shows "lk = link \<and> th (t_ins key cb nl ni t) = ni \<and> repr rd (t_ins key cb nl ni t)
    \<or> (\<exists>p d c l r. lk = Child p d \<and> p \<in> set (handles t) \<and> rd p = Inner c l r
        \<and> th (t_ins key cb nl ni t) = th t \<and> repr (relink lk ni rd) (t_ins key cb nl ni t))"
  using assms
proof (induction t arbitrary: link)
  case (Lf h k)
  then show ?case by (auto simp: t_join_def)
next
  case (Nd h c l r)
  have hs: "h \<notin> set (handles l)" "h \<notin> set (handles r)" "set (handles l) \<inter> set (handles r) = {}"
      "distinct (handles l)" "distinct (handles r)"
    using Nd.prems(2) by auto
  have new: "h \<noteq> nl" "h \<noteq> ni" using Nd.prems(3,4) by auto
  show ?case
  proof (cases "c > cb")
    case False
    then show ?thesis using Nd.prems repr_join [OF Nd.prems(1,6), of ni cb] by simp
  next
    case gt: True
    define ch where "ch = (if bit key (unat c) then r else l)"
    define d where "d = (if bit key (unat c) then 1 else 0 :: nat)"
    have desc: "t_desc key cb (Child h d) ch = (lk, cur)"
      using Nd.prems(7) gt by (auto simp: ch_def d_def split: if_splits)
    have IH: "lk = Child h d \<and> th (t_ins key cb nl ni ch) = ni \<and> repr rd (t_ins key cb nl ni ch)
      \<or> (\<exists>p d c l r. lk = Child p d \<and> p \<in> set (handles ch) \<and> rd p = Inner c l r
          \<and> th (t_ins key cb nl ni ch) = th ch \<and> repr (relink lk ni rd) (t_ins key cb nl ni ch))"
      using Nd.IH(1) [of "Child h d"] Nd.IH(2) [of "Child h d"] Nd.prems desc hs
      by (cases "bit key (unat c)") (simp_all add: ch_def d_def)
    have hi: "set (handles (t_ins key cb nl ni ch)) = set (handles ch) \<union> {nl, ni}"
      using arg_cong [OF handles_ins, of set_mset key cb nl ni ch] by auto
    from IH show ?thesis
    proof (elim disjE exE conjE)
      assume a: "lk = Child h d" "th (t_ins key cb nl ni ch) = ni" "repr rd (t_ins key cb nl ni ch)"
      have "h \<notin> set (handles (t_ins key cb nl ni ch))" using hi hs new by (auto simp: ch_def)
      then have "repr (relink lk ni rd) (t_ins key cb nl ni ch)"
        using a(3) repr_relink [of lk "t_ins key cb nl ni ch" ni rd] a(1) by auto
      moreover have "repr (relink lk ni rd) l = repr rd l" "repr (relink lk ni rd) r = repr rd r"
        using hs a(1) by (auto intro!: repr_relink)
      moreover have "relink lk ni rd h = (if d = 0 then Inner c ni (th r) else Inner c (th l) ni)"
        using a(1) Nd.prems(1) by (simp add: relink_def)
      ultimately have "repr (relink lk ni rd) (t_ins key cb nl ni (Nd h c l r))
          \<and> th (t_ins key cb nl ni (Nd h c l r)) = h"
        using a(2) gt Nd.prems(1) by (simp add: ch_def d_def split: if_splits)
      then show ?thesis using a(1) Nd.prems(1) by auto
    next
      fix p d' c' l' r'
      assume a: "lk = Child p d'" "p \<in> set (handles ch)" "rd p = Inner c' l' r'"
        "th (t_ins key cb nl ni ch) = th ch" "repr (relink lk ni rd) (t_ins key cb nl ni ch)"
      have "p \<noteq> h" using a(2) hs by (auto simp: ch_def split: if_splits)
      then have h: "relink lk ni rd h = rd h" using a(1) by (intro relink_other) auto
      have "bit key (unat c) \<Longrightarrow> repr (relink lk ni rd) l = repr rd l"
          "\<not> bit key (unat c) \<Longrightarrow> repr (relink lk ni rd) r = repr rd r"
        using hs a(1,2) by (auto intro!: repr_relink simp: ch_def)
      then show ?thesis
        using a gt h Nd.prems(1) by (auto simp: ch_def split: if_splits)
    qed
  qed
qed

lemma del_repr:
  assumes "repr rd t" and "distinct (handles t)" and "crit_ok t" and "key \<in> keys t" and "\<not> is_lf t"
  shows "\<exists>p lq q qd c x y. t_find key link parent t = Some (p, Some (lq, q, qd)) \<and> rd q = Inner c x y
    \<and> mset (handles t) = mset (handles (t_del key t)) + {#p, q#}
    \<and> (lq = link \<and> th (t_del key t) = (if qd = 0 then y else x) \<and> repr rd (t_del key t)
       \<or> (\<exists>h d c' x' y'. lq = Child h d \<and> h \<in> set (handles (t_del key t)) \<and> rd h = Inner c' x' y'
           \<and> th (t_del key t) = th t \<and> repr (relink lq (if qd = 0 then y else x) rd) (t_del key t)))"
  using assms
proof (induction t arbitrary: link parent)
  case (Nd h c l r)
  have hs: "h \<notin> set (handles l)" "h \<notin> set (handles r)" "set (handles l) \<inter> set (handles r) = {}"
      "distinct (handles l)" "distinct (handles r)"
    using Nd.prems(2) by auto
  define ch where "ch = (if bit key (unat c) then r else l)"
  define oth where "oth = (if bit key (unat c) then l else r)"
  define d where "d = (if bit key (unat c) then 1 else 0 :: nat)"
  have ch: "repr rd ch" "repr rd oth" "distinct (handles ch)" "crit_ok ch" "key \<in> keys ch" "h \<notin> set (handles ch)"
      "h \<notin> set (handles oth)" "set (handles ch) \<inter> set (handles oth) = {}"
    using Nd.prems hs by (auto simp: ch_def oth_def)
  have hd: "rd h = (if d = 0 then Inner c (th ch) (th oth) else Inner c (th oth) (th ch))"
    and find: "t_find key link parent (Nd h c l r) = t_find key (Child h d) (Some (link, h, d)) ch"
    and hm: "mset (handles (Nd h c l r)) = {#h#} + mset (handles ch) + mset (handles oth)"
    using Nd.prems(1) by (auto simp: ch_def oth_def d_def)
  show ?case
  proof (cases "is_lf ch")
    case True
    then obtain p where p: "ch = Lf p key" using ch(5) by (auto elim: is_lfE)
    have del: "t_del key (Nd h c l r) = oth"
      using True by (auto simp: ch_def oth_def split: if_splits)
    have "t_find key link parent (Nd h c l r) = Some (p, Some (link, h, d))" using find p by simp
    moreover have "mset (handles (Nd h c l r)) = mset (handles oth) + {#p, h#}" using hm p by simp
    ultimately show ?thesis unfolding del using hd ch(2) by (cases "d = 0") auto
  next
    case False
    define ch' where "ch' = t_del key ch"
    have del: "t_del key (Nd h c l r) = (if d = 0 then Nd h c ch' oth else Nd h c oth ch')"
      using False by (auto simp: ch_def oth_def d_def ch'_def split: if_splits)
    have "\<exists>p lq q qd c x y. t_find key (Child h d) (Some (link, h, d)) ch = Some (p, Some (lq, q, qd)) \<and> rd q = Inner c x y
      \<and> mset (handles ch) = mset (handles ch') + {#p, q#}
      \<and> (lq = Child h d \<and> th ch' = (if qd = 0 then y else x) \<and> repr rd ch'
         \<or> (\<exists>h d c' x' y'. lq = Child h d \<and> h \<in> set (handles ch') \<and> rd h = Inner c' x' y'
             \<and> th ch' = th ch \<and> repr (relink lq (if qd = 0 then y else x) rd) ch'))"
      unfolding ch'_def using Nd.IH(1) [of "Child h d" "Some (link, h, d)"] Nd.IH(2) [of "Child h d" "Some (link, h, d)"]
        False ch by (cases "bit key (unat c)") (simp_all add: ch_def)
    then obtain p lq q qd c' x y where
        f: "t_find key link parent (Nd h c l r) = Some (p, Some (lq, q, qd))" and q: "rd q = Inner c' x y"
        and m: "mset (handles ch) = mset (handles ch') + {#p, q#}"
        and alt: "lq = Child h d \<and> th ch' = (if qd = 0 then y else x) \<and> repr rd ch'
         \<or> (\<exists>h d c' x' y'. lq = Child h d \<and> h \<in> set (handles ch') \<and> rd h = Inner c' x' y'
             \<and> th ch' = th ch \<and> repr (relink lq (if qd = 0 then y else x) rd) ch')"
      unfolding find by blast
    let ?v = "if qd = 0 then y else x" and ?t = "t_del key (Nd h c l r)"
    have sub: "set (handles ch') \<subseteq> set (handles ch)"
      using arg_cong [OF m, of set_mset] by auto
    have mm: "mset (handles (Nd h c l r)) = mset (handles ?t) + {#p, q#}"
      unfolding hm del using m by simp
    have "\<exists>h' d' c' x' y'. lq = Child h' d' \<and> h' \<in> set (handles ?t) \<and> rd h' = Inner c' x' y'
        \<and> th ?t = h \<and> repr (relink lq ?v rd) ?t"
      using alt
    proof (elim disjE exE conjE)
      assume a: "lq = Child h d" "th ch' = ?v" "repr rd ch'"
      have "repr (relink lq ?v rd) ch' = repr rd ch'" "repr (relink lq ?v rd) oth = repr rd oth"
        using a(1) ch(6,7) sub by (auto intro!: repr_relink)
      moreover have "relink lq ?v rd h = (if d = 0 then Inner c ?v (th oth) else Inner c (th oth) ?v)"
        using a(1) hd by (simp add: relink_def)
      ultimately have "repr (relink lq ?v rd) ?t" "th ?t = h"
        unfolding del using a(2,3) ch(2) by simp_all
      moreover have "h \<in> set (handles ?t)" unfolding del by simp
      ultimately show ?thesis using a(1) hd by (cases "d = 0") auto
    next
      fix h' d' c'' x' y'
      assume a: "lq = Child h' d'" "h' \<in> set (handles ch')" "rd h' = Inner c'' x' y'"
        "th ch' = th ch" "repr (relink lq ?v rd) ch'"
      have "h' \<noteq> h" "h' \<notin> set (handles oth)" using a(2) sub ch(6,8) by auto
      then have "relink lq ?v rd h = rd h" "repr (relink lq ?v rd) oth = repr rd oth"
        using a(1) by (auto intro!: relink_other repr_relink)
      then have "repr (relink lq ?v rd) ?t" "th ?t = h"
        unfolding del using a(4,5) ch(2) hd by simp_all
      moreover have "h' \<in> set (handles ?t)" using a(2) unfolding del by simp
      ultimately show ?thesis using a(1,3) by blast
    qed
    with f q mm show ?thesis by auto
  qed
qed simp

section \<open>Slots of the ladder\<close>

definition ladder_preimages :: "bytes set" where
  "ladder_preimages = {CB_ROOT_DOMAIN @ [side_byte Buy], CB_ROOT_DOMAIN @ [side_byte Sell], ALLOC_DOMAIN, FREELIST_DOMAIN}
    \<union> range (\<lambda>h. CB_NODE_DOMAIN @ u64_le h)"

text \<open>SHA-256 separates the slots of one market account.\<close>

definition ladder_slots_ok :: "crypto \<Rightarrow> bool" where
  "ladder_slots_ok cr \<longleftrightarrow> inj_on (sha256 cr) ladder_preimages"

lemmas ladder_domains = CB_ROOT_DOMAIN_def CB_NODE_DOMAIN_def ALLOC_DOMAIN_def FREELIST_DOMAIN_def

lemma ladder_preimage_neq:
  "CB_ROOT_DOMAIN @ [b] \<noteq> CB_NODE_DOMAIN @ u64_le h" "CB_ROOT_DOMAIN @ [b] \<noteq> ALLOC_DOMAIN"
  "CB_ROOT_DOMAIN @ [b] \<noteq> FREELIST_DOMAIN" "CB_NODE_DOMAIN @ u64_le h \<noteq> ALLOC_DOMAIN"
  "CB_NODE_DOMAIN @ u64_le h \<noteq> FREELIST_DOMAIN" "ALLOC_DOMAIN \<noteq> FREELIST_DOMAIN"
proof -
  have len: "length CB_ROOT_DOMAIN = 21" "length CB_NODE_DOMAIN = 21" "length ALLOC_DOMAIN = 22" "length FREELIST_DOMAIN = 21"
    by (simp_all add: ladder_domains)
  show "CB_ROOT_DOMAIN @ [b] \<noteq> CB_NODE_DOMAIN @ u64_le h" "CB_ROOT_DOMAIN @ [b] \<noteq> FREELIST_DOMAIN"
    "CB_NODE_DOMAIN @ u64_le h \<noteq> ALLOC_DOMAIN" "CB_NODE_DOMAIN @ u64_le h \<noteq> FREELIST_DOMAIN" "ALLOC_DOMAIN \<noteq> FREELIST_DOMAIN"
    using len by (auto dest!: arg_cong [of _ _ length])
  have "(CB_ROOT_DOMAIN @ [b]) ! 14 \<noteq> ALLOC_DOMAIN ! 14"
    using len by (simp add: nth_append) code_simp
  then show "CB_ROOT_DOMAIN @ [b] \<noteq> ALLOC_DOMAIN" by auto
qed

lemma slots_distinct:
  assumes "ladder_slots_ok cr"
  shows "node_slot cr h = node_slot cr h' \<longleftrightarrow> h = h'"
    and "root_slot cr a = root_slot cr b \<longleftrightarrow> a = b"
    and "node_slot cr h \<noteq> root_slot cr a" "root_slot cr a \<noteq> node_slot cr h"
    and "node_slot cr h \<noteq> single_slot cr ALLOC_DOMAIN" "single_slot cr ALLOC_DOMAIN \<noteq> node_slot cr h"
    and "node_slot cr h \<noteq> single_slot cr FREELIST_DOMAIN" "single_slot cr FREELIST_DOMAIN \<noteq> node_slot cr h"
    and "root_slot cr a \<noteq> single_slot cr ALLOC_DOMAIN" "single_slot cr ALLOC_DOMAIN \<noteq> root_slot cr a"
    and "root_slot cr a \<noteq> single_slot cr FREELIST_DOMAIN" "single_slot cr FREELIST_DOMAIN \<noteq> root_slot cr a"
    and "single_slot cr ALLOC_DOMAIN \<noteq> single_slot cr FREELIST_DOMAIN"
    and "single_slot cr FREELIST_DOMAIN \<noteq> single_slot cr ALLOC_DOMAIN"
proof -
  have mem: "CB_ROOT_DOMAIN @ [side_byte a] \<in> ladder_preimages" "CB_NODE_DOMAIN @ u64_le h \<in> ladder_preimages"
      "ALLOC_DOMAIN \<in> ladder_preimages" "FREELIST_DOMAIN \<in> ladder_preimages" for a h
    by (cases a; simp add: ladder_preimages_def)+
  have eq: "sha256 cr x = sha256 cr y \<longleftrightarrow> x = y" if "x \<in> ladder_preimages" "y \<in> ladder_preimages" for x y
    using assms that by (auto simp: ladder_slots_ok_def dest: inj_onD)
  note defs = node_slot_def root_slot_def single_slot_def cb_domain_slot_def
  show "node_slot cr h = node_slot cr h' \<longleftrightarrow> h = h'" by (simp add: defs eq mem)
  show "root_slot cr a = root_slot cr b \<longleftrightarrow> a = b" 
    using eq [OF mem(1) mem(1), of a b] by (cases a; cases b) (simp_all add: defs)
  show "node_slot cr h \<noteq> root_slot cr a" "root_slot cr a \<noteq> node_slot cr h"
    "node_slot cr h \<noteq> single_slot cr ALLOC_DOMAIN" "single_slot cr ALLOC_DOMAIN \<noteq> node_slot cr h"
    "node_slot cr h \<noteq> single_slot cr FREELIST_DOMAIN" "single_slot cr FREELIST_DOMAIN \<noteq> node_slot cr h"
    "root_slot cr a \<noteq> single_slot cr ALLOC_DOMAIN" "single_slot cr ALLOC_DOMAIN \<noteq> root_slot cr a"
    "root_slot cr a \<noteq> single_slot cr FREELIST_DOMAIN" "single_slot cr FREELIST_DOMAIN \<noteq> root_slot cr a"
    "single_slot cr ALLOC_DOMAIN \<noteq> single_slot cr FREELIST_DOMAIN"
    "single_slot cr FREELIST_DOMAIN \<noteq> single_slot cr ALLOC_DOMAIN"
    by (simp_all add: defs eq mem ladder_preimage_neq ladder_preimage_neq [symmetric])
qed

lemma node_value:
  "bytes32 (slot_value (tag # crit # 0 # 0 # 0 # 0 # 0 # 0 # u64_le a @ u64_le b)) =
    tag # crit # 0 # 0 # 0 # 0 # 0 # 0 # u64_le a @ u64_le b @ replicate 8 0"
  by (simp add: slot_simps)

lemma raw_node_wf [simp]: "st_wf s \<Longrightarrow> st_wf (write_raw_node cr owner h tag crit a b s)"
  by (simp add: write_raw_node_def)

lemma write_node_wf [simp]: "st_wf s \<Longrightarrow> st_wf (cb_write_node cr owner h n s)"
  by (cases n) simp_all

lemma read_raw_node:
  assumes "st_wf s" and "ladder_slots_ok cr"
  shows "cb_read_node cr (write_raw_node cr owner h tag crit a b s) owner
    = (cb_read_node cr s owner)(h := (if tag = TAG_INNER then Inner crit a b else Leaf a))"
proof
  fix h'
  show "cb_read_node cr (write_raw_node cr owner h tag crit a b s) owner h'
    = ((cb_read_node cr s owner)(h := (if tag = TAG_INNER then Inner crit a b else Leaf a))) h'"
    using assms
    by (simp add: cb_read_node_def write_raw_node_def st_get_set_storage slots_distinct node_value codec_simps Let_def)
qed

lemma read_write_node [slot_simps]:
  assumes "st_wf s" and "ladder_slots_ok cr"
  shows "cb_read_node cr (cb_write_node cr owner h n s) owner = (cb_read_node cr s owner)(h := n)"
  using assms by (cases n) (simp_all add: read_raw_node TAG_INNER_def TAG_LEAF_def)

lemma read_node_write_u64:
  assumes "st_wf s" and "\<And>h. slot \<noteq> node_slot cr h"
  shows "cb_read_node cr (write_u64 owner slot v s) owner = cb_read_node cr s owner"
  using assms(2) by (auto simp: fun_eq_iff cb_read_node_def get_write_u64 [OF assms(1)] Let_def)

lemma read_u64_raw_node:
  assumes "st_wf s" and "slot \<noteq> node_slot cr h"
  shows "read_u64 (write_raw_node cr owner h tag crit a b s) owner slot = read_u64 s owner slot"
  using assms by (simp add: read_u64_def write_raw_node_def st_get_set_storage)

lemma read_u64_node:
  assumes "st_wf s" and "slot \<noteq> node_slot cr h"
  shows "read_u64 (cb_write_node cr owner h n s) owner slot = read_u64 s owner slot"
  using assms by (cases n) (simp_all add: read_u64_raw_node)

section \<open>The arena\<close>

text \<open>
  The trees of both sides, the free list \<open>fl\<close> and handles \<open>xs\<close> that are allocated and not linked
  yet: all distinct, none is the null handle, all below the allocation counter.
\<close>

primrec hs :: "cbtree option \<Rightarrow> u64 list" where
  "hs None = []"
| "hs (Some t) = handles t"

primrec root_of :: "cbtree option \<Rightarrow> u64" where
  "root_of None = 0"
| "root_of (Some t) = th t"

primrec free_chain :: "(u64 \<Rightarrow> cb_node) \<Rightarrow> u64 \<Rightarrow> u64 list \<Rightarrow> bool" where
  "free_chain rd h [] \<longleftrightarrow> h = 0"
| "free_chain rd h (x # xs) \<longleftrightarrow> h = x \<and> (\<exists>n. rd x = Leaf n \<and> free_chain rd n xs)"

definition arena_counter :: "crypto \<Rightarrow> account_id \<Rightarrow> state_tree \<Rightarrow> u64" where
  "arena_counter cr owner s = max (read_u64 s owner (single_slot cr ALLOC_DOMAIN)) 1"

definition arena :: "crypto \<Rightarrow> account_id \<Rightarrow> state_tree \<Rightarrow> (order_side \<Rightarrow> cbtree option) \<Rightarrow> u64 list \<Rightarrow> u64 list \<Rightarrow> bool" where
  "arena cr owner s T fl xs \<longleftrightarrow> st_wf s
    \<and> (\<forall>side. read_root cr s owner side = root_of (T side))
    \<and> (\<forall>side t. T side = Some t \<longrightarrow> repr (cb_read_node cr s owner) t \<and> crit_ok t)
    \<and> free_chain (cb_read_node cr s owner) (read_u64 s owner (single_slot cr FREELIST_DOMAIN)) fl
    \<and> distinct (hs (T Buy) @ hs (T Sell) @ fl @ xs)
    \<and> (\<forall>h \<in> set (hs (T Buy) @ hs (T Sell) @ fl @ xs). h \<noteq> 0 \<and> h < arena_counter cr owner s)"

lemma free_chain_cong: "(\<And>h. h \<in> set fl \<Longrightarrow> rd' h = rd h) \<Longrightarrow> free_chain rd' n fl = free_chain rd n fl"
  by (induction fl arbitrary: n) auto

lemma arenaD:
  assumes "arena cr owner s T fl xs"
  shows "st_wf s" and "read_root cr s owner side = root_of (T side)"
    and "T side = Some t \<Longrightarrow> repr (cb_read_node cr s owner) t"
    and "T side = Some t \<Longrightarrow> crit_ok t" and "T side = Some t \<Longrightarrow> distinct (handles t)"
    and "T side = Some t \<Longrightarrow> h \<in> set (handles t) \<Longrightarrow> h \<noteq> 0"
proof -
  note a = assms [unfolded arena_def]
  show "st_wf s" "read_root cr s owner side = root_of (T side)"
    "T side = Some t \<Longrightarrow> repr (cb_read_node cr s owner) t" "T side = Some t \<Longrightarrow> crit_ok t"
    using a by blast+
  show "T side = Some t \<Longrightarrow> distinct (handles t)" "T side = Some t \<Longrightarrow> h \<in> set (handles t) \<Longrightarrow> h \<noteq> 0"
    using a by (cases side; auto)+
qed

text \<open>Writing to an allocated handle that is not linked changes nothing else.\<close>

lemma arena_write:
  assumes ok: "ladder_slots_ok cr" and a: "arena cr owner s T fl xs" and h: "h \<in> set xs"
  shows "arena cr owner (cb_write_node cr owner h n s) T fl xs"
proof -
  let ?s = "cb_write_node cr owner h n s"
  have wf: "st_wf s" using a by (simp add: arena_def)
  have dist: "distinct (hs (T Buy) @ hs (T Sell) @ fl @ xs)" using a by (simp add: arena_def)
  have rd: "cb_read_node cr ?s owner = (cb_read_node cr s owner)(h := n)" by (rule read_write_node [OF wf ok])
  have u: "read_u64 ?s owner (root_slot cr side) = read_u64 s owner (root_slot cr side)"
      "read_u64 ?s owner (single_slot cr ALLOC_DOMAIN) = read_u64 s owner (single_slot cr ALLOC_DOMAIN)"
      "read_u64 ?s owner (single_slot cr FREELIST_DOMAIN) = read_u64 s owner (single_slot cr FREELIST_DOMAIN)" for side
    by (rule read_u64_node [OF wf]; simp add: slots_distinct [OF ok])+
  have out: "h \<notin> set (hs (T side))" "h \<notin> set fl" for side
    using dist h by (cases side; auto)+
  have "repr (cb_read_node cr ?s owner) t = repr (cb_read_node cr s owner) t" if "T side = Some t" for side t
    unfolding rd using out(1) [of side] that by (intro repr_cong) auto
  moreover have "free_chain (cb_read_node cr ?s owner) m fl = free_chain (cb_read_node cr s owner) m fl" for m
    unfolding rd using out(2) by (intro free_chain_cong) auto
  ultimately show ?thesis
    using a wf by (simp add: arena_def read_root_def arena_counter_def u)
qed

lemma arena_alloc:
  assumes ok: "ladder_slots_ok cr" and a: "arena cr owner s T fl xs"
    and room: "arena_counter cr owner s \<noteq> - 1" and al: "alloc cr owner s = (s', h)"
  shows "\<exists>fl'. arena cr owner s' T fl' (h # xs)"
    and "cb_read_node cr s' owner = cb_read_node cr s owner"
    and "unat (arena_counter cr owner s') \<le> unat (arena_counter cr owner s) + 1"
    and "h \<noteq> 0"
proof -
  have wf: "st_wf s" using a by (simp add: arena_def)
  let ?f = "single_slot cr FREELIST_DOMAIN" and ?c = "single_slot cr ALLOC_DOMAIN" and ?rd = "cb_read_node cr s owner"
  have chain: "free_chain ?rd (read_u64 s owner ?f) fl" using a by (simp add: arena_def)
  note sd = slots_distinct [OF ok]
  have "(\<exists>fl'. arena cr owner s' T fl' (h # xs)) \<and> cb_read_node cr s' owner = ?rd
    \<and> unat (arena_counter cr owner s') \<le> unat (arena_counter cr owner s) + 1 \<and> h \<noteq> 0"
  proof (cases fl)
    case Nil
    then have f0: "read_u64 s owner ?f = 0" using chain by simp
    have s': "s' = write_u64 owner ?c (h + 1) s" and h: "h = arena_counter cr owner s"
      using al f0 by (auto simp: alloc_def Let_def arena_counter_def)
    have rd: "cb_read_node cr s' owner = ?rd"
      unfolding s' by (rule read_node_write_u64 [OF wf]) (simp add: sd)
    have u: "read_u64 s' owner k = (if k = ?c then h + 1 else read_u64 s owner k)" for k
      unfolding s' by (simp add: read_write_u64 [OF wf])
    have one: "1 \<le> h" by (simp add: h arena_counter_def)
    have n: "unat (h + 1) = unat h + 1"
    proof -
      have "unat h \<noteq> 2 ^ 64 - 1" using room h unat_max [where 'a = 64] by (simp add: word_unat_eq_iff)
      then have "unat h + unat (1 :: u64) < 2 ^ LENGTH(64)" using unat_lt [of h] by simp
      from unat_add_no_wrap [OF this] show ?thesis by simp
    qed
    have c': "arena_counter cr owner s' = h + 1"
      using n one by (simp add: arena_counter_def u max_def word_le_nat_alt)
    have lt: "x < h + 1" if "x < h" for x using that n by (simp add: word_less_nat_alt)
    have "h < h + 1" using n by (simp add: word_less_nat_alt)
    moreover have "h \<noteq> 0" using one by auto
    moreover have "x < h" if "x \<in> set (hs (T Buy) @ hs (T Sell) @ fl @ xs)" for x
      using a that unfolding arena_def h by blast
    moreover have "st_wf s'" using wf by (simp add: s')
    ultimately have "arena cr owner s' T [] (h # xs)"
      using a Nil lt unfolding arena_def rd c' by (auto simp: read_root_def u sd)
    then show ?thesis using rd c' h n \<open>h \<noteq> 0\<close> by auto
  next
    case (Cons y ys)
    obtain n where y: "read_u64 s owner ?f = y" "?rd y = Leaf n" "free_chain ?rd n ys" using chain Cons by auto
    have y0: "y \<noteq> 0" using a Cons by (simp add: arena_def)
    have s': "s' = write_u64 owner ?f n s" and h: "h = y"
      using al y y0 by (auto simp: alloc_def Let_def)
    have rd: "cb_read_node cr s' owner = ?rd"
      unfolding s' by (rule read_node_write_u64 [OF wf]) (simp add: sd)
    have u: "read_u64 s' owner k = (if k = ?f then n else read_u64 s owner k)" for k
      unfolding s' by (simp add: read_write_u64 [OF wf])
    have c': "arena_counter cr owner s' = arena_counter cr owner s" by (simp add: arena_counter_def u sd)
    have "st_wf s'" using wf by (simp add: s')
    then have "arena cr owner s' T ys (h # xs)"
      using a y Cons h unfolding arena_def rd c' by (auto simp: read_root_def u sd)
    then show ?thesis using rd c' h y0 by auto
  qed
  then show "\<exists>fl'. arena cr owner s' T fl' (h # xs)" "cb_read_node cr s' owner = ?rd"
    "unat (arena_counter cr owner s') \<le> unat (arena_counter cr owner s) + 1" "h \<noteq> 0" by blast+
qed

definition other :: "order_side \<Rightarrow> order_side" where
  "other side = (case side of Buy \<Rightarrow> Sell | Sell \<Rightarrow> Buy)"

lemma other_side [simp]: "other side \<noteq> side" "side \<noteq> other side"
  by (cases side; simp add: other_def)+

lemma side_cases: "o' = side \<or> o' = other side"
  by (cases o'; cases side) (simp_all add: other_def)

lemma mset_sides: "mset (hs (T Buy) @ hs (T Sell)) = mset (hs (T side)) + mset (hs (T (other side)))"
  by (cases side) (simp_all add: other_def)

text \<open>
  A step that rebuilds one side of the ladder: it keeps the other side's nodes and moves handles between
  the tree, the free list and the unlinked handles.
\<close>

lemma arena_rebuild:
  assumes a: "arena cr owner s T fl xs" and wf: "st_wf s'"
    and root: "read_root cr s' owner side = root_of t'" "read_root cr s' owner (other side) = read_root cr s owner (other side)"
    and rep: "\<And>t. t' = Some t \<Longrightarrow> repr (cb_read_node cr s' owner) t \<and> crit_ok t"
    and keep: "\<And>h. h \<in> set (hs (T (other side))) \<Longrightarrow> cb_read_node cr s' owner h = cb_read_node cr s owner h"
    and chain: "free_chain (cb_read_node cr s' owner) (read_u64 s' owner (single_slot cr FREELIST_DOMAIN)) fl'"
    and cnt: "arena_counter cr owner s' = arena_counter cr owner s"
    and mset: "mset (hs t') + mset fl' + mset ys = mset (hs (T side)) + mset fl + mset xs"
  shows "arena cr owner s' (T(side := t')) fl' ys"
proof -
  let ?T = "T(side := t')"
  have o: "?T (other side) = T (other side)" by simp
  have all: "mset (hs (?T Buy) @ hs (?T Sell) @ fl' @ ys) = mset (hs (T Buy) @ hs (T Sell) @ fl @ xs)"
  proof -
    have "mset (hs (?T Buy) @ hs (?T Sell) @ fl' @ ys) = (mset (hs t') + mset fl' + mset ys) + mset (hs (T (other side)))"
      using mset_sides [of ?T side] by (simp add: union_ac)
    also have "\<dots> = (mset (hs (T side)) + mset fl + mset xs) + mset (hs (T (other side)))"
      by (simp only: mset)
    also have "\<dots> = mset (hs (T Buy) @ hs (T Sell) @ fl @ xs)"
      using mset_sides [of T side] by (simp add: union_ac)
    finally show ?thesis .
  qed
  have dist0: "distinct (hs (T Buy) @ hs (T Sell) @ fl @ xs)" using a by (simp add: arena_def)
  have dist: "distinct (hs (?T Buy) @ hs (?T Sell) @ fl' @ ys)"
    using dist0 mset_eq_imp_distinct_iff [OF all] by blast
  have set: "set (hs (?T Buy) @ hs (?T Sell) @ fl' @ ys) = set (hs (T Buy) @ hs (T Sell) @ fl @ xs)"
    by (rule mset_eq_setD [OF all])
  have "read_root cr s' owner o' = root_of (?T o')" for o'
    using side_cases [of o' side] root a by (auto simp: arena_def)
  moreover have "repr (cb_read_node cr s' owner) t \<and> crit_ok t" if "?T o' = Some t" for o' t
  proof (cases "o' = side")
    case False
    then have t: "T (other side) = Some t" using that side_cases [of o' side] by auto
    then have "repr (cb_read_node cr s' owner) t = repr (cb_read_node cr s owner) t"
      using keep by (intro repr_cong) simp
    then show ?thesis using a t by (auto simp: arena_def)
  qed (use that rep in auto)
  moreover have "\<forall>h \<in> set (hs (?T Buy) @ hs (?T Sell) @ fl' @ ys). h \<noteq> 0 \<and> h < arena_counter cr owner s'"
    unfolding set cnt using a by (simp add: arena_def)
  ultimately show ?thesis using wf chain dist unfolding arena_def by (intro conjI allI impI) blast+
qed

text \<open>The effect of \<open>set_link\<close> on nodes, roots and counters.\<close>

lemma set_link_effect:
  assumes ok: "ladder_slots_ok cr" and wf: "st_wf s"
    and l: "link = Root \<or> (\<exists>p d c x y. link = Child p d \<and> cb_read_node cr s owner p = Inner c x y)"
  shows "\<exists>s'. set_link cr owner side link v s = Some s' \<and> st_wf s'
    \<and> cb_read_node cr s' owner = relink link v (cb_read_node cr s owner)
    \<and> (\<forall>o'. read_root cr s' owner o' = (if link = Root \<and> o' = side then v else read_root cr s owner o'))
    \<and> read_u64 s' owner (single_slot cr FREELIST_DOMAIN) = read_u64 s owner (single_slot cr FREELIST_DOMAIN)
    \<and> arena_counter cr owner s' = arena_counter cr owner s"
  using l
proof
  assume r: "link = Root"
  have "cb_read_node cr (write_root cr owner side v s) owner = cb_read_node cr s owner"
    unfolding write_root_def by (rule read_node_write_u64 [OF wf]) (simp add: slots_distinct [OF ok])
  then show ?thesis
    using r wf by (simp add: set_link_def relink_def write_root_def read_root_def arena_counter_def
        read_write_u64 slots_distinct [OF ok])
next
  assume "\<exists>p d c x y. link = Child p d \<and> cb_read_node cr s owner p = Inner c x y"
  then obtain p d c x y where c: "link = Child p d" "cb_read_node cr s owner p = Inner c x y" by blast
  have "read_u64 (cb_write_node cr owner p n s) owner slot = read_u64 s owner slot"
    if "slot \<noteq> node_slot cr p" for n slot by (rule read_u64_node [OF wf that])
  then show ?thesis
    using c wf by (simp add: set_link_def relink_def read_root_def arena_counter_def read_write_node [OF wf ok]
        slots_distinct [OF ok])
qed

section \<open>The operations on the arena\<close>

declare cb_write_node.simps [simp del]

primrec keyset :: "cbtree option \<Rightarrow> u64 set" where
  "keyset None = {}"
| "keyset (Some t) = keys t"

text \<open>Room for the two nodes an insertion may allocate.\<close>

definition arena_room :: "crypto \<Rightarrow> market_id \<Rightarrow> state_tree \<Rightarrow> bool" where
  "arena_room cr m s \<longleftrightarrow> unat (arena_counter cr (market_book_id cr m) s) < 2 ^ 64 - 2"

lemma not_max: "unat (c :: u64) < 2 ^ 64 - 1 \<Longrightarrow> c \<noteq> - 1"
  using unat_max [where 'a = 64] by auto

lemma mset_mid: "(a :: u64 multiset) + y = b + x \<Longrightarrow> a + f + y = b + f + x"
  by (metis union_assoc union_commute)

lemma arena_write_root:
  assumes ok: "ladder_slots_ok cr" and a: "arena cr owner s T fl xs"
    and rep: "\<And>t. t' = Some t \<Longrightarrow> repr (cb_read_node cr s owner) t \<and> crit_ok t"
    and m: "mset (hs t') + mset ys = mset (hs (T side)) + mset xs"
  shows "arena cr owner (write_root cr owner side (root_of t') s) (T(side := t')) fl ys"
proof -
  have wf: "st_wf s" using a by (simp add: arena_def)
  obtain s' where s': "set_link cr owner side Root (root_of t') s = Some s'" "st_wf s'"
      "cb_read_node cr s' owner = cb_read_node cr s owner"
      "\<And>o'. read_root cr s' owner o' = (if o' = side then root_of t' else read_root cr s owner o')"
      "read_u64 s' owner (single_slot cr FREELIST_DOMAIN) = read_u64 s owner (single_slot cr FREELIST_DOMAIN)"
      "arena_counter cr owner s' = arena_counter cr owner s"
    using set_link_effect [OF ok wf, of Root owner side "root_of t'"] by (auto simp: relink_def)
  have "arena cr owner s' (T(side := t')) fl ys"
  proof (rule arena_rebuild [OF a s'(2)])
    show "mset (hs t') + mset fl + mset ys = mset (hs (T side)) + mset fl + mset xs"
      by (rule mset_mid [OF m])
    show "read_root cr s' owner side = root_of t'" "read_root cr s' owner (other side) = read_root cr s owner (other side)"
      using s'(4) by simp_all
    show "repr (cb_read_node cr s' owner) t \<and> crit_ok t" if "t' = Some t" for t
      using rep [OF that] s'(3) by simp
    show "free_chain (cb_read_node cr s' owner) (read_u64 s' owner (single_slot cr FREELIST_DOMAIN)) fl"
      using a s'(3,5) by (simp add: arena_def)
  qed (simp_all add: s'(3,6))
  moreover have "write_root cr owner side (root_of t') s = s'" using s'(1) by (simp add: set_link_def)
  ultimately show ?thesis by simp
qed

lemma insert_empty:
  assumes ok: "ladder_slots_ok cr" and a: "arena cr (market_book_id cr m) s T fl []" and room: "arena_room cr m s"
    and n: "T side = None"
  shows "\<exists>s' t fl'. cb_insert cr m side key s = Some s' \<and> arena cr (market_book_id cr m) s' (T(side := Some t)) fl' []
    \<and> keys t = {key}"
proof -
  let ?o = "market_book_id cr m"
  obtain s1 h where al: "alloc cr ?o s = (s1, h)" by (cases "alloc cr ?o s")
  have "arena_counter cr ?o s \<noteq> - 1" using room by (intro not_max) (simp add: arena_room_def)
  from arena_alloc [OF ok a this al] obtain fl' where a1: "arena cr ?o s1 T fl' [h]" by blast
  let ?s2 = "cb_write_node cr ?o h (Leaf key) s1"
  have wf1: "st_wf s1" using a1 by (simp add: arena_def)
  have a2: "arena cr ?o ?s2 T fl' [h]" by (rule arena_write [OF ok a1]) simp
  have "arena cr ?o (write_root cr ?o side (root_of (Some (Lf h key))) ?s2) (T(side := Some (Lf h key))) fl' []"
    by (rule arena_write_root [OF ok a2]) (simp_all add: n read_write_node [OF wf1 ok])
  moreover have "cb_insert cr m side key s = Some (write_root cr ?o side h ?s2)"
    using a n al by (simp add: cb_insert_def Let_def arena_def)
  ultimately show ?thesis by auto
qed

lemma relinked_arena:
  assumes ok: "ladder_slots_ok cr" and a: "arena cr owner s T fl xs" and t: "T side = Some t"
    and l: "lk = Root \<or> (\<exists>p d c x y. lk = Child p d \<and> p \<in> set (handles t) \<and> cb_read_node cr s owner p = Inner c x y)"
    and root: "th t' = (if lk = Root then v else th t)"
    and rep: "repr (relink lk v (cb_read_node cr s owner)) t'" "crit_ok t'"
    and m: "mset (handles t') + mset ys = mset (handles t) + mset xs"
  shows "\<exists>s'. set_link cr owner side lk v s = Some s' \<and> arena cr owner s' (T(side := Some t')) fl ys"
proof -
  have wf: "st_wf s" using a by (simp add: arena_def)
  have dist: "distinct (hs (T Buy) @ hs (T Sell) @ fl @ xs)" using a by (simp add: arena_def)
  have l': "lk = Root \<or> (\<exists>p d c x y. lk = Child p d \<and> cb_read_node cr s owner p = Inner c x y)" using l by blast
  obtain s' where s': "set_link cr owner side lk v s = Some s'" "st_wf s'"
      "cb_read_node cr s' owner = relink lk v (cb_read_node cr s owner)"
      "\<And>o'. read_root cr s' owner o' = (if lk = Root \<and> o' = side then v else read_root cr s owner o')"
      "read_u64 s' owner (single_slot cr FREELIST_DOMAIN) = read_u64 s owner (single_slot cr FREELIST_DOMAIN)"
      "arena_counter cr owner s' = arena_counter cr owner s"
    using set_link_effect [OF ok wf l', of side v] by blast
  have same: "cb_read_node cr s' owner h = cb_read_node cr s owner h" if "h \<notin> set (handles t)" for h
    unfolding s'(3) using l that by (intro relink_other) auto
  have out: "h \<notin> set (handles t)" if "h \<in> set (hs (T (other side))) \<or> h \<in> set fl" for h
    using dist that t by (cases side) (auto simp: other_def)
  have "arena cr owner s' (T(side := Some t')) fl ys"
  proof (rule arena_rebuild [OF a s'(2)])
    show "read_root cr s' owner side = root_of (Some t')"
      using s'(4) root a t by (auto simp: arena_def)
    show "read_root cr s' owner (other side) = read_root cr s owner (other side)" using s'(4) by simp
    show "\<And>t. Some t' = Some t \<Longrightarrow> repr (cb_read_node cr s' owner) t \<and> crit_ok t" using rep s'(3) by simp
    show "\<And>h. h \<in> set (hs (T (other side))) \<Longrightarrow> cb_read_node cr s' owner h = cb_read_node cr s owner h"
      using same out by blast
    have "free_chain (cb_read_node cr s' owner) n fl = free_chain (cb_read_node cr s owner) n fl" for n
      using same out by (intro free_chain_cong) blast
    then show "free_chain (cb_read_node cr s' owner) (read_u64 s' owner (single_slot cr FREELIST_DOMAIN)) fl"
      using a s'(5) by (simp add: arena_def)
    show "arena_counter cr owner s' = arena_counter cr owner s" by (rule s'(6))
    show "mset (hs (Some t')) + mset fl + mset ys = mset (hs (T side)) + mset fl + mset xs"
      using mset_mid [OF m] t by simp
  qed
  with s'(1) show ?thesis by blast
qed

lemma insert_present:
  assumes ok: "ladder_slots_ok cr" and a: "arena cr (market_book_id cr m) s T fl []" and room: "arena_room cr m s"
    and t: "T side = Some t" and new: "t_walk key t \<noteq> key"
  shows "\<exists>s' t' fl'. cb_insert cr m side key s = Some s' \<and> arena cr (market_book_id cr m) s' (T(side := Some t')) fl' []
    \<and> keys t' = insert key (keys t)"
proof -
  let ?o = "market_book_id cr m" and ?rd = "cb_read_node cr s (market_book_id cr m)"
  note d = arenaD [OF a]
  have rep: "repr ?rd t" "crit_ok t" "distinct (handles t)" using d(3,4,5) t by auto
  define cb where "cb = highest_bit (key XOR t_walk key t)"
  have bits: "unat cb < 64" "bit key (unat cb) \<noteq> bit (t_walk key t) (unat cb)" "agree_above (unat cb) key (t_walk key t)"
    using highest_bit_xor [of key "t_walk key t"] new by (auto simp: cb_def)
  obtain lk cur where de: "t_desc key cb Root t = (lk, cur)" by (cases "t_desc key cb Root t")
  obtain s1 nl where al1: "alloc cr ?o s = (s1, nl)" by (cases "alloc cr ?o s")
  have c0: "arena_counter cr ?o s \<noteq> - 1" using room by (intro not_max) (simp add: arena_room_def)
  obtain fl1 where a1: "arena cr ?o s1 T fl1 [nl]" using arena_alloc(1) [OF ok a c0 al1] by blast
  note e1 = arena_alloc(2,3,4) [OF ok a c0 al1]
  let ?s2 = "cb_write_node cr ?o nl (Leaf key) s1"
  have wf1: "st_wf s1" using a1 by (simp add: arena_def)
  have a2: "arena cr ?o ?s2 T fl1 [nl]" by (rule arena_write [OF ok a1]) simp
  have cnt2: "arena_counter cr ?o ?s2 = arena_counter cr ?o s1"
    unfolding arena_counter_def by (subst read_u64_node [OF wf1]) (simp_all add: slots_distinct [OF ok])
  obtain s3 ni where al2: "alloc cr ?o ?s2 = (s3, ni)" by (cases "alloc cr ?o ?s2")
  have c2: "arena_counter cr ?o ?s2 \<noteq> - 1"
    using room e1(2) cnt2 by (intro not_max) (simp add: arena_room_def)
  obtain fl2 where a3: "arena cr ?o s3 T fl2 [ni, nl]" using arena_alloc(1) [OF ok a2 c2 al2] by blast
  note e2 = arena_alloc(2) [OF ok a2 c2 al2]
  let ?n = "if dir key cb = 0 then Inner cb nl cur else Inner cb cur nl"
  let ?s4 = "cb_write_node cr ?o ni ?n s3"
  have wf3: "st_wf s3" and wf2: "st_wf ?s2" using a3 a2 by (simp_all add: arena_def)
  have a4: "arena cr ?o ?s4 T fl2 [ni, nl]" by (rule arena_write [OF ok a3]) simp
  have fresh: "nl \<notin> set (handles t)" "ni \<notin> set (handles t)" "nl \<noteq> ni"
    using a3 t by (cases side; auto simp: arena_def)+
  have rd4: "cb_read_node cr ?s4 ?o = (?rd(nl := Leaf key))(ni := ?n)"
    by (simp add: read_write_node [OF wf3 ok] e2 read_write_node [OF wf1 ok] e1(1))
  have dir: "dir key cb = (if bit key (unat cb) then 1 else 0)" by (rule dir_bit [OF bits(1)])
  have rep4: "repr (cb_read_node cr ?s4 ?o) t"
  proof -
    have "repr (cb_read_node cr ?s4 ?o) t = repr ?rd t" unfolding rd4 using fresh by (intro repr_cong) auto
    then show ?thesis using rep(1) by simp
  qed
  let ?t = "t_ins key cb nl ni t"
  have ins: "lk = Root \<and> th ?t = ni \<and> repr (cb_read_node cr ?s4 ?o) ?t
    \<or> (\<exists>p d c l r. lk = Child p d \<and> p \<in> set (handles t) \<and> cb_read_node cr ?s4 ?o p = Inner c l r
        \<and> th ?t = th t \<and> repr (relink lk ni (cb_read_node cr ?s4 ?o)) ?t)"
  proof (rule ins_repr [OF rep4 rep(3) fresh _ de])
    show "cb_read_node cr ?s4 ?o nl = Leaf key"
        "cb_read_node cr ?s4 ?o ni = (if bit key (unat cb) then Inner cb cur nl else Inner cb nl cur)"
      unfolding rd4 using fresh(3) dir by simp_all
  qed
  have "crit_ok ?t" by (rule ins_ok [OF rep(2) refl new bits])
  moreover have "mset (handles ?t) + mset [] = mset (handles t) + mset [ni, nl]"
    by (simp add: handles_ins add_mset_commute)
  ultimately have "\<exists>s'. set_link cr ?o side lk ni ?s4 = Some s' \<and> arena cr ?o s' (T(side := Some ?t)) fl2 []"
    using ins by (intro relinked_arena [OF ok a4 t]) (auto simp: relink_def)
  then obtain s' where s': "set_link cr ?o side lk ni ?s4 = Some s'" "arena cr ?o s' (T(side := Some ?t)) fl2 []" by blast
  have r: "read_root cr s ?o side = th t" "th t \<noteq> 0" using d(2) [of side] d(6) [OF t th_handles] t by simp_all
  have "cb_insert cr m side key s = Some s'"
    using s'(1) new walk_repr [OF rep(1,2)] descend_repr [OF rep(1,2), of key cb Root] de al1 al2
    by (simp add: cb_insert_def Let_def r cb_def [symmetric])
  then show ?thesis using s'(2) by auto
qed

lemma free_effect:
  assumes ok: "ladder_slots_ok cr" and wf: "st_wf s"
  shows "st_wf (cb_free cr owner h s)"
    and "cb_read_node cr (cb_free cr owner h s) owner =
      (cb_read_node cr s owner)(h := Leaf (read_u64 s owner (single_slot cr FREELIST_DOMAIN)))"
    and "read_u64 (cb_free cr owner h s) owner (single_slot cr FREELIST_DOMAIN) = h"
    and "read_root cr (cb_free cr owner h s) owner side = read_root cr s owner side"
    and "arena_counter cr owner (cb_free cr owner h s) = arena_counter cr owner s"
proof -
  let ?f = "read_u64 s owner (single_slot cr FREELIST_DOMAIN)"
  let ?s1 = "write_raw_node cr owner h TAG_FREE 0 ?f 0 s"
  have wf1: "st_wf ?s1" using wf by simp
  have s: "cb_free cr owner h s = write_u64 owner (single_slot cr FREELIST_DOMAIN) h ?s1"
    by (simp add: cb_free_def Let_def)
  note sd = slots_distinct [OF ok]
  show "st_wf (cb_free cr owner h s)" using wf by (simp add: s)
  show "cb_read_node cr (cb_free cr owner h s) owner = (cb_read_node cr s owner)(h := Leaf ?f)"
    unfolding s by (subst read_node_write_u64 [OF wf1])
      (simp_all add: sd read_raw_node [OF wf ok] TAG_FREE_def TAG_INNER_def)
  have "read_u64 ?s1 owner slot = read_u64 s owner slot" if "slot \<noteq> node_slot cr h" for slot
    by (rule read_u64_raw_node [OF wf that])
  then show "read_u64 (cb_free cr owner h s) owner (single_slot cr FREELIST_DOMAIN) = h"
    "read_root cr (cb_free cr owner h s) owner side = read_root cr s owner side"
    "arena_counter cr owner (cb_free cr owner h s) = arena_counter cr owner s"
    by (simp_all add: s read_write_u64 [OF wf1] sd read_root_def arena_counter_def)
qed

lemma relink_upd:
  assumes "\<And>d. lk \<noteq> Child p d"
  shows "relink lk v (rd(p := n)) = (relink lk v rd)(p := n)"
  using assms by (auto simp: relink_def fun_eq_iff split: link.splits cb_node.splits)

lemma root_write_zero: "write_root cr owner side 0 s = the (set_link cr owner side Root 0 s)"
  by (simp add: set_link_def)

lemma remove_leaf:
  assumes ok: "ladder_slots_ok cr" and a: "arena cr (market_book_id cr m) s T fl []" and t: "T side = Some (Lf p key)"
  shows "\<exists>s'. cb_remove cr m side key s = Some s' \<and> arena cr (market_book_id cr m) s' (T(side := None)) (p # fl) []"
proof -
  let ?o = "market_book_id cr m" and ?rd = "cb_read_node cr s (market_book_id cr m)"
  note d = arenaD [OF a]
  let ?s1 = "cb_free cr ?o p s"
  note f = free_effect [OF ok d(1), of ?o p]
  have "Root = Root \<or> (\<exists>p d c x y. Root = Child p d \<and> cb_read_node cr ?s1 ?o p = Inner c x y)" by simp
  from set_link_effect [OF ok f(1) this, of side 0] obtain s' where s0:
      "set_link cr ?o side Root 0 ?s1 = Some s'" "st_wf s'"
      "cb_read_node cr s' ?o = relink Root 0 (cb_read_node cr ?s1 ?o)"
      "\<forall>o'. read_root cr s' ?o o' = (if Root = Root \<and> o' = side then 0 else read_root cr ?s1 ?o o')"
      "read_u64 s' ?o (single_slot cr FREELIST_DOMAIN) = read_u64 ?s1 ?o (single_slot cr FREELIST_DOMAIN)"
      "arena_counter cr ?o s' = arena_counter cr ?o ?s1"
    by blast
  have s': "cb_read_node cr s' ?o = ?rd(p := Leaf (read_u64 s ?o (single_slot cr FREELIST_DOMAIN)))"
      "\<And>o'. read_root cr s' ?o o' = (if o' = side then 0 else read_root cr s ?o o')"
      "read_u64 s' ?o (single_slot cr FREELIST_DOMAIN) = p"
      "arena_counter cr ?o s' = arena_counter cr ?o s"
    using s0(3-6) f(2-5) by (simp_all add: relink_def)
  have dist: "distinct (hs (T Buy) @ hs (T Sell) @ fl @ [])" using a unfolding arena_def by blast
  have "arena cr ?o s' (T(side := None)) (p # fl) []"
  proof (rule arena_rebuild [OF a s0(2)])
    have "free_chain (cb_read_node cr s' ?o) n fl = free_chain ?rd n fl" for n
      unfolding s'(1) using dist t by (intro free_chain_cong) (cases side; auto)
    then show "free_chain (cb_read_node cr s' ?o) (read_u64 s' ?o (single_slot cr FREELIST_DOMAIN)) (p # fl)"
      using a s'(1,3) by (simp add: arena_def)
    show "cb_read_node cr s' ?o h = ?rd h" if "h \<in> set (hs (T (other side)))" for h
      unfolding s'(1) using dist t that by (cases side) (auto simp: other_def)
    show "read_root cr s' ?o side = root_of None" "read_root cr s' ?o (other side) = read_root cr s ?o (other side)"
      using s'(2) by simp_all
    show "arena_counter cr ?o s' = arena_counter cr ?o s" by (rule s'(4))
    show "mset (hs None) + mset (p # fl) + mset [] = mset (hs (T side)) + mset fl + mset []" using t by simp
  qed simp
  moreover have "cb_remove cr m side key s = Some s'"
    using d(2) [of side] d(6) [OF t, of p] t s0(1) find_repr [OF d(3,4) [OF t], of key Root None]
    by (simp add: cb_remove_def Let_def root_write_zero)
  ultimately show ?thesis by blast
qed

lemma remove_inner:
  assumes ok: "ladder_slots_ok cr" and a: "arena cr (market_book_id cr m) s T fl []" and t: "T side = Some t"
    and k: "key \<in> keys t" and lf: "\<not> is_lf t"
  shows "\<exists>s' fl'. cb_remove cr m side key s = Some s'
    \<and> arena cr (market_book_id cr m) s' (T(side := Some (t_del key t))) fl' []"
proof -
  let ?o = "market_book_id cr m" and ?rd = "cb_read_node cr s (market_book_id cr m)" and ?t = "t_del key t"
  note d = arenaD [OF a]
  note dt = d(3,4,5) [OF t]
  obtain p lq q qd c x y where f: "t_find key Root None t = Some (p, Some (lq, q, qd))" and q: "?rd q = Inner c x y"
      and m: "mset (handles t) = mset (handles ?t) + {#p, q#}"
      and alt: "lq = Root \<and> th ?t = (if qd = 0 then y else x) \<and> repr ?rd ?t
       \<or> (\<exists>h d c' x' y'. lq = Child h d \<and> h \<in> set (handles ?t) \<and> ?rd h = Inner c' x' y'
           \<and> th ?t = th t \<and> repr (relink lq (if qd = 0 then y else x) ?rd) ?t)"
    using del_repr [OF dt(1,3,2) k lf, of Root None] by blast
  let ?v = "if qd = 0 then y else x" and ?fh = "read_u64 s ?o (single_slot cr FREELIST_DOMAIN)"
  have dist: "distinct (hs (T Buy) @ hs (T Sell) @ fl @ [])" using a unfolding arena_def by blast
  have "distinct (handles ?t @ [p, q])"
    using mset_eq_imp_distinct_iff [of "handles t" "handles ?t @ [p, q]"] m dt(3) by simp
  then have pq: "p \<noteq> q" "p \<notin> set (handles ?t)" "q \<notin> set (handles ?t)" by auto
  have sub: "set (handles t) = set (handles ?t) \<union> {p, q}"
    using arg_cong [OF m, of set_mset] by auto
  have out: "h \<notin> set (handles t)" if "h \<in> set (hs (T (other side))) \<or> h \<in> set fl" for h
    using dist that t by (cases side) (auto simp: other_def)
  have par: "lq = Root \<or> (\<exists>h e c' x' y'. lq = Child h e \<and> h \<in> set (handles ?t) \<and> ?rd h = Inner c' x' y')"
    using alt by blast
  have lq: "lq \<noteq> Child h e" if "h \<notin> set (handles ?t)" for h e using par that by auto
  have "relink Root ?v ?rd = ?rd" by (simp add: relink_def)
  then have rep: "repr (relink lq ?v ?rd) ?t" using alt by metis
  have root: "th ?t = (if lq = Root then ?v else th t)" using alt by force
  let ?s1 = "cb_free cr ?o p s"
  note f1 = free_effect [OF ok d(1), of ?o p]
  have link1: "lq = Root \<or> (\<exists>h d c x y. lq = Child h d \<and> cb_read_node cr ?s1 ?o h = Inner c x y)"
    using par
  proof (elim disjE exE conjE)
    fix h e c' x' y' assume "lq = Child h e" "h \<in> set (handles ?t)" "?rd h = Inner c' x' y'"
    then show ?thesis using pq(2) by (auto simp: f1(2))
  qed simp
  obtain s2 where s0: "set_link cr ?o side lq ?v ?s1 = Some s2" "st_wf s2"
      "cb_read_node cr s2 ?o = relink lq ?v (cb_read_node cr ?s1 ?o)"
      "\<forall>o'. read_root cr s2 ?o o' = (if lq = Root \<and> o' = side then ?v else read_root cr ?s1 ?o o')"
      "read_u64 s2 ?o (single_slot cr FREELIST_DOMAIN) = read_u64 ?s1 ?o (single_slot cr FREELIST_DOMAIN)"
      "arena_counter cr ?o s2 = arena_counter cr ?o ?s1"
    using set_link_effect [OF ok f1(1) link1, of side ?v] by blast
  have s2: "cb_read_node cr s2 ?o = (relink lq ?v ?rd)(p := Leaf ?fh)"
      "\<And>o'. read_root cr s2 ?o o' = (if lq = Root \<and> o' = side then ?v else read_root cr s ?o o')"
      "read_u64 s2 ?o (single_slot cr FREELIST_DOMAIN) = p"
      "arena_counter cr ?o s2 = arena_counter cr ?o s"
    using s0(3-6) f1(2-5) relink_upd [OF lq [OF pq(2)]] by simp_all
  let ?s3 = "cb_free cr ?o q s2"
  note f3 = free_effect [OF ok s0(2), of ?o q]
  have rd3: "cb_read_node cr ?s3 ?o = (relink lq ?v ?rd)(p := Leaf ?fh, q := Leaf p)"
    using f3(2) s2(1,3) by simp
  have same: "cb_read_node cr ?s3 ?o h = ?rd h" if "h \<notin> set (handles t)" for h
    unfolding rd3 using that sub relink_other [OF lq, of h] by simp
  have ar: "arena cr ?o ?s3 (T(side := Some ?t)) (q # p # fl) []"
  proof (rule arena_rebuild [OF a f3(1)])
    show "read_root cr ?s3 ?o side = root_of (Some ?t)"
      using f3(4) s2(2) [of side] root d(2) [of side] t by simp
    show "read_root cr ?s3 ?o (other side) = read_root cr s ?o (other side)" using f3(4) s2(2) by simp
    have "repr (cb_read_node cr ?s3 ?o) ?t = repr (relink lq ?v ?rd) ?t"
      unfolding rd3 using pq by (intro repr_cong) auto
    then show "\<And>u. Some ?t = Some u \<Longrightarrow> repr (cb_read_node cr ?s3 ?o) u \<and> crit_ok u"
      using rep del_ok [OF dt(2) k lf] by simp
    show "\<And>h. h \<in> set (hs (T (other side))) \<Longrightarrow> cb_read_node cr ?s3 ?o h = ?rd h" using same out by blast
    have "free_chain (cb_read_node cr ?s3 ?o) n fl = free_chain ?rd n fl" for n
      using same out by (intro free_chain_cong) blast
    moreover have "free_chain ?rd ?fh fl" using a by (simp add: arena_def)
    ultimately show "free_chain (cb_read_node cr ?s3 ?o) (read_u64 ?s3 ?o (single_slot cr FREELIST_DOMAIN)) (q # p # fl)"
      using f3(3) pq(1) by (simp add: rd3)
    show "arena_counter cr ?o ?s3 = arena_counter cr ?o s" using f3(5) s2(4) by simp
    show "mset (hs (Some ?t)) + mset (q # p # fl) + mset [] = mset (hs (T side)) + mset fl + mset []"
      using m t by simp
  qed
  have "cb_read_node cr ?s1 ?o q = Inner c x y" using f1(2) q pq(1) by simp
  moreover have "read_root cr s ?o side = th t" "th t \<noteq> 0" using d(2) [of side] d(6) [OF t th_handles] t by simp_all
  ultimately have "cb_remove cr m side key s = Some ?s3"
    using s0(1) f find_repr [OF dt(1,2), of key Root None] by (simp add: cb_remove_def Let_def)
  with ar show ?thesis by blast
qed

section \<open>The ladder as a set of prices\<close>

definition ladder :: "crypto \<Rightarrow> market_id \<Rightarrow> state_tree \<Rightarrow> (order_side \<Rightarrow> u64 set) \<Rightarrow> bool" where
  "ladder cr m s K \<longleftrightarrow> ladder_slots_ok cr
    \<and> (\<exists>T fl. arena cr (market_book_id cr m) s T fl [] \<and> K = (\<lambda>side. keyset (T side)))"

lemma ladderI: "ladder_slots_ok cr \<Longrightarrow> arena cr (market_book_id cr m) s T fl [] \<Longrightarrow> ladder cr m s (\<lambda>side. keyset (T side))"
  by (auto simp: ladder_def)

lemma ladder_updI:
  assumes "ladder_slots_ok cr" and "arena cr (market_book_id cr m) s (T(side := t)) fl []"
    and "keyset t = X"
  shows "ladder cr m s ((\<lambda>o'. keyset (T o'))(side := X))"
proof -
  have "(\<lambda>o'. keyset (T o'))(side := X) = (\<lambda>o'. keyset ((T(side := t)) o'))"
    using assms(3) by (intro ext) simp
  then show ?thesis using ladderI [OF assms(1,2)] by simp
qed

lemma ladder_insert:
  assumes "ladder cr m s K" and room: "arena_room cr m s"
  shows "\<exists>s'. cb_insert cr m side key s = Some s' \<and> ladder cr m s' (K(side := insert key (K side)))"
proof -
  obtain T fl where ok: "ladder_slots_ok cr" and a: "arena cr (market_book_id cr m) s T fl []"
      and K: "K = (\<lambda>side. keyset (T side))"
    using assms by (auto simp: ladder_def)
  show ?thesis
  proof (cases "T side")
    case None
    from insert_empty [OF ok a room None, of key] obtain s' t fl' where
        "cb_insert cr m side key s = Some s'" "keys t = {key}"
        "arena cr (market_book_id cr m) s' (T(side := Some t)) fl' []" by blast
    then show ?thesis using None ladder_updI [OF ok] by (simp add: K)
  next
    case (Some t)
    note d = arenaD [OF a]
    show ?thesis
    proof (cases "t_walk key t = key")
      case True
      then have "insert key (keys t) = keys t" using t_walk_keys [of key t] by auto
      moreover have "cb_insert cr m side key s = Some s"
        using True d(2) [of side] d(6) [OF Some th_handles] Some walk_repr [OF d(3,4) [OF Some], of key]
        by (simp add: cb_insert_def Let_def)
      ultimately show ?thesis
        using assms(1) Some by (simp add: K fun_upd_idem)
    next
      case False
      from insert_present [OF ok a room Some False] obtain s' t' fl' where
          "cb_insert cr m side key s = Some s'" "arena cr (market_book_id cr m) s' (T(side := Some t')) fl' []"
          "keys t' = insert key (keys t)" by blast
      then show ?thesis using Some ladder_updI [OF ok] by (simp add: K)
    qed
  qed
qed

lemma ladder_remove:
  assumes "ladder cr m s K"
  shows "\<exists>s'. cb_remove cr m side key s = Some s' \<and> ladder cr m s' (K(side := K side - {key}))"
proof -
  obtain T fl where ok: "ladder_slots_ok cr" and a: "arena cr (market_book_id cr m) s T fl []"
      and K: "K = (\<lambda>side. keyset (T side))"
    using assms by (auto simp: ladder_def)
  have keep: ?thesis if "cb_remove cr m side key s = Some s" "key \<notin> K side"
    using that assms by auto
  show ?thesis
  proof (cases "T side")
    case None
    then show ?thesis using keep arenaD(2) [OF a, of side] by (simp add: cb_remove_def K)
  next
    case (Some t)
    note d = arenaD [OF a]
    show ?thesis
    proof (cases "key \<in> keys t")
      case False
      then have "t_find key Root None t = None" using find_none [OF d(4) [OF Some]] by simp
      then have "cb_remove cr m side key s = Some s"
        using d(2) [of side] d(6) [OF Some th_handles] Some find_repr [OF d(3,4) [OF Some], of key Root None]
        by (simp add: cb_remove_def Let_def)
      then show ?thesis using keep False Some by (simp add: K)
    next
      case key: True
      show ?thesis
      proof (cases "is_lf t")
        case True
        then obtain p where "t = Lf p key" using key by (auto elim: is_lfE)
        with Some remove_leaf [OF ok a, of side p key] obtain s' fl' where
            "cb_remove cr m side key s = Some s'"
            "arena cr (market_book_id cr m) s' (T(side := None)) fl' []" by blast
        then show ?thesis using Some \<open>t = _\<close> ladder_updI [OF ok] by (simp add: K)
      next
        case False
        from remove_inner [OF ok a Some key False] obtain s' fl' where
            "cb_remove cr m side key s = Some s'"
            "arena cr (market_book_id cr m) s' (T(side := Some (t_del key t))) fl' []" by blast
        then show ?thesis
          using Some keys_del [OF d(4) [OF Some] key False] ladder_updI [OF ok] by (simp add: K)
      qed
    qed
  qed
qed

lemma ladder_extremes:
  assumes "ladder cr m s K"
  shows "cb_min cr s m side = Some (if K side = {} then None else Some (Min (K side)))"
    and "cb_max cr s m side = Some (if K side = {} then None else Some (Max (K side)))"
    and "finite (K side)"
proof -
  obtain T fl where a: "arena cr (market_book_id cr m) s T fl []" and K: "K = (\<lambda>side. keyset (T side))"
    using assms by (auto simp: ladder_def)
  note d = arenaD [OF a]
  have "cb_min cr s m side = Some (if K side = {} then None else Some (Min (K side)))
    \<and> cb_max cr s m side = Some (if K side = {} then None else Some (Max (K side))) \<and> finite (K side)"
  proof (cases "T side")
    case None
    then show ?thesis using d(2) [of side] by (simp add: cb_min_def cb_max_def cb_extreme_def K)
  next
    case (Some t)
    then show ?thesis
      using d(2) [of side] d(6) [OF Some th_handles] extreme_repr [OF d(3) [OF Some]]
        t_extreme_min [OF d(4) [OF Some]] t_extreme_max [OF d(4) [OF Some]]
      by (simp add: cb_min_def cb_max_def cb_extreme_def Let_def K)
  qed
  then show "cb_min cr s m side = Some (if K side = {} then None else Some (Min (K side)))"
    "cb_max cr s m side = Some (if K side = {} then None else Some (Max (K side)))" "finite (K side)" by blast+
qed

lemma ladder_empty:
  assumes "ladder_slots_ok cr" and "st_wf s" and "\<And>k. st_get_storage s (market_book_id cr m) k = 0"
  shows "ladder cr m s (\<lambda>_. {})"
proof -
  have "arena cr (market_book_id cr m) s (\<lambda>_. None) [] []"
    using assms by (simp add: arena_def read_root_def)
  from ladderI [OF assms(1) this] show ?thesis by simp
qed

section \<open>What the ladder leaves alone\<close>

text \<open>Only slots of the ladder, in the account of the market, are written.\<close>

definition ladder_slots :: "crypto \<Rightarrow> hash32 set" where
  "ladder_slots cr = sha256 cr ` ladder_preimages"

definition ladder_frame :: "crypto \<Rightarrow> account_id \<Rightarrow> state_tree \<Rightarrow> state_tree \<Rightarrow> bool" where
  "ladder_frame cr owner s s' \<longleftrightarrow> (st_wf s \<longrightarrow> st_wf s')
    \<and> (\<exists>m. s' = s\<lparr>contract_storage := m\<rparr>)
    \<and> (st_wf s \<longrightarrow> (\<forall>i k. i \<noteq> owner \<or> k \<notin> ladder_slots cr \<longrightarrow> st_get_storage s' i k = st_get_storage s i k))"

lemma frame_refl: "ladder_frame cr owner s s"
  by (auto simp: ladder_frame_def intro!: exI [of _ "contract_storage s"])

lemma frame_trans: "ladder_frame cr owner s s1 \<Longrightarrow> ladder_frame cr owner s1 s2 \<Longrightarrow> ladder_frame cr owner s s2"
  unfolding ladder_frame_def by fastforce

lemma frame_set: "k \<in> ladder_slots cr \<Longrightarrow> ladder_frame cr owner s (st_set_storage owner k v s)"
  by (auto simp: ladder_frame_def st_get_set_storage) (simp add: st_set_storage_def Let_def, blast)

lemma ladder_slots_members [simp]:
  "node_slot cr h \<in> ladder_slots cr" "root_slot cr side \<in> ladder_slots cr"
  "single_slot cr ALLOC_DOMAIN \<in> ladder_slots cr" "single_slot cr FREELIST_DOMAIN \<in> ladder_slots cr"
  by (cases side; simp add: ladder_slots_def ladder_preimages_def node_slot_def root_slot_def
      single_slot_def cb_domain_slot_def)+

lemma frame_writes:
  "ladder_frame cr owner s (cb_write_node cr owner h n s)"
  "ladder_frame cr owner s (write_root cr owner side h s)"
  "ladder_frame cr owner s (fst (alloc cr owner s))"
  "ladder_frame cr owner s (cb_free cr owner h s)"
proof -
  show "ladder_frame cr owner s (cb_write_node cr owner h n s)"
    by (cases n) (simp_all add: cb_write_node.simps write_raw_node_def frame_set)
  show "ladder_frame cr owner s (write_root cr owner side h s)"
    by (simp add: write_root_def write_u64_def frame_set)
  show "ladder_frame cr owner s (fst (alloc cr owner s))"
    by (simp add: alloc_def write_u64_def frame_set Let_def)
  show "ladder_frame cr owner s (cb_free cr owner h s)"
    unfolding cb_free_def Let_def write_u64_def write_raw_node_def
    by (rule frame_trans [OF frame_set frame_set]) simp_all
qed

lemma frame_link: "set_link cr owner side lk v s = Some s' \<Longrightarrow> ladder_frame cr owner s s'"
  by (auto simp: set_link_def frame_writes split: link.splits cb_node.splits)

lemmas frame_after = frame_trans [OF _ frame_writes(1)] frame_trans [OF _ frame_writes(2)] frame_trans [OF _ frame_writes(4)]

lemmas frame_before = frame_trans [OF frame_writes(1)] frame_trans [OF frame_writes(2)] frame_trans [OF frame_writes(4)]

lemma frame_alloc: "alloc cr owner s = (s', h) \<Longrightarrow> ladder_frame cr owner s s'"
  using frame_writes(3) [of cr owner s] by simp

lemma frame_insert:
  assumes "cb_insert cr m side key s = Some s'"
  shows "ladder_frame cr (market_book_id cr m) s s'"
  using assms unfolding cb_insert_def Let_def
  by (auto split: if_splits option.splits prod.splits intro!: frame_refl frame_after
      dest!: frame_alloc frame_link frame_before intro: frame_trans)

lemma frame_remove:
  assumes "cb_remove cr m side key s = Some s'"
  shows "ladder_frame cr (market_book_id cr m) s s'"
  using assms unfolding cb_remove_def Let_def
  by (auto split: if_splits option.splits prod.splits cb_node.splits intro!: frame_refl frame_after
      dest!: frame_alloc frame_link frame_before intro: frame_trans)

section \<open>The contract of a price index\<close>

text \<open>What the order book relies on: a set of prices per side, with its extremes.\<close>

locale price_index =
  fixes inv :: "'s \<Rightarrow> (order_side \<Rightarrow> u64 set) \<Rightarrow> bool"
    and room :: "'s \<Rightarrow> bool"
    and ins :: "order_side \<Rightarrow> u64 \<Rightarrow> 's \<Rightarrow> 's option"
    and del :: "order_side \<Rightarrow> u64 \<Rightarrow> 's \<Rightarrow> 's option"
    and lo :: "order_side \<Rightarrow> 's \<Rightarrow> u64 option option"
    and hi :: "order_side \<Rightarrow> 's \<Rightarrow> u64 option option"
  assumes ins_set: "inv s K \<Longrightarrow> room s \<Longrightarrow> \<exists>s'. ins side p s = Some s' \<and> inv s' (K(side := insert p (K side)))"
    and del_set: "inv s K \<Longrightarrow> \<exists>s'. del side p s = Some s' \<and> inv s' (K(side := K side - {p}))"
    and lo_set: "inv s K \<Longrightarrow> lo side s = Some (if K side = {} then None else Some (Min (K side)))"
    and hi_set: "inv s K \<Longrightarrow> hi side s = Some (if K side = {} then None else Some (Max (K side)))"
begin

lemma lo_best: "inv s K \<Longrightarrow> lo side s = Some (Some p) \<longleftrightarrow> p \<in> K side \<and> (\<forall>q \<in> K side. p \<le> q)"
  using lo_set [of s K side] Min_eq_iff [of "K side" p]
  by auto

lemma hi_best: "inv s K \<Longrightarrow> hi side s = Some (Some p) \<longleftrightarrow> p \<in> K side \<and> (\<forall>q \<in> K side. q \<le> p)"
  using hi_set [of s K side] Max_eq_iff [of "K side" p]
  by auto

lemma none_left: "inv s K \<Longrightarrow> lo side s = Some None \<longleftrightarrow> K side = {}" "inv s K \<Longrightarrow> hi side s = Some None \<longleftrightarrow> K side = {}"
  using lo_set [of s K side] hi_set [of s K side] by auto

lemma del_ins:
  assumes "inv s K" and "room s" and "p \<notin> K side"
  shows "\<exists>s1 s2. ins side p s = Some s1 \<and> del side p s1 = Some s2 \<and> inv s2 K"
proof -
  obtain s1 where s1: "ins side p s = Some s1" "inv s1 (K(side := insert p (K side)))"
    using ins_set [OF assms(1,2)] by blast
  from del_set [OF this(2), of side p] obtain s2 where
      "del side p s1 = Some s2" "inv s2 (K(side := insert p (K side) - {p}))" by auto
  moreover have "K(side := insert p (K side) - {p}) = K" using assms(3) by (simp add: fun_upd_idem)
  ultimately show ?thesis using s1(1) by auto
qed

end

interpretation pl: price_index "ladder cr m" "arena_room cr m" "cb_insert cr m" "cb_remove cr m"
    "\<lambda>side s. cb_min cr s m side" "\<lambda>side s. cb_max cr s m side" for cr m
  by unfold_locales (simp_all only: ladder_insert ladder_remove ladder_extremes)

section \<open>Properties\<close>

definition short_crypto :: crypto where
  "short_crypto = sample_crypto_len\<lparr>sha256 := short_hash\<rparr>"

lemma short_slots_ok: "ladder_slots_ok short_crypto"
  unfolding ladder_slots_ok_def short_crypto_def
  by (auto simp: ladder_preimages_def ladder_domains intro!: inj_onI dest!: short_hash_inj [rotated 2])

lemma st_new_storage [simp]: "st_get_storage st_new i k = 0"
  by (simp add: st_get_storage_def st_new_def)

lemma short_ladder: "ladder short_crypto m st_new (\<lambda>_. {})" "arena_room short_crypto m st_new"
  by (auto intro!: ladder_empty short_slots_ok simp: arena_room_def arena_counter_def)

text \<open>C9: The price ladder kept in contract storage behaves as a set of prices per side.  On a
  well-formed ladder with room for two nodes, an insertion and a removal return (no panic and no endless
  descent), give the set with the price added or removed on that side, keep the other side, and
  write no slot outside the ladder; the best bid and ask are the largest and smallest price, or
  nothing on an empty side.\<close>

theorem price_ladder_refines_sets:
  assumes "ladder cr m s K" and "arena_room cr m s"
  shows "(\<exists>s'. cb_insert cr m side p s = Some s' \<and> ladder cr m s' (K(side := insert p (K side)))
      \<and> ladder_frame cr (market_book_id cr m) s s')
    \<and> (\<exists>s'. cb_remove cr m side p s = Some s' \<and> ladder cr m s' (K(side := K side - {p}))
      \<and> ladder_frame cr (market_book_id cr m) s s')
    \<and> cb_min cr s m side = Some (if K side = {} then None else Some (Min (K side)))
    \<and> cb_max cr s m side = Some (if K side = {} then None else Some (Max (K side)))"
  using pl.ins_set [OF assms, of side p] pl.del_set [OF assms(1), of side p]
    pl.lo_set [OF assms(1), of side] pl.hi_set [OF assms(1), of side] frame_insert frame_remove
  by blast

theorem price_ladder_refines_sets_witness:
  "\<exists>s. cb_insert short_crypto 3 Sell 9 st_new = Some s
    \<and> ladder short_crypto 3 s ((\<lambda>_. {})(Sell := {9}))
    \<and> cb_min short_crypto st_new 3 Sell = Some None"
  using price_ladder_refines_sets [OF short_ladder, of 3 Sell 9] by auto

end
