(* ===== verification/Finality.thy ===== *)
theory Finality
  imports Validator_Set
begin

text \<open>
  Finality of a block, after \<open>ace-runtime/src/consensus/finality.rs\<close>, \<open>types/finality.rs\<close> and
  \<open>consensus/timeout.rs\<close>: the state machine that takes a block from its votes to a proof or to a
  rollback, the two windows for the proof, and the count of validators that hold the witness.

  The proof system is a parameter: \<open>fv_certificate\<close> and \<open>fv_for_block\<close> are the two methods of the
  trait \<open>ProofVerifier\<close> that the machine calls, over an arbitrary type of blocks.
\<close>

section \<open>Certificates and states\<close>

datatype proof_mode = StarkV1

record finality_certificate =
  fc_block_hash :: hash32
  fc_slot :: u64
  fc_proof :: bytes
  fc_id_com_commitment :: hash32
  fc_proof_mode :: proof_mode
  fc_statement_root :: hash32
  fc_tx_count :: u32

definition fc_well_formed :: "finality_certificate \<Rightarrow> bool" where
  "fc_well_formed fc = (case fc_proof_mode fc of StarkV1 \<Rightarrow> fc_proof fc \<noteq> [])"

datatype finality_state = Pending | Soft | BackupWait | Hard | RolledBack

fun is_terminal :: "finality_state \<Rightarrow> bool" where
  "is_terminal Hard = True"
| "is_terminal RolledBack = True"
| "is_terminal _ = False"

fun is_confirmed :: "finality_state \<Rightarrow> bool" where
  "is_confirmed Soft = True"
| "is_confirmed BackupWait = True"
| "is_confirmed Hard = True"
| "is_confirmed _ = False"

record 'b fc_verifier =
  fv_certificate :: "finality_certificate \<Rightarrow> bool"
  fv_for_block :: "finality_certificate \<Rightarrow> 'b \<Rightarrow> bool"

section \<open>The state machine\<close>

datatype finality_event =
    BlockReceived u64 u64 hash32
  | FinalityCertReceived finality_certificate
  | BuilderTimeout
  | BackupTimeout

datatype finality_action = NoAction | SlashBuilder | RequeueTxs | SlashAndRequeue

record fsm =
  fsm_state :: finality_state
  fsm_slot :: u64
  fsm_slashed :: bool
  fsm_expected :: "hash32 option"
  fsm_invalid_seen :: bool

definition fsm_new :: "u64 \<Rightarrow> fsm" where
  "fsm_new slot = \<lparr>fsm_state = Pending, fsm_slot = slot, fsm_slashed = False,
     fsm_expected = None, fsm_invalid_seen = False\<rparr>"

definition on_block_received :: "u64 \<Rightarrow> u64 \<Rightarrow> hash32 \<Rightarrow> fsm \<Rightarrow> fsm \<times> finality_action" where
  "on_block_received votes total_stake block_hash f =
    (if fsm_state f \<noteq> Pending then (f, NoAction)
     else if has_quorum votes total_stake
     then (f\<lparr>fsm_state := Soft, fsm_expected := Some block_hash\<rparr>, NoAction)
     else (f, NoAction))"

definition fc_valid :: "'b fc_verifier \<Rightarrow> finality_certificate \<Rightarrow> 'b option \<Rightarrow> fsm \<Rightarrow> bool" where
  "fc_valid pv fc block f \<longleftrightarrow>
     fc_slot fc = fsm_slot f \<and> fsm_expected f = Some (fc_block_hash fc)
     \<and> (case block of Some b \<Rightarrow> fv_for_block pv fc b | None \<Rightarrow> fv_certificate pv fc)"

definition on_finality_cert_received ::
    "'b fc_verifier \<Rightarrow> finality_certificate \<Rightarrow> 'b option \<Rightarrow> fsm \<Rightarrow> fsm \<times> finality_action" where
  "on_finality_cert_received pv fc block f =
    (case fsm_state f of
       Soft \<Rightarrow> (if fc_valid pv fc block f then (f\<lparr>fsm_state := Hard\<rparr>, NoAction)
                else (f\<lparr>fsm_invalid_seen := True\<rparr>, NoAction))
     | BackupWait \<Rightarrow> (if fc_valid pv fc block f then (f\<lparr>fsm_state := Hard\<rparr>, NoAction) else (f, NoAction))
     | _ \<Rightarrow> (f, NoAction))"

definition on_builder_timeout :: "fsm \<Rightarrow> fsm \<times> finality_action" where
  "on_builder_timeout f =
    (if fsm_state f \<noteq> Soft then (f, NoAction)
     else let f = f\<lparr>fsm_state := BackupWait\<rparr>
       in if \<not> fsm_slashed f then (f\<lparr>fsm_slashed := True\<rparr>, SlashBuilder) else (f, NoAction))"

definition on_backup_timeout :: "fsm \<Rightarrow> fsm \<times> finality_action" where
  "on_backup_timeout f =
    (if fsm_state f \<noteq> BackupWait then (f, NoAction)
     else (f\<lparr>fsm_state := RolledBack\<rparr>, RequeueTxs))"

definition fsm_on_event :: "'b fc_verifier \<Rightarrow> finality_event \<Rightarrow> fsm \<Rightarrow> fsm \<times> finality_action" where
  "fsm_on_event pv ev f =
    (if is_terminal (fsm_state f) then (f, NoAction)
     else case ev of
       BlockReceived votes total_stake block_hash \<Rightarrow> on_block_received votes total_stake block_hash f
     | FinalityCertReceived fc \<Rightarrow> on_finality_cert_received pv fc None f
     | BuilderTimeout \<Rightarrow> on_builder_timeout f
     | BackupTimeout \<Rightarrow> on_backup_timeout f)"

definition on_finality_certificate ::
    "'b fc_verifier \<Rightarrow> finality_certificate \<Rightarrow> 'b option \<Rightarrow> fsm \<Rightarrow> fsm \<times> finality_action" where
  "on_finality_certificate pv fc block f = on_finality_cert_received pv fc block f"

section \<open>Proof windows\<close>

definition K_BUILDER_SLOTS :: u64 where "K_BUILDER_SLOTS = 3"
definition K_BACKUP_SLOTS :: u64 where "K_BACKUP_SLOTS = 3"

datatype timeout_phase = BuilderWindow | BackupWindow | Expired | Resolved

record timeout_protocol =
  tp_block_slot :: u64
  tp_resolved :: bool

definition tp_new :: "u64 \<Rightarrow> timeout_protocol" where
  "tp_new slot = \<lparr>tp_block_slot = slot, tp_resolved = False\<rparr>"

definition tp_resolve :: "timeout_protocol \<Rightarrow> timeout_protocol" where
  "tp_resolve t = t\<lparr>tp_resolved := True\<rparr>"

definition tp_phase :: "timeout_protocol \<Rightarrow> u64 \<Rightarrow> timeout_phase" where
  "tp_phase t current_slot =
    (if tp_resolved t then Resolved
     else let elapsed = saturating_sub current_slot (tp_block_slot t)
       in if elapsed \<le> K_BUILDER_SLOTS then BuilderWindow
          else if elapsed \<le> K_BUILDER_SLOTS + K_BACKUP_SLOTS then BackupWindow
          else Expired)"

definition builder_deadline :: "timeout_protocol \<Rightarrow> u64" where
  "builder_deadline t = tp_block_slot t + K_BUILDER_SLOTS"

definition backup_deadline :: "timeout_protocol \<Rightarrow> u64" where
  "backup_deadline t = tp_block_slot t + K_BUILDER_SLOTS + K_BACKUP_SLOTS"

definition is_builder_expired :: "timeout_protocol \<Rightarrow> u64 \<Rightarrow> bool" where
  "is_builder_expired t current_slot \<longleftrightarrow> \<not> tp_resolved t \<and> current_slot > tp_block_slot t + K_BUILDER_SLOTS"

definition is_fully_expired :: "timeout_protocol \<Rightarrow> u64 \<Rightarrow> bool" where
  "is_fully_expired t current_slot \<longleftrightarrow>
     \<not> tp_resolved t \<and> current_slot > tp_block_slot t + K_BUILDER_SLOTS + K_BACKUP_SLOTS"

section \<open>Witness availability\<close>

record witness_availability =
  wa_received :: "(u64, u64) hmap"
  wa_total_validators :: u64
  wa_valid_validators :: "(u64, u64) hmap option"

definition wa_new :: "u64 \<Rightarrow> witness_availability" where
  "wa_new n = \<lparr>wa_received = [], wa_total_validators = n, wa_valid_validators = None\<rparr>"

definition wa_new_with_validator_set :: "u64 \<Rightarrow> (u64, u64) hmap \<Rightarrow> witness_availability" where
  "wa_new_with_validator_set n vs =
    \<lparr>wa_received = [], wa_total_validators = n, wa_valid_validators = Some vs\<rparr>"

definition record_receipt :: "u64 \<Rightarrow> witness_availability \<Rightarrow> witness_availability \<times> bool" where
  "record_receipt v wa =
    (if map_of (wa_received wa) v \<noteq> None then (wa, False)
     else case wa_valid_validators wa of
       Some vs \<Rightarrow>
         (case map_of vs v of
            Some s \<Rightarrow> (wa\<lparr>wa_received := hm_insert v s (wa_received wa)\<rparr>, True)
          | None \<Rightarrow> (wa, False))
     | None \<Rightarrow> (wa\<lparr>wa_received := hm_insert v 1 (wa_received wa)\<rparr>, True))"

definition received_stake :: "witness_availability \<Rightarrow> u64" where
  "received_stake wa = word_sum (map snd (wa_received wa))"

definition is_available :: "witness_availability \<Rightarrow> bool" where
  "is_available wa \<longleftrightarrow>
     (ucast (received_stake wa) :: u128) * 3 \<ge> 2 * (ucast (wa_total_validators wa) :: u128)"

section \<open>What the machine guarantees\<close>

text \<open>A run from the initial state, with the inputs and the actions in order. A certificate may
  come as an event or together with its block.\<close>

datatype 'b fsm_input = Event finality_event | Certificate finality_certificate "'b option"

fun fsm_input_step :: "'b fc_verifier \<Rightarrow> 'b fsm_input \<Rightarrow> fsm \<Rightarrow> fsm \<times> finality_action" where
  "fsm_input_step pv (Event ev) f = fsm_on_event pv ev f"
| "fsm_input_step pv (Certificate fc block) f = on_finality_certificate pv fc block f"

inductive fsm_run :: "'b fc_verifier \<Rightarrow> u64 \<Rightarrow> 'b fsm_input list \<Rightarrow> finality_action list \<Rightarrow> fsm \<Rightarrow> bool"
  for pv slot where
  fsm_start: "fsm_run pv slot [] [] (fsm_new slot)"
| fsm_next: "fsm_run pv slot ins acts f \<Longrightarrow> fsm_input_step pv i f = (f', a) \<Longrightarrow>
    fsm_run pv slot (ins @ [i]) (acts @ [a]) f'"

inductive_cases fsm_runE: "fsm_run pv slot ins acts f"

lemmas fsm_defs = fsm_on_event_def on_finality_certificate_def on_finality_cert_received_def
  on_block_received_def on_builder_timeout_def on_backup_timeout_def Let_def

definition soft_voted :: "'b fsm_input list \<Rightarrow> fsm \<Rightarrow> bool" where
  "soft_voted ins f \<longleftrightarrow>
    (\<exists>v t h. Event (BlockReceived v t h) \<in> set ins \<and> has_quorum v t \<and> fsm_expected f = Some h)"

fun certified_by :: "'b fc_verifier \<Rightarrow> fsm \<Rightarrow> 'b fsm_input \<Rightarrow> bool" where
  "certified_by pv f (Event (FinalityCertReceived fc)) = fc_valid pv fc None f"
| "certified_by pv f (Certificate fc block) = fc_valid pv fc block f"
| "certified_by pv f _ = False"

definition fsm_inv :: "'b fc_verifier \<Rightarrow> 'b fsm_input list \<Rightarrow> finality_action list \<Rightarrow> fsm \<Rightarrow> bool" where
  "fsm_inv pv ins acts f \<longleftrightarrow>
    (fsm_state f \<noteq> Pending \<longrightarrow> soft_voted ins f)
    \<and> (fsm_state f = Hard \<longrightarrow> (\<exists>i \<in> set ins. certified_by pv f i))
    \<and> count_list acts SlashBuilder = (if fsm_slashed f then 1 else 0)
    \<and> (fsm_state f \<in> {Pending, Soft} \<longrightarrow> \<not> fsm_slashed f)
    \<and> (fsm_state f \<in> {BackupWait, RolledBack} \<longrightarrow> fsm_slashed f)
    \<and> count_list acts RequeueTxs = (if fsm_state f = RolledBack then 1 else 0)
    \<and> SlashAndRequeue \<notin> set acts"

lemma certified_by_cong:
  "fsm_slot f' = fsm_slot f \<Longrightarrow> fsm_expected f' = fsm_expected f \<Longrightarrow> certified_by pv f' i = certified_by pv f i"
  by (cases "(pv, f, i)" rule: certified_by.cases) (auto simp: fc_valid_def)

lemma fsm_step_cases:
  assumes "fsm_input_step pv i f = (f', a)"
  obtains (keep) b where "f' = f\<lparr>fsm_invalid_seen := b\<rparr>" "a = NoAction"
  | (vote) v t h where "i = Event (BlockReceived v t h)" "has_quorum v t" "fsm_state f = Pending"
      "f' = f\<lparr>fsm_state := Soft, fsm_expected := Some h\<rparr>" "a = NoAction"
  | (cert) "fsm_state f \<in> {Soft, BackupWait}" "f' = f\<lparr>fsm_state := Hard\<rparr>" "certified_by pv f i" "a = NoAction"
  | (slash) "fsm_state f = Soft" "f' = f\<lparr>fsm_state := BackupWait, fsm_slashed := True\<rparr>"
      "a = (if fsm_slashed f then NoAction else SlashBuilder)"
  | (rollback) "fsm_state f = BackupWait" "f' = f\<lparr>fsm_state := RolledBack\<rparr>" "a = RequeueTxs"
proof -
  have same: thesis if "f' = f" and "a = NoAction"
    using that keep [of "fsm_invalid_seen f"] by simp
  have certs: thesis if "on_finality_cert_received pv fc block f = (f', a)"
      and "fc_valid pv fc block f \<Longrightarrow> certified_by pv f i" for fc block
    using that same keep [of True] cert
    by (auto simp: on_finality_cert_received_def split: finality_state.splits if_splits)
  show thesis
  proof (cases i)
    case (Certificate fc block)
    then show thesis using assms certs [of fc block] by (simp add: on_finality_certificate_def)
  next
    case (Event ev)
    show thesis
    proof (cases "is_terminal (fsm_state f)")
      case True
      then show thesis using assms Event same by (simp add: fsm_on_event_def)
    next
      case False
      note st = assms [unfolded Event fsm_input_step.simps fsm_on_event_def]
      show thesis
      proof (cases ev)
        case (BlockReceived v t h)
        then show thesis using st False Event same vote
          by (auto simp: on_block_received_def split: if_splits)
      next
        case (FinalityCertReceived fc)
        then show thesis using st False Event certs [of fc None] by simp
      next
        case BuilderTimeout
        then show thesis using st False same slash
          by (cases "fsm_slashed f") (auto simp: on_builder_timeout_def Let_def split: if_splits)
      next
        case BackupTimeout
        then show thesis using st False same rollback
          by (auto simp: on_backup_timeout_def split: if_splits)
      qed
    qed
  qed
qed

lemma fsm_step_inv:
  assumes inv: "fsm_inv pv ins acts f" and "fsm_input_step pv i f = (f', a)"
  shows "fsm_inv pv (ins @ [i]) (acts @ [a]) f'"
  using assms(2)
proof (cases rule: fsm_step_cases)
  case (keep b)
  then show ?thesis
    using inv certified_by_cong [of f' f pv] by (auto simp: fsm_inv_def soft_voted_def)
next
  case (vote v t h)
  then show ?thesis using inv by (auto simp: fsm_inv_def soft_voted_def)
next
  case cert
  then show ?thesis
    using inv certified_by_cong [of f' f pv] by (auto simp: fsm_inv_def soft_voted_def)
next
  case slash
  then show ?thesis using inv by (auto simp: fsm_inv_def soft_voted_def)
next
  case rollback
  then show ?thesis using inv by (auto simp: fsm_inv_def soft_voted_def)
qed

lemma fsm_step_slot: "fsm_input_step pv i f = (f', a) \<Longrightarrow> fsm_slot f' = fsm_slot f"
  by (erule fsm_step_cases) auto

lemma fsm_run_inv: "fsm_run pv slot ins acts f \<Longrightarrow> fsm_inv pv ins acts f \<and> fsm_slot f = slot"
proof (induction rule: fsm_run.induct)
  case fsm_start
  then show ?case by (simp add: fsm_inv_def fsm_new_def)
next
  case (fsm_next ins acts f i f' a)
  then show ?case using fsm_step_inv fsm_step_slot by fastforce
qed

lemma terminal_absorbs:
  "is_terminal (fsm_state f) \<Longrightarrow> fsm_input_step pv i f = (f, NoAction)"
  by (cases i; cases "fsm_state f")
     (simp_all add: fsm_on_event_def on_finality_certificate_def on_finality_cert_received_def)

section \<open>Windows and witnesses\<close>

text \<open>The window a block is in and the two expiry tests agree while the deadlines do not wrap.\<close>

lemma windows_agree:
  assumes "unat (tp_block_slot t) + 6 < 2 ^ 64"
  shows "is_builder_expired t c \<longleftrightarrow> tp_phase t c \<in> {BackupWindow, Expired}"
    and "is_fully_expired t c \<longleftrightarrow> tp_phase t c = Expired"
proof -
  have k: "unat (tp_block_slot t + 3) = unat (tp_block_slot t) + 3"
    "unat (tp_block_slot t + 3 + 3) = unat (tp_block_slot t) + 6"
    using assms by (simp_all add: unat_word_ariths)
  have e: "(3 :: u64) + 3 = 6" by simp
  show "is_builder_expired t c \<longleftrightarrow> tp_phase t c \<in> {BackupWindow, Expired}"
    unfolding is_builder_expired_def tp_phase_def K_BUILDER_SLOTS_def K_BACKUP_SLOTS_def Let_def e
    by (simp add: word_less_nat_alt word_le_nat_alt k(1) unat_saturating_sub) linarith
  show "is_fully_expired t c \<longleftrightarrow> tp_phase t c = Expired"
    unfolding is_fully_expired_def tp_phase_def K_BUILDER_SLOTS_def K_BACKUP_SLOTS_def Let_def
    unfolding word_less_nat_alt word_le_nat_alt k(2) e unat_saturating_sub
    by simp linarith
qed

text \<open>A validator counts once and only with its own stake.\<close>

definition wa_ok :: "witness_availability \<Rightarrow> bool" where
  "wa_ok wa \<longleftrightarrow> hm_wf (wa_received wa)
    \<and> (\<forall>vs v s. wa_valid_validators wa = Some vs \<longrightarrow> map_of (wa_received wa) v = Some s \<longrightarrow> map_of vs v = Some s)"

lemma record_receipt_ok:
  assumes "wa_ok wa" and "record_receipt v wa = (wa', b)"
  shows "wa_ok wa'"
    and "b \<longleftrightarrow> map_of (wa_received wa) v = None
      \<and> (\<forall>vs. wa_valid_validators wa = Some vs \<longrightarrow> map_of vs v \<noteq> None)"
  using assms
  by (auto simp: record_receipt_def wa_ok_def split: if_splits option.splits)

lemma available_quorum:
  assumes "nat_sum (map snd (wa_received wa)) < 2 ^ 64"
  shows "is_available wa \<longleftrightarrow> 2 * unat (wa_total_validators wa) \<le> 3 * nat_sum (map snd (wa_received wa))"
proof -
  have s: "unat (received_stake wa) = nat_sum (map snd (wa_received wa))"
    using assms by (simp add: received_stake_def unat_word_sum)
  have v: "unat ((ucast (received_stake wa) :: u128) * 3) = unat (received_stake wa) * 3"
    using unat_lt [of "received_stake wa"] by (subst unat_mult_no_wrap) (simp_all add: unat_ucast_u128)
  have t: "unat (2 * (ucast (wa_total_validators wa) :: u128)) = 2 * unat (wa_total_validators wa)"
    using unat_lt [of "wa_total_validators wa"] by (subst unat_mult_no_wrap) (simp_all add: unat_ucast_u128)
  show ?thesis unfolding is_available_def word_le_nat_alt v t s by auto
qed

section \<open>Properties\<close>

text \<open>C11: Finality of a block. In every run of the machine of a block: a block that is hard-final was
  voted for by two thirds of the stake and has a certificate for exactly this slot and this block hash
  that the proof system accepts; a rolled-back block was voted for, its builder is slashed and its
  transactions are requeued exactly once; the builder is slashed at most once, never before a
  timeout of a soft block; and a decided block ignores every further input.\<close>

theorem finality_decided_by_proof:
  assumes "fsm_run pv slot ins acts f"
  shows "(fsm_state f = Hard \<longrightarrow>
      (\<exists>v t h. Event (BlockReceived v t h) \<in> set ins \<and> has_quorum v t
        \<and> (\<exists>fc block. fc_slot fc = slot \<and> fc_block_hash fc = h
          \<and> (Event (FinalityCertReceived fc) \<in> set ins \<and> fv_certificate pv fc
             \<or> Certificate fc block \<in> set ins
               \<and> (case block of Some b \<Rightarrow> fv_for_block pv fc b | None \<Rightarrow> fv_certificate pv fc)))))
    \<and> (fsm_state f = RolledBack \<longrightarrow> soft_voted ins f \<and> fsm_slashed f)
    \<and> count_list acts RequeueTxs = (if fsm_state f = RolledBack then 1 else 0)
    \<and> count_list acts SlashBuilder = (if fsm_slashed f then 1 else 0)
    \<and> (fsm_slashed f \<longrightarrow> fsm_state f \<in> {BackupWait, Hard, RolledBack})
    \<and> (is_terminal (fsm_state f) \<longrightarrow> (\<forall>i. fsm_input_step pv i f = (f, NoAction)))"
proof -
  have inv: "fsm_inv pv ins acts f" and slot: "fsm_slot f = slot" using fsm_run_inv [OF assms] by auto
  have hard: "\<exists>v t h. Event (BlockReceived v t h) \<in> set ins \<and> has_quorum v t
        \<and> (\<exists>fc block. fc_slot fc = slot \<and> fc_block_hash fc = h
          \<and> (Event (FinalityCertReceived fc) \<in> set ins \<and> fv_certificate pv fc
             \<or> Certificate fc block \<in> set ins
               \<and> (case block of Some b \<Rightarrow> fv_for_block pv fc b | None \<Rightarrow> fv_certificate pv fc)))"
    if h: "fsm_state f = Hard"
  proof -
    from inv h obtain v t hh where v: "Event (BlockReceived v t hh) \<in> set ins" "has_quorum v t"
      "fsm_expected f = Some hh" by (auto simp: fsm_inv_def soft_voted_def)
    from inv h obtain i where i: "i \<in> set ins" "certified_by pv f i" by (auto simp: fsm_inv_def)
    have "\<exists>fc block. fc_slot fc = slot \<and> fc_block_hash fc = hh
          \<and> (Event (FinalityCertReceived fc) \<in> set ins \<and> fv_certificate pv fc
             \<or> Certificate fc block \<in> set ins
               \<and> (case block of Some b \<Rightarrow> fv_for_block pv fc b | None \<Rightarrow> fv_certificate pv fc))"
      using i v(3) slot by (cases "(pv, f, i)" rule: certified_by.cases) (auto simp: fc_valid_def)
    then show ?thesis using v(1,2) by blast
  qed
  have "fsm_slashed f \<longrightarrow> fsm_state f \<in> {BackupWait, Hard, RolledBack}"
    using inv by (cases "fsm_state f") (auto simp: fsm_inv_def)
  then show ?thesis using hard inv terminal_absorbs [of f pv] by (auto simp: fsm_inv_def)
qed

definition demo_verifier :: "unit fc_verifier" where
  "demo_verifier = \<lparr>fv_certificate = (\<lambda>fc. fc_proof fc = [7]), fv_for_block = (\<lambda>fc _. False)\<rparr>"

definition demo_fc :: finality_certificate where
  "demo_fc = \<lparr>fc_block_hash = 9, fc_slot = 4, fc_proof = [7], fc_id_com_commitment = 0,
     fc_proof_mode = StarkV1, fc_statement_root = 0, fc_tx_count = 1\<rparr>"

lemma demo_fsm_run:
  "fsm_run demo_verifier 4 [Event (BlockReceived 2 3 9), Event BuilderTimeout, Event (FinalityCertReceived demo_fc)]
     [NoAction, SlashBuilder, NoAction]
     \<lparr>fsm_state = Hard, fsm_slot = 4, fsm_slashed = True, fsm_expected = Some 9, fsm_invalid_seen = False\<rparr>"
proof -
  have q: "has_quorum 2 3" by (simp add: has_quorum_iff)
  have a: "fsm_run demo_verifier 4 ([] @ [Event (BlockReceived 2 3 9)]) ([] @ [NoAction])
     \<lparr>fsm_state = Soft, fsm_slot = 4, fsm_slashed = False, fsm_expected = Some 9, fsm_invalid_seen = False\<rparr>"
    by (rule fsm_next [OF fsm_start]) (simp add: fsm_defs fsm_new_def q)
  have b: "fsm_run demo_verifier 4 (([] @ [Event (BlockReceived 2 3 9)]) @ [Event BuilderTimeout]) (([] @ [NoAction]) @ [SlashBuilder])
     \<lparr>fsm_state = BackupWait, fsm_slot = 4, fsm_slashed = True, fsm_expected = Some 9, fsm_invalid_seen = False\<rparr>"
    by (rule fsm_next [OF a]) (simp add: fsm_defs)
  have "fsm_run demo_verifier 4 ((([] @ [Event (BlockReceived 2 3 9)]) @ [Event BuilderTimeout]) @ [Event (FinalityCertReceived demo_fc)])
     ((([] @ [NoAction]) @ [SlashBuilder]) @ [NoAction])
     \<lparr>fsm_state = Hard, fsm_slot = 4, fsm_slashed = True, fsm_expected = Some 9, fsm_invalid_seen = False\<rparr>"
    by (rule fsm_next [OF b]) (simp add: fsm_defs fc_valid_def demo_fc_def demo_verifier_def)
  then show ?thesis by simp
qed

theorem finality_decided_by_proof_witness:
  "fsm_run demo_verifier 4 [Event (BlockReceived 2 3 9), Event BuilderTimeout, Event (FinalityCertReceived demo_fc)]
     [NoAction, SlashBuilder, NoAction]
     \<lparr>fsm_state = Hard, fsm_slot = 4, fsm_slashed = True, fsm_expected = Some 9, fsm_invalid_seen = False\<rparr>
   \<and> (\<exists>v t h. Event (BlockReceived v t h) \<in> set [Event (BlockReceived 2 3 9), Event BuilderTimeout, Event (FinalityCertReceived demo_fc) :: unit fsm_input]
        \<and> has_quorum v t)"
  using demo_fsm_run finality_decided_by_proof [OF demo_fsm_run] by (simp del: list.set) blast

end
