(* ===== verification/Committee.thy ===== *)
theory Committee
  imports Transactions State_Tree
begin

text \<open>
  Capability committees for raw Bitcoin and Solana transactions, after
  \<open>ace-node/src/capability.rs\<close>: the choice of a committee by hash, the collection of approvals
  and the check of a certificate.

  The interpretation of the foreign transaction itself (\<open>verify_raw_solana_transfer_for_slot\<close>
  and \<open>verify_raw_btc_against_state\<close>, which parse foreign formats with external libraries) is a
  parameter: it returns the identity of the sender and the canonical payload, or an error text.
\<close>

record raw_checks =
  rv_solana :: "state_tree \<Rightarrow> bytes \<Rightarrow> u32 \<Rightarrow> u64 \<Rightarrow> string + account_id \<times> bytes"
  rv_btc :: "state_tree \<Rightarrow> bytes \<Rightarrow> string + account_id \<times> bytes"

section \<open>Committees\<close>

definition COMMITTEE_SIZE :: nat where "COMMITTEE_SIZE = 5"

definition committee_digest :: "crypto \<Rightarrow> committee_domain \<Rightarrow> hash32 \<Rightarrow> validator \<Rightarrow> hash32" where
  "committee_digest cr d h v =
    sha256 cr (ascii ''ACE-COMMITTEE-V1'' @ [committee_tag d] @ bytes32 h @ bytes32 (v_id_com v))"

definition select_committee :: "crypto \<Rightarrow> validator_set \<Rightarrow> committee_domain \<Rightarrow> hash32 \<Rightarrow> validator list" where
  "select_committee cr vs d h =
    (let eligible = sort_key (committee_digest cr d h) (validators_for_domain vs d)
     in take (min COMMITTEE_SIZE (length eligible)) eligible)"

definition committee_threshold :: "nat \<Rightarrow> nat" where
  "committee_threshold n = (if n = 0 then 0 else if n = 1 then 1 else (2 * n + 2) div 3)"

definition on_committee :: "validator list \<Rightarrow> tagged_pubkey \<Rightarrow> bool" where
  "on_committee committee k = list_ex (\<lambda>v. v_signing_pubkey v = k) committee"

section \<open>Certificates\<close>

datatype committee_error =
    LocalInvalid string
  | MissingCertificate
  | DomainMismatch
  | TxHashMismatch
  | NoCommittee
  | ThresholdNotMet nat nat

definition raw_payload_error :: "transaction \<Rightarrow> string + account_id \<times> bytes \<Rightarrow> string \<Rightarrow> string \<Rightarrow> string option" where
  "raw_payload_error tx res bad_payload bad_sender =
    (case res of
       Inr (sender, payload) \<Rightarrow>
         if att_idcom (tx_attestation tx) = sender
         then (if tx_payload tx \<noteq> payload then Some bad_payload else None)
         else Some bad_sender
     | Inl e \<Rightarrow> Some e)"

definition local_validation_error :: "raw_checks \<Rightarrow> state_tree \<Rightarrow> transaction \<Rightarrow> string option" where
  "local_validation_error rv s tx =
    (case tx_raw_chain tx of
       None \<Rightarrow> None
     | Some r \<Rightarrow>
        (case rc_kind r of
           RawEvm \<Rightarrow> None
         | RawSolana \<Rightarrow>
             raw_payload_error tx
               (rv_solana rv s (rc_bytes r) (dom_chain_id (att_domain (tx_attestation tx)))
                  (ucast (dom_slot (att_domain (tx_attestation tx)))))
               ''solana raw payload does not match canonical reconstruction''
               ''solana attestation idcom does not match recovered signer''
         | RawBtc \<Rightarrow>
             raw_payload_error tx (rv_btc rv s (rc_bytes r))
               ''btc raw payload does not match canonical reconstruction''
               ''btc attestation idcom does not match recovered signer''
         | RawTron \<Rightarrow> None))"

fun count_approvals ::
    "crypto \<Rightarrow> validator list \<Rightarrow> bytes \<Rightarrow> tagged_pubkey list \<Rightarrow> committee_approval list \<Rightarrow> nat" where
  "count_approvals cr committee msg seen [] = 0"
| "count_approvals cr committee msg seen (a # as) =
    (if ca_signer a \<in> set seen then count_approvals cr committee msg seen as
     else let seen = ca_signer a # seen
       in if \<not> on_committee committee (ca_signer a) then count_approvals cr committee msg seen as
          else if verify_signature cr (ca_signer a) msg (ca_signature a)
          then Suc (count_approvals cr committee msg seen as)
          else count_approvals cr committee msg seen as)"

definition verify_certificate ::
    "crypto \<Rightarrow> raw_checks \<Rightarrow> transaction \<Rightarrow> state_tree \<Rightarrow> validator_set \<Rightarrow> committee_error + unit" where
  "verify_certificate cr rv tx s vs =
    (case tx_raw_chain tx of
       None \<Rightarrow> Inr ()
     | Some r \<Rightarrow>
        (case raw_kind_committee (rc_kind r) of
           None \<Rightarrow> Inr ()
         | Some d \<Rightarrow>
            (case local_validation_error rv s tx of
               Some e \<Rightarrow> Inl (LocalInvalid e)
             | None \<Rightarrow>
                (case rc_certificate r of
                   None \<Rightarrow> Inl MissingCertificate
                 | Some c \<Rightarrow>
                     let h = tx_hash cr tx
                     in if cert_domain c \<noteq> d then Inl DomainMismatch
                        else if cert_tx_hash c \<noteq> h then Inl TxHashMismatch
                        else let committee = select_committee cr vs d h
                          in if committee = [] then Inl NoCommittee
                             else let required = committee_threshold (length committee);
                                      valid = count_approvals cr committee
                                        (bytes32 (approval_signing_message cr d h)) [] (cert_approvals c)
                               in if valid < required then Inl (ThresholdNotMet valid required)
                                  else Inr ()))))"

section \<open>Approvals\<close>

record approval_message =
  am_domain :: committee_domain
  am_tx_hash :: hash32
  am_signer :: tagged_pubkey
  am_signature :: tagged_signature

definition verify_approval_message :: "crypto \<Rightarrow> approval_message \<Rightarrow> validator_set \<Rightarrow> bool" where
  "verify_approval_message cr m vs =
    (if \<not> on_committee (select_committee cr vs (am_domain m) (am_tx_hash m)) (am_signer m) then False
     else verify_signature cr (am_signer m)
       (bytes32 (approval_signing_message cr (am_domain m) (am_tx_hash m))) (am_signature m))"

text \<open>The signing key of the node is a parameter: its public key and its signing function.\<close>

definition sign_local_approval ::
    "crypto \<Rightarrow> raw_checks \<Rightarrow> transaction \<Rightarrow> state_tree \<Rightarrow> account_id \<Rightarrow> tagged_pubkey
      \<Rightarrow> (bytes \<Rightarrow> tagged_signature) \<Rightarrow> validator_set \<Rightarrow> approval_message option" where
  "sign_local_approval cr rv tx s local_id key sign vs =
    (case Option.bind (tx_raw_chain tx) (\<lambda>r. raw_kind_committee (rc_kind r)) of
       None \<Rightarrow> None
     | Some d \<Rightarrow>
        if local_validation_error rv s tx \<noteq> None then None
        else let h = tx_hash cr tx
          in if \<not> list_ex (\<lambda>v. v_id_com v = local_id) (select_committee cr vs d h) then None
             else Some \<lparr>am_domain = d, am_tx_hash = h, am_signer = key,
                        am_signature = sign (bytes32 (approval_signing_message cr d h))\<rparr>)"

type_synonym approval_collector = "(hash32, approval_message list) bmap"

definition add_verified ::
    "crypto \<Rightarrow> approval_message \<Rightarrow> validator_set \<Rightarrow> approval_collector \<Rightarrow> approval_collector \<times> bool" where
  "add_verified cr m vs ac =
    (if \<not> verify_approval_message cr m vs then (ac, False)
     else let entry = (case map_of ac (am_tx_hash m) of Some e \<Rightarrow> e | None \<Rightarrow> []);
              ac = bt_insert (am_tx_hash m) entry ac
       in if list_ex (\<lambda>e. am_signer e = am_signer m) entry then (ac, False)
          else (bt_insert (am_tx_hash m) (entry @ [m]) ac, True))"

definition ac_discard :: "hash32 \<Rightarrow> approval_collector \<Rightarrow> approval_collector" where
  "ac_discard h ac = bt_remove h ac"

definition prune_to_known :: "(hash32 \<Rightarrow> bool) \<Rightarrow> approval_collector \<Rightarrow> approval_collector" where
  "prune_to_known is_known ac = filter (\<lambda>(h, _). is_known h) ac"

definition build_certificate ::
    "crypto \<Rightarrow> raw_checks \<Rightarrow> transaction \<Rightarrow> state_tree \<Rightarrow> validator_set \<Rightarrow> approval_collector
      \<Rightarrow> committee_error + committee_certificate option" where
  "build_certificate cr rv tx s vs ac =
    (case Option.bind (tx_raw_chain tx) (\<lambda>r. raw_kind_committee (rc_kind r)) of
       None \<Rightarrow> Inr None
     | Some d \<Rightarrow>
        (case local_validation_error rv s tx of
           Some e \<Rightarrow> Inl (LocalInvalid e)
         | None \<Rightarrow>
            let h = tx_hash cr tx; committee = select_committee cr vs d h
            in if committee = [] then Inl NoCommittee
               else let approvals = map (\<lambda>m. \<lparr>ca_signer = am_signer m, ca_signature = am_signature m\<rparr>)
                          (filter (\<lambda>m. on_committee committee (am_signer m))
                            (filter (\<lambda>m. am_domain m = d)
                              (case map_of ac h of Some e \<Rightarrow> e | None \<Rightarrow> [])))
                 in if length approvals < committee_threshold (length committee) then Inr None
                    else Inr (Some \<lparr>cert_domain = d, cert_tx_hash = h, cert_approvals = approvals\<rparr>)))"

section \<open>What a certificate shows\<close>

lemma committee_threshold_two_thirds: "2 * n \<le> 3 * committee_threshold n"
  by (simp add: committee_threshold_def) linarith

lemma select_committee_members:
  "set (select_committee cr vs d h) \<subseteq> set (validators_for_domain vs d)"
  "length (select_committee cr vs d h) = min COMMITTEE_SIZE (length (validators_for_domain vs d))"
  using set_take_subset by (fastforce simp: select_committee_def Let_def) (simp add: select_committee_def Let_def)

definition approvers :: "crypto \<Rightarrow> validator list \<Rightarrow> bytes \<Rightarrow> committee_approval list \<Rightarrow> tagged_pubkey set" where
  "approvers cr committee msg as =
    {ca_signer a | a. a \<in> set as \<and> on_committee committee (ca_signer a)
       \<and> verify_signature cr (ca_signer a) msg (ca_signature a)}"

lemma approvers_finite [simp]: "finite (approvers cr committee msg as)"
  by (simp add: approvers_def)

lemma approvers_Cons:
  "approvers cr committee msg (a # as) =
    (if on_committee committee (ca_signer a) \<and> verify_signature cr (ca_signer a) msg (ca_signature a)
     then insert (ca_signer a) (approvers cr committee msg as) else approvers cr committee msg as)"
  by (auto simp: approvers_def)

lemma count_approvals_le:
  "count_approvals cr committee msg seen as \<le> card (approvers cr committee msg as - set seen)"
proof (induction as arbitrary: seen)
  case (Cons a as)
  let ?A = "approvers cr committee msg as"
  show ?case
  proof (cases "ca_signer a \<in> set seen")
    case True
    then have "approvers cr committee msg (a # as) - set seen = ?A - set seen" by (auto simp: approvers_Cons)
    then show ?thesis using True Cons [of seen] by simp
  next
    case False
    have IH: "count_approvals cr committee msg (ca_signer a # seen) as \<le> card (?A - set (ca_signer a # seen))"
      by (rule Cons)
    have sub: "?A - set (ca_signer a # seen) \<subseteq> approvers cr committee msg (a # as) - set seen - {ca_signer a}"
      by (auto simp: approvers_Cons)
    note le = card_mono [OF _ sub]
    show ?thesis
    proof (cases "on_committee committee (ca_signer a) \<and> verify_signature cr (ca_signer a) msg (ca_signature a)")
      case True
      then have "ca_signer a \<in> approvers cr committee msg (a # as) - set seen"
        using False by (simp add: approvers_Cons)
      then have "Suc (card (approvers cr committee msg (a # as) - set seen - {ca_signer a}))
          = card (approvers cr committee msg (a # as) - set seen)"
        by (simp add: card_Suc_Diff1 del: card_Diff_insert)
      then show ?thesis using False True IH le by (simp add: Let_def del: card_Diff_insert)
    next
      case no: False
      have "card (approvers cr committee msg (a # as) - set seen - {ca_signer a})
          \<le> card (approvers cr committee msg (a # as) - set seen)"
        by (rule card_mono) auto
      then show ?thesis using False no IH le by (auto simp: Let_def simp del: card_Diff_insert)
    qed
  qed
qed simp

lemma count_approvals_all:
  assumes "distinct (map ca_signer as)" and "\<forall>a \<in> set as. ca_signer a \<notin> set seen
    \<and> on_committee committee (ca_signer a) \<and> verify_signature cr (ca_signer a) msg (ca_signature a)"
  shows "count_approvals cr committee msg seen as = length as"
  using assms
proof (induction as arbitrary: seen)
  case (Cons a as)
  then have "count_approvals cr committee msg (ca_signer a # seen) as = length as"
    by (intro Cons.IH) (auto simp: image_iff)
  then show ?case using Cons.prems by (simp add: Let_def)
qed simp

lemma approving_members:
  "\<exists>M \<subseteq> set committee. card (approvers cr committee msg as) \<le> card M
    \<and> (\<forall>v \<in> M. \<exists>a \<in> set as. ca_signer a = v_signing_pubkey v
        \<and> verify_signature cr (v_signing_pubkey v) msg (ca_signature a))"
proof -
  let ?S = "approvers cr committee msg as"
  let ?M = "{v \<in> set committee. v_signing_pubkey v \<in> ?S}"
  have "?S \<subseteq> v_signing_pubkey ` ?M"
  proof
    fix k assume k: "k \<in> ?S"
    then obtain v where "v \<in> set committee" "v_signing_pubkey v = k"
      by (auto simp: approvers_def on_committee_def list_ex_iff)
    then show "k \<in> v_signing_pubkey ` ?M" using k by blast
  qed
  then have "card ?S \<le> card (v_signing_pubkey ` ?M)" by (intro card_mono) auto
  also have "\<dots> \<le> card ?M" by (rule card_image_le) simp
  finally have "card ?S \<le> card ?M" .
  moreover have "\<forall>v \<in> ?M. \<exists>a \<in> set as. ca_signer a = v_signing_pubkey v
        \<and> verify_signature cr (v_signing_pubkey v) msg (ca_signature a)"
    by (force simp: approvers_def)
  ultimately show ?thesis by (intro exI [of _ ?M]) auto
qed

section \<open>What a collector holds\<close>

inductive collected :: "crypto \<Rightarrow> approval_collector \<Rightarrow> bool" for cr where
  collected_empty: "collected cr []"
| collected_add: "collected cr ac \<Longrightarrow> collected cr (fst (add_verified cr m vs ac))"
| collected_discard: "collected cr ac \<Longrightarrow> collected cr (ac_discard h ac)"
| collected_prune: "collected cr ac \<Longrightarrow> collected cr (prune_to_known known ac)"

definition entry_ok :: "crypto \<Rightarrow> hash32 \<Rightarrow> approval_message list \<Rightarrow> bool" where
  "entry_ok cr h ms \<longleftrightarrow> distinct (map am_signer ms) \<and> (\<forall>m \<in> set ms. am_tx_hash m = h
    \<and> verify_signature cr (am_signer m) (bytes32 (approval_signing_message cr (am_domain m) h)) (am_signature m))"

lemma entry_ok_Nil [simp]: "entry_ok cr h []"
  by (simp add: entry_ok_def)

definition ac_ok :: "crypto \<Rightarrow> approval_collector \<Rightarrow> bool" where
  "ac_ok cr ac \<longleftrightarrow> bt_wf ac \<and> (\<forall>h ms. (h, ms) \<in> set ac \<longrightarrow> entry_ok cr h ms)"

lemma ac_ok_insert: "ac_ok cr ac \<Longrightarrow> entry_ok cr h ms \<Longrightarrow> ac_ok cr (bt_insert h ms ac)"
  by (auto simp: ac_ok_def dest: set_bt_insert_cases)

lemma ac_ok_entry: "ac_ok cr ac \<Longrightarrow> entry_ok cr h (case map_of ac h of Some e \<Rightarrow> e | None \<Rightarrow> [])"
  by (auto simp: ac_ok_def split: option.splits dest: map_of_SomeD)

lemma collected_ok: "collected cr ac \<Longrightarrow> ac_ok cr ac"
proof (induction rule: collected.induct)
  case (collected_add ac m vs)
  let ?h = "am_tx_hash m" and ?e = "case map_of ac (am_tx_hash m) of Some e \<Rightarrow> e | None \<Rightarrow> []"
  note e = ac_ok_entry [OF collected_add.IH, of ?h]
  note ok = ac_ok_insert [OF collected_add.IH e]
  have "entry_ok cr ?h (?e @ [m])"
    if "verify_approval_message cr m vs" "\<not> list_ex (\<lambda>e. am_signer e = am_signer m) ?e"
    using that e by (auto simp: entry_ok_def verify_approval_message_def list_ex_iff split: if_splits)
  then show ?case
    using collected_add.IH ok ac_ok_insert [OF ok] by (simp add: add_verified_def Let_def)
qed (auto simp: ac_ok_def ac_discard_def prune_to_known_def dest: set_bt_remove_sub)

lemma raw_payload_error_upd [simp]:
  "raw_payload_error (tx\<lparr>tx_raw_chain := x\<rparr>) res = raw_payload_error tx res"
  by (auto simp: raw_payload_error_def fun_eq_iff split: sum.splits)

lemma attach_keeps:
  "tx_hash cr (attach_committee_certificate c tx) = tx_hash cr tx"
  "local_validation_error rv s (attach_committee_certificate c tx) = local_validation_error rv s tx"
  by (auto simp: attach_committee_certificate_def tx_hash_def tx_preimage_def local_validation_error_def
      split: option.splits raw_chain_kind.splits)

section \<open>Properties\<close>

text \<open>C12: A raw Bitcoin or Solana transaction with an accepted committee certificate was approved by its
  committee: the certificate is for exactly this transaction, the local check of the foreign
  transaction passes, and at least two thirds of the committee (at most five capable validators,
  chosen by hash) signed the approval of this transaction with their keys; repeated, foreign or
  forged approvals do not count.\<close>

theorem certificate_needs_two_thirds:
  assumes "verify_certificate cr rv tx s vs = Inr ()"
    and "tx_raw_chain tx = Some r" and "raw_kind_committee (rc_kind r) = Some d"
  shows "local_validation_error rv s tx = None
    \<and> (\<exists>c M. rc_certificate r = Some c \<and> cert_domain c = d \<and> cert_tx_hash c = tx_hash cr tx
        \<and> M \<subseteq> set (select_committee cr vs d (tx_hash cr tx)) \<and> M \<subseteq> set (validators_for_domain vs d)
        \<and> M \<noteq> {} \<and> 2 * length (select_committee cr vs d (tx_hash cr tx)) \<le> 3 * card M
        \<and> (\<forall>v \<in> M. \<exists>a \<in> set (cert_approvals c). ca_signer a = v_signing_pubkey v
            \<and> verify_signature cr (v_signing_pubkey v)
                (bytes32 (approval_signing_message cr d (tx_hash cr tx))) (ca_signature a)))
    \<and> length (select_committee cr vs d (tx_hash cr tx)) = min 5 (length (validators_for_domain vs d))"
proof -
  let ?h = "tx_hash cr tx" and ?msg = "bytes32 (approval_signing_message cr d (tx_hash cr tx))"
  let ?cm = "select_committee cr vs d ?h"
  obtain c where c: "local_validation_error rv s tx = None" "rc_certificate r = Some c" "cert_domain c = d"
      "cert_tx_hash c = ?h" "?cm \<noteq> []"
      "committee_threshold (length ?cm) \<le> count_approvals cr ?cm ?msg [] (cert_approvals c)"
    using assms by (auto simp: verify_certificate_def Let_def not_less split: option.splits if_splits)
  obtain M where M: "M \<subseteq> set ?cm" "card (approvers cr ?cm ?msg (cert_approvals c)) \<le> card M"
      "\<forall>v \<in> M. \<exists>a \<in> set (cert_approvals c). ca_signer a = v_signing_pubkey v
        \<and> verify_signature cr (v_signing_pubkey v) ?msg (ca_signature a)"
    using approving_members [of ?cm cr ?msg "cert_approvals c"] by blast
  have "committee_threshold (length ?cm) \<le> card M"
    using c(6) count_approvals_le [of cr ?cm ?msg "[]" "cert_approvals c"] M(2) by simp
  then have two: "2 * length ?cm \<le> 3 * card M"
    using committee_threshold_two_thirds [of "length ?cm"] by linarith
  have "M \<noteq> {}" using two c(5) by auto
  moreover have "M \<subseteq> set (validators_for_domain vs d)"
    using M(1) select_committee_members(1) by blast
  ultimately show ?thesis
    using c M two select_committee_members(2) [of cr vs d ?h] unfolding COMMITTEE_SIZE_def by blast
qed

text \<open>C34: A certificate that a node builds from collected approvals is accepted: whatever approvals,
  under whatever validator sets, a collector received, discarded and pruned, the certificate it builds
  for a transaction passes the check of every node with the same state and validator set.\<close>

theorem built_certificate_accepted:
  assumes "collected cr ac" and "build_certificate cr rv tx s vs ac = Inr (Some c)"
  shows "verify_certificate cr rv (attach_committee_certificate c tx) s vs = Inr ()"
proof -
  let ?h = "tx_hash cr tx"
  let ?e = "case map_of ac ?h of Some e \<Rightarrow> e | None \<Rightarrow> []"
  let ?app = "\<lambda>m. \<lparr>ca_signer = am_signer m, ca_signature = am_signature m\<rparr>"
  obtain r d where r: "tx_raw_chain tx = Some r" "raw_kind_committee (rc_kind r) = Some d"
      "local_validation_error rv s tx = None" "select_committee cr vs d ?h \<noteq> []"
    and c: "c = \<lparr>cert_domain = d, cert_tx_hash = ?h,
        cert_approvals = map ?app (filter (\<lambda>m. on_committee (select_committee cr vs d ?h) (am_signer m))
          (filter (\<lambda>m. am_domain m = d) ?e))\<rparr>"
      "committee_threshold (length (select_committee cr vs d ?h)) \<le> length (cert_approvals c)"
    using assms(2)
    by (auto simp: build_certificate_def Let_def not_less split: option.splits if_splits Option.bind_splits)
  have "count_approvals cr (select_committee cr vs d ?h) (bytes32 (approval_signing_message cr d ?h)) []
      (cert_approvals c) = length (cert_approvals c)"
    using ac_ok_entry [OF collected_ok [OF assms(1)], of ?h]
    by (intro count_approvals_all) (auto simp: c(1) entry_ok_def comp_def distinct_map_filter)
  then show ?thesis
    using r c(2) attach_keeps [where c = c and tx = tx]
    by (simp add: verify_certificate_def attach_committee_certificate_def Let_def c(1))
qed

section \<open>A committee of one\<close>

definition sample_committee_crypto :: crypto where
  "sample_committee_crypto = sample_crypto_len\<lparr>sha256 := (\<lambda>_. 0), ed25519_key := (\<lambda>_. True),
     ed25519_verify_strict := (\<lambda>k m s. take 1 k = take 1 s)\<rparr>"

definition sample_checks :: raw_checks where
  "sample_checks = \<lparr>rv_solana = (\<lambda>_ _ _ _. Inl []), rv_btc = (\<lambda>_ raw. Inr (att_idcom sample_attestation, raw))\<rparr>"

definition sample_member :: validator where
  "sample_member = \<lparr>v_id_com = 1, v_stake = 10, v_index = 0,
     v_signing_pubkey = \<lparr>pk_alg = Ed25519, pk_bytes = 5 # replicate 31 0\<rparr>,
     v_capabilities = \<lparr>evm_core = True, btc_payments = True, solana_light = False\<rparr>\<rparr>"

definition sample_committee_set :: validator_set where
  "sample_committee_set = \<lparr>vs_validators = [sample_member], vs_total_stake = 10, vs_generation = 0\<rparr>"

definition sample_raw_tx :: transaction where
  "sample_raw_tx = tx_with_raw_chain [3] sample_attestation RawBtc [3]"

definition sample_approval :: approval_message where
  "sample_approval = \<lparr>am_domain = BtcPayments, am_tx_hash = 0, am_signer = v_signing_pubkey sample_member,
     am_signature = \<lparr>sig_alg = Ed25519, sig_bytes = 5 # replicate 63 0\<rparr>\<rparr>"

definition sample_cert :: committee_certificate where
  "sample_cert = \<lparr>cert_domain = BtcPayments, cert_tx_hash = 0,
     cert_approvals = [\<lparr>ca_signer = am_signer sample_approval, ca_signature = am_signature sample_approval\<rparr>]\<rparr>"

lemmas sample_committee_defs = sample_committee_crypto_def sample_checks_def sample_member_def
  sample_committee_set_def sample_raw_tx_def sample_approval_def sample_cert_def

lemma sample_raw_hash: "tx_hash sample_committee_crypto tx = 0"
  by (simp add: tx_hash_def sample_committee_crypto_def)

lemma sample_committee: "select_committee sample_committee_crypto sample_committee_set BtcPayments 0 = [sample_member]"
  by (simp add: select_committee_def COMMITTEE_SIZE_def validators_for_domain_def sample_committee_defs)

lemma sample_on_committee: "on_committee [sample_member] (am_signer sample_approval)"
  by (simp add: on_committee_def sample_approval_def)

lemma sample_approved:
  "verify_signature sample_committee_crypto (am_signer sample_approval) msg (am_signature sample_approval)"
  by (simp add: verify_signature_def verify_ed25519_def sample_committee_defs pk_well_formed_def sig_well_formed_def)

lemma sample_fields: "am_domain sample_approval = BtcPayments" "am_tx_hash sample_approval = 0"
  by (simp_all add: sample_approval_def)

lemma sample_collected: "collected sample_committee_crypto [(0, [sample_approval])]"
proof -
  have "fst (add_verified sample_committee_crypto sample_approval sample_committee_set []) = [(0, [sample_approval])]"
    using sample_approved sample_on_committee sample_committee sample_fields
    by (simp add: add_verified_def verify_approval_message_def Let_def)
  then show ?thesis using collected_add [OF collected_empty] by metis
qed

lemma sample_valid: "local_validation_error sample_checks s sample_raw_tx = None"
  by (simp add: local_validation_error_def raw_payload_error_def sample_checks_def sample_raw_tx_def tx_with_raw_chain_def)

lemma sample_raw: "tx_raw_chain sample_raw_tx = Some \<lparr>rc_kind = RawBtc, rc_bytes = [3], rc_certificate = None\<rparr>"
  by (simp add: sample_raw_tx_def tx_with_raw_chain_def)

lemma sample_built:
  "build_certificate sample_committee_crypto sample_checks sample_raw_tx st_new sample_committee_set
     [(0, [sample_approval])] = Inr (Some sample_cert)"
  using sample_on_committee sample_committee sample_fields sample_valid
  by (simp add: build_certificate_def sample_raw sample_raw_hash committee_threshold_def sample_cert_def)

theorem built_certificate_accepted_witness:
  "verify_certificate sample_committee_crypto sample_checks
     (attach_committee_certificate sample_cert sample_raw_tx) st_new sample_committee_set = Inr ()"
  by (rule built_certificate_accepted [OF sample_collected sample_built])

lemma sample_verified:
  "verify_certificate sample_committee_crypto sample_checks
     (attach_committee_certificate sample_cert sample_raw_tx) st_new sample_committee_set = Inr ()"
proof -
  have "local_validation_error sample_checks st_new (attach_committee_certificate sample_cert sample_raw_tx) = None"
    by (simp add: attach_keeps sample_valid)
  then show ?thesis
    using sample_on_committee sample_committee sample_approved
    by (simp add: verify_certificate_def sample_raw sample_raw_hash committee_threshold_def sample_cert_def
        attach_committee_certificate_def Let_def)
qed

theorem certificate_needs_two_thirds_witness:
  "\<exists>M. M \<subseteq> set [sample_member] \<and> M \<noteq> {} \<and> 2 * length [sample_member] \<le> 3 * card M"
  using certificate_needs_two_thirds [OF sample_verified, of _ BtcPayments]
  by (auto simp: attach_committee_certificate_def sample_raw sample_raw_hash sample_committee)

end
