(* ===== verification/Discovery.thy ===== *)
theory Discovery
  imports Signatures Stores Byte_Codec
begin

text \<open>
  The VA-DAR discovery registry, after \<open>ace-vadar/src/registry.rs\<close>: records that bind a discovery
  identifier to an owner key and a sealed artifact, with signed and versioned updates. The write-through
  to RocksDB behind the feature \<open>persistence\<close> is left out; it has no influence on the records in memory.
\<close>

section \<open>Records and messages\<close>

definition MAX_ARTIFACT_SIZE :: nat where "MAX_ARTIFACT_SIZE = 4096"

definition AUTH_DOMAIN :: bytes where "AUTH_DOMAIN = ascii ''va-dar:registry:auth:v1''"

record discovery_record =
  dr_cid :: hash32
  dr_version :: u64
  dr_commit :: hash32
  dr_owner_pubkey :: tagged_pubkey
  dr_sealed_artifact :: "bytes option"
  dr_created_at :: u64
  dr_updated_at :: u64
  dr_tombstoned :: bool

type_synonym vadar_registry = "(hash32, discovery_record) bmap"

definition authorization_message :: "crypto \<Rightarrow> hash32 \<Rightarrow> hash32 \<Rightarrow> u64 \<Rightarrow> hash32 \<Rightarrow> hash32" where
  "authorization_message cr discovery_id cid version commit =
    sha256 cr (AUTH_DOMAIN @ bytes32 discovery_id @ bytes32 cid @ u64_le version @ bytes32 commit)"

definition artifact_commitment :: "crypto \<Rightarrow> bytes \<Rightarrow> hash32" where
  "artifact_commitment cr artifact = sha256 cr artifact"

datatype vadar_error =
    AlreadyRegistered
  | VNotFound hash32
  | VTombstoned
  | VInvalidSignature
  | VersionNotMonotonic u64 u64
  | CommitmentMismatch hash32 hash32
  | ArtifactTooLarge nat nat
  | NotAuthorized

definition vadar_lookup :: "vadar_registry \<Rightarrow> hash32 \<Rightarrow> discovery_record option" where
  "vadar_lookup reg i = map_of reg i"

section \<open>Operations\<close>

definition check_artifact :: "crypto \<Rightarrow> bytes option \<Rightarrow> hash32 \<Rightarrow> vadar_error option" where
  "check_artifact cr artifact commit =
    (case artifact of
       None \<Rightarrow> None
     | Some a \<Rightarrow>
         if length a > MAX_ARTIFACT_SIZE then Some (ArtifactTooLarge (length a) MAX_ARTIFACT_SIZE)
         else if artifact_commitment cr a \<noteq> commit then Some (CommitmentMismatch commit (artifact_commitment cr a))
         else None)"

definition vadar_register ::
    "crypto \<Rightarrow> hash32 \<Rightarrow> hash32 \<Rightarrow> hash32 \<Rightarrow> tagged_pubkey \<Rightarrow> tagged_signature \<Rightarrow> bytes option \<Rightarrow> u64
      \<Rightarrow> vadar_registry \<Rightarrow> vadar_error + vadar_registry" where
  "vadar_register cr i cid commit key sig artifact slot reg =
    (if (case map_of reg i of Some r \<Rightarrow> \<not> dr_tombstoned r | None \<Rightarrow> False) then Inl AlreadyRegistered
     else case check_artifact cr artifact commit of
       Some e \<Rightarrow> Inl e
     | None \<Rightarrow>
         if \<not> verify_signature cr key (bytes32 (authorization_message cr i cid 1 commit)) sig
         then Inl VInvalidSignature
         else Inr (bt_insert i
           \<lparr>dr_cid = cid, dr_version = 1, dr_commit = commit, dr_owner_pubkey = key,
            dr_sealed_artifact = artifact, dr_created_at = slot, dr_updated_at = slot,
            dr_tombstoned = False\<rparr> reg))"

definition vadar_update ::
    "crypto \<Rightarrow> hash32 \<Rightarrow> hash32 \<Rightarrow> u64 \<Rightarrow> hash32 \<Rightarrow> tagged_signature \<Rightarrow> bytes option \<Rightarrow> u64
      \<Rightarrow> vadar_registry \<Rightarrow> vadar_error + vadar_registry" where
  "vadar_update cr i cid version commit sig artifact slot reg =
    (case map_of reg i of
       None \<Rightarrow> Inl (VNotFound i)
     | Some r \<Rightarrow>
         if dr_tombstoned r then Inl VTombstoned
         else if version \<le> dr_version r then Inl (VersionNotMonotonic (dr_version r) version)
         else case check_artifact cr artifact commit of
           Some e \<Rightarrow> Inl e
         | None \<Rightarrow>
             if \<not> verify_signature cr (dr_owner_pubkey r) (bytes32 (authorization_message cr i cid version commit)) sig
             then Inl VInvalidSignature
             else Inr (bt_modify i (\<lambda>r. r\<lparr>dr_cid := cid, dr_version := version, dr_commit := commit,
                    dr_sealed_artifact := artifact, dr_updated_at := slot\<rparr>) reg))"

definition vadar_tombstone ::
    "crypto \<Rightarrow> hash32 \<Rightarrow> tagged_signature \<Rightarrow> u64 \<Rightarrow> vadar_registry \<Rightarrow> vadar_error + vadar_registry" where
  "vadar_tombstone cr i sig slot reg =
    (case map_of reg i of
       None \<Rightarrow> Inl (VNotFound i)
     | Some r \<Rightarrow>
         if dr_tombstoned r then Inl VTombstoned
         else let version = dr_version r + 1
           in if \<not> verify_signature cr (dr_owner_pubkey r) (bytes32 (authorization_message cr i 0 version 0)) sig
              then Inl VInvalidSignature
              else Inr (bt_modify i (\<lambda>r. r\<lparr>dr_tombstoned := True, dr_version := version, dr_updated_at := slot\<rparr>) reg))"

section \<open>Runs\<close>

datatype vadar_op =
    Register hash32 hash32 hash32 tagged_pubkey tagged_signature "bytes option" u64
  | Update hash32 hash32 u64 hash32 tagged_signature "bytes option" u64
  | Tombstone hash32 tagged_signature u64

fun vadar_exec :: "crypto \<Rightarrow> vadar_op \<Rightarrow> vadar_registry \<Rightarrow> vadar_error + vadar_registry" where
  "vadar_exec cr (Register i cid commit key sig artifact slot) reg = vadar_register cr i cid commit key sig artifact slot reg"
| "vadar_exec cr (Update i cid version commit sig artifact slot) reg = vadar_update cr i cid version commit sig artifact slot reg"
| "vadar_exec cr (Tombstone i sig slot) reg = vadar_tombstone cr i sig slot reg"

fun vadar_run :: "crypto \<Rightarrow> vadar_op list \<Rightarrow> vadar_registry \<Rightarrow> vadar_registry" where
  "vadar_run cr [] reg = reg"
| "vadar_run cr (op # ops) reg = vadar_run cr ops (case vadar_exec cr op reg of Inr reg' \<Rightarrow> reg' | Inl _ \<Rightarrow> reg)"

text \<open>What an operation claims about an identifier: the content and version it puts there.\<close>

fun op_signed :: "crypto \<Rightarrow> tagged_pubkey \<Rightarrow> hash32 \<Rightarrow> hash32 \<Rightarrow> u64 \<Rightarrow> hash32 \<Rightarrow> vadar_op \<Rightarrow> bool" where
  "op_signed cr key i cid version commit (Update j cid' version' commit' sig _ _) \<longleftrightarrow>
     j = i \<and> cid' = cid \<and> version' = version \<and> commit' = commit
     \<and> verify_signature cr key (bytes32 (authorization_message cr i cid version commit)) sig"
| "op_signed cr key i cid version commit _ = False"

fun op_revokes :: "crypto \<Rightarrow> tagged_pubkey \<Rightarrow> hash32 \<Rightarrow> vadar_op \<Rightarrow> bool" where
  "op_revokes cr key i (Tombstone j sig _) \<longleftrightarrow>
     j = i \<and> (\<exists>version. verify_signature cr key (bytes32 (authorization_message cr i 0 version 0)) sig)"
| "op_revokes cr key i _ = False"

definition record_ok :: "crypto \<Rightarrow> discovery_record \<Rightarrow> bool" where
  "record_ok cr r \<longleftrightarrow> (\<forall>a. dr_sealed_artifact r = Some a \<longrightarrow>
     length a \<le> MAX_ARTIFACT_SIZE \<and> dr_commit r = artifact_commitment cr a)"

definition registry_ok :: "crypto \<Rightarrow> vadar_registry \<Rightarrow> bool" where
  "registry_ok cr reg \<longleftrightarrow> bt_wf reg \<and> (\<forall>i r. map_of reg i = Some r \<longrightarrow> record_ok cr r)"

lemma check_artifact_ok:
  "check_artifact cr artifact commit = None \<longleftrightarrow>
    (\<forall>a. artifact = Some a \<longrightarrow> length a \<le> MAX_ARTIFACT_SIZE \<and> commit = artifact_commitment cr a)"
  by (auto simp: check_artifact_def split: option.splits)

lemma registry_ok_exec:
  assumes "registry_ok cr reg" and "vadar_exec cr op reg = Inr reg'"
  shows "registry_ok cr reg'"
  using assms
  by (cases op)
     (auto simp: vadar_register_def vadar_update_def vadar_tombstone_def registry_ok_def record_ok_def Let_def
       map_of_bt_insert check_artifact_ok split: option.splits if_splits)

lemma owner_keeps_record:
  assumes "registry_ok cr reg" and "map_of reg i = Some r" and "\<not> dr_tombstoned r"
    and "\<not> op_revokes cr (dr_owner_pubkey r) i op" and "vadar_exec cr op reg = Inr reg'"
  shows "\<exists>r'. map_of reg' i = Some r' \<and> \<not> dr_tombstoned r' \<and> dr_owner_pubkey r' = dr_owner_pubkey r
    \<and> dr_created_at r' = dr_created_at r
    \<and> (r' = r \<or> dr_version r < dr_version r'
        \<and> op_signed cr (dr_owner_pubkey r) i (dr_cid r') (dr_version r') (dr_commit r') op)"
  using assms
  by (cases op)
     (auto simp: vadar_register_def vadar_update_def vadar_tombstone_def registry_ok_def Let_def
       map_of_bt_insert split: option.splits if_splits)

section \<open>Properties\<close>

text \<open>C13: A discovery record belongs to its owner. Whatever operations anybody sends, as long as no
  revocation signed by the owner is among them, the record stays, keeps its owner key and its time of
  creation, its version never falls, and if its content differs at the end, the owner signed exactly this
  content and version. Every stored artifact matches its commitment and the size limit.\<close>

theorem discovery_owner_control:
  assumes "registry_ok cr reg" and "map_of reg i = Some r" and "\<not> dr_tombstoned r"
    and "\<forall>op \<in> set ops. \<not> op_revokes cr (dr_owner_pubkey r) i op"
  shows "registry_ok cr (vadar_run cr ops reg)
    \<and> (\<exists>r'. map_of (vadar_run cr ops reg) i = Some r' \<and> \<not> dr_tombstoned r'
        \<and> dr_owner_pubkey r' = dr_owner_pubkey r \<and> dr_created_at r' = dr_created_at r
        \<and> (r' = r \<or> dr_version r < dr_version r'
            \<and> (\<exists>op \<in> set ops. op_signed cr (dr_owner_pubkey r) i (dr_cid r') (dr_version r') (dr_commit r') op)))"
  using assms
proof (induction ops arbitrary: reg r)
  case (Cons op ops)
  show ?case
  proof (cases "vadar_exec cr op reg")
    case (Inl e)
    then show ?thesis using Cons.IH [OF Cons.prems(1-3)] Cons.prems(4) by auto
  next
    case (Inr reg')
    obtain r1 where r1: "map_of reg' i = Some r1" "\<not> dr_tombstoned r1" "dr_owner_pubkey r1 = dr_owner_pubkey r"
        "dr_created_at r1 = dr_created_at r"
        "r1 = r \<or> dr_version r < dr_version r1
          \<and> op_signed cr (dr_owner_pubkey r) i (dr_cid r1) (dr_version r1) (dr_commit r1) op"
      using owner_keeps_record [OF Cons.prems(1-3) _ Inr] Cons.prems(4) by auto
    have ok: "registry_ok cr reg'" by (rule registry_ok_exec [OF Cons.prems(1) Inr])
    show ?thesis
      using Cons.IH [OF ok r1(1,2)] Cons.prems(4) r1 Inr by (auto intro: less_trans)
  qed
qed auto

text \<open>C39: A revocation does not last. After the owner has revoked a record, the registration message that
  created it is accepted again, from anybody and without a new signature: the record is live again and
  its version falls from 2 to 1.\<close>

theorem revocation_undone_by_replay:
  assumes "bt_wf reg" and "vadar_register cr i cid commit key sig artifact slot reg = Inr reg1"
    and "vadar_tombstone cr i sig1 slot1 reg1 = Inr reg2"
  shows "\<exists>reg3 r2 r3. vadar_register cr i cid commit key sig artifact slot2 reg2 = Inr reg3
    \<and> map_of reg2 i = Some r2 \<and> dr_tombstoned r2 \<and> dr_version r2 = 2
    \<and> map_of reg3 i = Some r3 \<and> \<not> dr_tombstoned r3 \<and> dr_version r3 = 1
    \<and> dr_owner_pubkey r3 = key \<and> dr_commit r3 = commit"
proof -
  have r: "check_artifact cr artifact commit = None"
      "verify_signature cr key (bytes32 (authorization_message cr i cid 1 commit)) sig"
      "map_of reg1 i = Some \<lparr>dr_cid = cid, dr_version = 1, dr_commit = commit, dr_owner_pubkey = key,
         dr_sealed_artifact = artifact, dr_created_at = slot, dr_updated_at = slot, dr_tombstoned = False\<rparr>"
      "bt_wf reg1"
    using assms(1,2) by (auto simp: vadar_register_def map_of_bt_insert split: option.splits if_splits)
  then have m2: "\<exists>r2. map_of reg2 i = Some r2 \<and> dr_tombstoned r2 \<and> dr_version r2 = 2" and "bt_wf reg2"
    using assms(3) by (auto simp: vadar_tombstone_def Let_def split: if_splits)
  then show ?thesis using r(1,2) by (auto simp: vadar_register_def map_of_bt_insert)
qed

section \<open>A registry with one record\<close>

definition sample_vadar_crypto :: crypto where
  "sample_vadar_crypto = \<lparr>sha256 = (\<lambda>_. 3), ed25519_key = (\<lambda>_. True), ed25519_verify_strict = (\<lambda>k m s. take 1 k = take 1 s),
     k256_key = (\<lambda>_. False), k256_sig = (\<lambda>_. False), k256_verify = (\<lambda>_ _ _. False),
     ml_dsa_key = (\<lambda>_. False), ml_dsa_verify = (\<lambda>_ _ _. False), hmac_key = (\<lambda>_. False), hmac_verify_slice = (\<lambda>_ _ _. False)\<rparr>"

definition owner_key :: "u8 \<Rightarrow> tagged_pubkey" where
  "owner_key b = \<lparr>pk_alg = Ed25519, pk_bytes = b # replicate 31 0\<rparr>"

definition owner_sig :: "u8 \<Rightarrow> tagged_signature" where
  "owner_sig b = \<lparr>sig_alg = Ed25519, sig_bytes = b # replicate 63 0\<rparr>"

lemma owner_verify: "verify_signature sample_vadar_crypto (owner_key b) m (owner_sig c) \<longleftrightarrow> b = c"
  by (simp add: verify_signature_def verify_ed25519_def sample_vadar_crypto_def owner_key_def owner_sig_def
      pk_well_formed_def sig_well_formed_def)

definition sample_vadar_record :: discovery_record where
  "sample_vadar_record = \<lparr>dr_cid = 1, dr_version = 1, dr_commit = 3, dr_owner_pubkey = owner_key 5,
     dr_sealed_artifact = Some [8], dr_created_at = 4, dr_updated_at = 4, dr_tombstoned = False\<rparr>"

lemma sample_vadar_registered:
  "vadar_register sample_vadar_crypto 9 1 3 (owner_key 5) (owner_sig 5) (Some [8]) 4 [] = Inr [(9, sample_vadar_record)]"
  by (simp add: vadar_register_def owner_verify check_artifact_def MAX_ARTIFACT_SIZE_def artifact_commitment_def
      sample_vadar_record_def) (simp add: sample_vadar_crypto_def)

lemma sample_vadar_ok: "registry_ok sample_vadar_crypto [(9, sample_vadar_record)]"
  using registry_ok_exec [of sample_vadar_crypto "[]" "Register 9 1 3 (owner_key 5) (owner_sig 5) (Some [8]) 4"]
    sample_vadar_registered
  by (simp add: registry_ok_def)

theorem discovery_owner_control_witness:
  "\<exists>r'. map_of (vadar_run sample_vadar_crypto
        [Update 9 2 7 3 (owner_sig 5) None 6, Update 9 2 8 3 (owner_sig 6) None 7, Tombstone 9 (owner_sig 6) 8]
        [(9, sample_vadar_record)]) 9 = Some r' \<and> dr_owner_pubkey r' = owner_key 5 \<and> \<not> dr_tombstoned r'"
  using discovery_owner_control [OF sample_vadar_ok, of 9 sample_vadar_record
      "[Update 9 2 7 3 (owner_sig 5) None 6, Update 9 2 8 3 (owner_sig 6) None 7, Tombstone 9 (owner_sig 6) 8]"]
  by (auto simp: sample_vadar_record_def owner_verify)

theorem revocation_undone_by_replay_witness:
  "\<exists>reg2 reg3. vadar_tombstone sample_vadar_crypto 9 (owner_sig 5) 6 [(9, sample_vadar_record)] = Inr reg2
    \<and> vadar_register sample_vadar_crypto 9 1 3 (owner_key 5) (owner_sig 5) (Some [8]) 7 reg2 = Inr reg3"
proof -
  obtain reg2 where "vadar_tombstone sample_vadar_crypto 9 (owner_sig 5) 6 [(9, sample_vadar_record)] = Inr reg2"
    by (simp add: vadar_tombstone_def sample_vadar_record_def owner_verify)
  with revocation_undone_by_replay [OF bt_wf_Nil sample_vadar_registered this] show ?thesis by blast
qed

end
