(* ===== verification/Spec2Isabelle.thy ===== *)
theory Spec2Isabelle
  imports Scenario Governance Execution Price_Ladder Finality Committee Discovery
begin

text \<open>
  Verification of ACE Chain: the consensus core, the ledger state, transaction execution, the economics
  and governance around it, and the price ladder of its order book.

  \<^bold>\<open>The program.\<close> A node keeps a ledger of accounts, agrees with other validators on blocks by a
  Tendermint protocol, executes the transactions of a committed block, and settles rewards and penalties
  at epoch boundaries. Validators sign votes; a round machine turns them into locks and commits; a
  write-ahead log restores them after a restart. Accounts live in a state tree, many state trees make a
  sharded state, and contracts keep data in storage slots of an account.

  \<^bold>\<open>Foundations.\<close>
  \<^item> \<open>Ace_Prelude\<close>: Rust integers as words with \<open>checked_\<close> and \<open>saturating_\<close> arithmetic, hash maps as
    association lists (\<open>hmap\<close>), little- and big-endian byte forms. \<open>[u8; 32]\<close> is a 256-bit word whose order
    is the order of its bytes. Plain \<open>+\<close> wraps, as in a release build.
  \<^item> \<open>Stores\<close>: ordered maps and sets, and the locale \<open>kv_store\<close>, interpreted on hashed and ordered maps.
  \<^item> \<open>Byte_Codec\<close>, \<open>Slots\<close>: slices of buffers and typed access to storage slots.

  \<^bold>\<open>Consensus.\<close>
  \<^item> \<open>Signatures\<close> (\<open>ace-runtime/src/crypto/sig_algo.rs\<close>): tagged keys, wire form, verification. The
    primitives are the record \<open>crypto\<close>, a parameter of everything that hashes or verifies.
  \<^item> \<open>Validator_Set\<close> (\<open>ace-consensus/src/validator_set.rs\<close>), \<open>Votes\<close> (\<open>vote.rs\<close>), \<open>Tendermint\<close>
    (\<open>tendermint.rs\<close>), \<open>Round_Timer\<close> (\<open>round_timer.rs\<close>), \<open>Wal\<close> (\<open>wal.rs\<close>): one record and one definition
    per operation, with the invariants each operation keeps.
  \<^item> \<open>Lock_Voting\<close>: the locale of lock-based voting and its safety argument; \<open>Tendermint_Net\<close> interprets it
    on the round machines of all validators over a network that may drop, repeat and reorder.
  \<^item> \<open>Node_Consensus\<close>, \<open>Node_Safety\<close> (\<open>ace-node/src/node.rs\<close>): the handlers of the consensus loop refine
    the steps of \<open>Tendermint_Net\<close>; \<open>Scenario\<close> executes a run of three nodes. Agreement, below, is the result.
  \<^item> \<open>Finality\<close> (\<open>ace-runtime/src/consensus/finality.rs\<close>, \<open>timeout.rs\<close>): from votes to a proof or a rollback.

  \<^bold>\<open>Ledger.\<close>
  \<^item> \<open>Accounts\<close>, \<open>Addresses\<close>, \<open>State_Tree\<close>, \<open>Sharded_State\<close> (\<open>ace-model/src\<close>): accounts with their keys,
    expiry and resurrection, alias indexes, Merkle root, shards, snapshots. \<open>Balances\<close> holds the locale
    \<open>account_store\<close> for debits and credits, interpreted on a tree and on a sharded state.
  \<^item> \<open>Transactions\<close> (\<open>ace-runtime/src/types\<close>), \<open>Tx_Ops\<close>, \<open>Executor\<close> (\<open>ace-engine/src\<close>): wire format,
    payloads and their execution. \<open>Execution\<close> shows replay protection, conservation, and that a block is
    executed as its transactions one by one.
  \<^item> \<open>Committee\<close> (\<open>ace-node/src/capability.rs\<close>): committees that approve raw Bitcoin and Solana transactions.

  \<^bold>\<open>Economics and services.\<close>
  \<^item> \<open>Rewards\<close>, \<open>Admission\<close> (\<open>ace-consensus/src\<close>), \<open>Node_Registry\<close> (\<open>ace-model/src\<close>), \<open>Governance\<close>
    (\<open>ace-node/src/governance.rs\<close>): issuance, distribution, slashing, admission of validators, rollback.
  \<^item> \<open>Price_Ladder\<close> (\<open>ace-liquid/src/critbit.rs\<close>): the crit-bit tree in storage slots implements sets of
    prices; the locale \<open>price_index\<close> is what an order book relies on.
  \<^item> \<open>Discovery\<close> (\<open>ace-vadar/src/registry.rs\<close>): the registry of discovery records.

  \<^bold>\<open>Conventions.\<close> An operation that may fail returns a sum with the error on the left; one that changes the state
  before it fails returns the changed state beside the error. Assertions and panics are \<open>None\<close>. What the code
  needs of SHA-256 is a hypothesis of the theorem: no collision on the inputs it names. Theorems with
  hypotheses are applied to a concrete input right after them.

  \<^bold>\<open>Bounds and fuel.\<close> \<open>execute_action\<close> recurses as \<open>execute_tendermint_action\<close> does, with the depth
  \<open>EXEC_DEPTH = 4\<close> as fuel; \<open>execute_action_terminates\<close> shows that this is always enough. The loops over the
  nodes of the price ladder are partial functions; \<open>price_ladder_refines_sets\<close> shows that they return on a
  well-formed ladder. All other functions are total.

  \<^bold>\<open>Not modelled.\<close> Networking (\<open>ace-p2p\<close>), the RPC server (\<open>ace-rpc\<close>), persistence in RocksDB, configuration and
  process control are input and output. Proof generation, the EVM and the Move machine, MEV-ACE ordering and
  node identities sit on libraries outside the sources. Foreign transaction parsers (\<open>raw_*.rs\<close>), the transaction
  pool, the Bitcoin script machine, the token ledger, cross-chain settlement (\<open>ace-defi\<close>), HFI Pay, and matching
  in the order book are not modelled; where a modelled part calls them, they are parameters or inputs.
  Of \<open>node.rs\<close> only the consensus handlers are modelled, block bodies being hashes there.
\<close>

section \<open>Agreement\<close>

text \<open>
  C1: Agreement. In every run of the system in which, at each height, the faulty validators
  hold less than a third of the stake and no signature of a correct validator is forged, two
  correct nodes never commit different blocks at the same height, in whatever rounds and by
  whatever means (counted precommits, replayed votes or a certificate) they commit.
\<close>

theorem agreement:
  assumes "net_valid cfg" and "sys_reach cfg cr sys"
    and "net_correct cfg p" and "EvCommit p n r b \<in> set (sys_log sys)"
    and "net_correct cfg q" and "EvCommit q n r' b' \<in> set (sys_log sys)"
  shows "b = b'"
  using tmv.commits_agree [OF assms(1) _ assms(3-6)] sys_reach_inv [OF assms(2,1)]
  by (auto simp: sys_inv_def)

theorem agreement_witness:
  "EvCommit 1 1 0 7 \<in> set (sys_log demo_sys) \<and> EvCommit 2 1 0 7 \<in> set (sys_log demo_sys) \<and> (7 :: hash32) = 7"
  using agreement [OF demo_valid demo_reach demo_correct(1) _ demo_correct(2), of 1 0 7 0 7]
  by (simp add: demo_log)

end
